theory Spec2Isabelle
  imports Main "HOL-Library.Word"
begin

unbundle bit_operations_syntax

section \<open>SimpleSAT: data model\<close>

text \<open>
  A shallow embedding of \<^verbatim>\<open>solver.c\<close> and of the clause-reading part of
  \<^verbatim>\<open>format.c\<close>.

  \<^item> \<^verbatim>\<open>unsigned int\<close> and \<^verbatim>\<open>int\<close> are 32-bit words; \<^verbatim>\<open>int\<close> is read
    in two's complement (\<open><s\<close>, \<open>sint\<close>), arithmetic wraps around.
  \<^item> A C array (pointer, used length, capacity) is a list. The capacity fields
    \<^verbatim>\<open>c_lits\<close>, \<^verbatim>\<open>c_cont_clauses\<close> and the counter \<^verbatim>\<open>n_cont_clauses\<close> only
    drive reallocation and iteration and are the list itself.
  \<^item> A \<^verbatim>\<open>ClauseState *\<close> held in an occurrence list always points into
    \<^verbatim>\<open>solver->clauses\<close>; it is the index of that entry.
  \<^item> \<^verbatim>\<open>assert\<close> failures, reads and writes outside an array, and running out of
    the recursion budget are faults: every function that can hit one returns
    \<open>fault + result\<close>.
\<close>

type_synonym u32 = "32 word"
type_synonym Literal = "32 word"
type_synonym c_int = "32 word"

datatype fault = Assertion_Failed | Out_Of_Bounds | Unit_Stack_Overflow | Out_Of_Fuel

datatype Solution = SOLUTION_UNKNOWN | SOLUTION_SATISFIABLE | SOLUTION_UNSATISFIABLE

datatype Error = ERROR_OK | ERROR_INVALID_USAGE | ERROR_INVALID_FORMAT | ERROR_FILE_ACCESS

text \<open>The field \<^verbatim>\<open>lits\<close> of \<^verbatim>\<open>ClauseState\<close> is \<open>clause_lits\<close> here, since the
  solver has a field \<^verbatim>\<open>lits\<close> of its own.\<close>

record ClauseState =
  n_lits :: u32
  clause_lits :: "Literal list"
  n_assigned_true :: u32
  n_assigned_false :: u32
  n_free_lits :: u32

record LitState =
  fixed :: bool
  assigned :: bool
  score :: u32
  cont_clauses :: "nat list"

text \<open>The solver. The trail \<^verbatim>\<open>assigned\<close> is \<open>assigned_trail\<close> (the literal state has a
  field \<^verbatim>\<open>assigned\<close> too). The fields \<^verbatim>\<open>solution\<close>, \<^verbatim>\<open>start_time\<close> and
  \<^verbatim>\<open>stop_time\<close> are written by \<^verbatim>\<open>main.c\<close> only and are left out.\<close>

record Solver =
  n_vars :: u32
  n_clauses :: u32
  lits :: "LitState list"
  clauses :: "ClauseState list"
  n_sat_clauses :: u32
  n_unsat_clauses :: u32
  n_units :: u32
  n_assigned :: u32
  unit_stack :: "Literal list"
  assigned_trail :: "Literal list"
  t_branches :: u32
  t_unit_props :: u32

section \<open>Literal encoding\<close>

definition negate :: "Literal \<Rightarrow> Literal" where
  "negate lit = lit XOR 1"

definition lit_from_int :: "c_int \<Rightarrow> fault + Literal" where
  "lit_from_int repr =
     (if repr = 0 then Inl Assertion_Failed
      else if 0 <s repr then Inr (push_bit 1 (repr - 1))
      else Inr (push_bit 1 (- repr - 1) OR 1))"

definition int_from_lit :: "Literal \<Rightarrow> c_int" where
  "int_from_lit lit =
     (if lit AND 1 \<noteq> 0 then - (drop_bit 1 lit + 1) else drop_bit 1 lit + 1)"

section \<open>Construction\<close>

definition create_clause_state :: ClauseState where
  "create_clause_state =
     \<lparr>n_lits = 0, clause_lits = [], n_assigned_true = 0, n_assigned_false = 0,
      n_free_lits = 0\<rparr>"

definition add_literal :: "ClauseState \<Rightarrow> Literal \<Rightarrow> ClauseState" where
  "add_literal cstate lit =
     cstate\<lparr>clause_lits := clause_lits cstate @ [lit],
            n_lits := n_lits cstate + 1,
            n_free_lits := n_free_lits cstate + 1\<rparr>"

definition create_lit_state :: LitState where
  "create_lit_state = \<lparr>fixed = False, assigned = False, score = 0, cont_clauses = []\<rparr>"

definition add_cont_clause :: "LitState \<Rightarrow> nat \<Rightarrow> LitState" where
  "add_cont_clause lstate ci = lstate\<lparr>cont_clauses := cont_clauses lstate @ [ci]\<rparr>"

text \<open>\<^verbatim>\<open>create_solver\<close>. The arrays \<^verbatim>\<open>unit_stack\<close> and \<^verbatim>\<open>assigned\<close> come from
  \<^verbatim>\<open>malloc\<close>; their cells are never read before they are written, and hold 0 here.\<close>

definition create_solver :: "u32 \<Rightarrow> u32 \<Rightarrow> fault + Solver" where
  "create_solver num_vars num_clauses =
     (if \<not> 0 < num_vars then Inl Assertion_Failed
      else Inr
        \<lparr>n_vars = num_vars,
         n_clauses = num_clauses,
         lits = replicate (unat (push_bit 1 num_vars :: u32)) create_lit_state,
         clauses = replicate (unat num_clauses) create_clause_state,
         n_sat_clauses = 0,
         n_unsat_clauses = 0,
         n_units = 0,
         n_assigned = 0,
         unit_stack = replicate (unat (push_bit 1 num_vars + num_clauses :: u32)) 0,
         assigned_trail = replicate (unat (push_bit 1 num_vars :: u32)) 0,
         t_branches = 0,
         t_unit_props = 0\<rparr>)"

definition add_literal_to_clause :: "Solver \<Rightarrow> nat \<Rightarrow> Literal \<Rightarrow> fault + Solver" where
  "add_literal_to_clause solver ci lit =
     (if \<not> ci < length (clauses solver) then Inl Out_Of_Bounds
      else if lit \<in> set (clause_lits (clauses solver ! ci)) then Inr solver
      else if \<not> unat lit < length (lits solver) then Inl Out_Of_Bounds
      else Inr (solver
        \<lparr>clauses := (clauses solver)[ci := add_literal (clauses solver ! ci) lit],
         lits := (lits solver)[unat lit := add_cont_clause (lits solver ! unat lit) ci]\<rparr>))"

section \<open>Loops over arrays\<close>

text \<open>\<^verbatim>\<open>for (i = 0; i < n; ++i) body(a[i])\<close>: the body runs on each entry in
  order and the loop stops at the first fault.\<close>

fun for_each :: "('s \<Rightarrow> 'a \<Rightarrow> fault + 's) \<Rightarrow> 'a list \<Rightarrow> 's \<Rightarrow> fault + 's" where
  "for_each body [] s = Inr s"
| "for_each body (x # xs) s =
     (case body s x of Inl e \<Rightarrow> Inl e | Inr s' \<Rightarrow> for_each body xs s')"

section \<open>Counter maintenance\<close>

definition add_true_assignment :: "Solver \<Rightarrow> nat \<Rightarrow> fault + Solver" where
  "add_true_assignment solver ci =
     (if \<not> ci < length (clauses solver) then Inl Out_Of_Bounds
      else let cstate = clauses solver ! ci in
        if \<not> 0 < n_free_lits cstate then Inl Assertion_Failed
        else Inr (solver
          \<lparr>n_sat_clauses :=
             (if n_assigned_true cstate = 0 then n_sat_clauses solver + 1
              else n_sat_clauses solver),
           clauses := (clauses solver)[ci := cstate
             \<lparr>n_assigned_true := n_assigned_true cstate + 1,
              n_free_lits := n_free_lits cstate - 1\<rparr>]\<rparr>))"

text \<open>\<^verbatim>\<open>get_unit\<close>: the scan of the clause, returning the first literal that is not
  fixed, and \<^verbatim>\<open>-1\<close> (all bits set) when there is none.\<close>

fun get_unit_scan :: "LitState list \<Rightarrow> Literal list \<Rightarrow> fault + Literal" where
  "get_unit_scan ls [] = Inr (- 1)"
| "get_unit_scan ls (lit # rest) =
     (if \<not> unat lit < length ls then Inl Out_Of_Bounds
      else if fixed (ls ! unat lit) = False then Inr lit
      else get_unit_scan ls rest)"

definition get_unit :: "Solver \<Rightarrow> ClauseState \<Rightarrow> fault + Literal" where
  "get_unit solver cstate =
     (if \<not> n_free_lits cstate = 1 then Inl Assertion_Failed
      else if \<not> n_assigned_true cstate = 0 then Inl Assertion_Failed
      else get_unit_scan (lits solver) (clause_lits cstate))"

definition add_false_assignment :: "Solver \<Rightarrow> nat \<Rightarrow> fault + Solver" where
  "add_false_assignment solver ci =
     (if \<not> ci < length (clauses solver) then Inl Out_Of_Bounds
      else let cstate = clauses solver ! ci in
        if \<not> 0 < n_free_lits cstate then Inl Assertion_Failed
        else
          let solver1 = solver
                \<lparr>n_unsat_clauses :=
                   (if n_assigned_true cstate = 0 \<and> n_free_lits cstate = 1
                    then n_unsat_clauses solver + 1 else n_unsat_clauses solver)\<rparr>;
              cstate1 = cstate
                \<lparr>n_assigned_false := n_assigned_false cstate + 1,
                 n_free_lits := n_free_lits cstate - 1\<rparr>;
              solver2 = solver1\<lparr>clauses := (clauses solver1)[ci := cstate1]\<rparr>
          in
            if n_assigned_true cstate1 = 0 \<and> n_free_lits cstate1 = 1 then
              (case get_unit solver2 cstate1 of
                 Inl e \<Rightarrow> Inl e
               | Inr unit \<Rightarrow>
                   if \<not> unat (n_units solver2) < length (unit_stack solver2)
                   then Inl Unit_Stack_Overflow
                   else Inr (solver2
                     \<lparr>unit_stack := (unit_stack solver2)[unat (n_units solver2) := unit],
                      n_units := n_units solver2 + 1\<rparr>))
            else Inr solver2)"

definition undo_true_assignment :: "Solver \<Rightarrow> nat \<Rightarrow> fault + Solver" where
  "undo_true_assignment solver ci =
     (if \<not> ci < length (clauses solver) then Inl Out_Of_Bounds
      else let cstate = clauses solver ! ci in
        if \<not> n_free_lits cstate < n_lits cstate then Inl Assertion_Failed
        else
          let cstate1 = cstate
                \<lparr>n_assigned_true := n_assigned_true cstate - 1,
                 n_free_lits := n_free_lits cstate + 1\<rparr>
          in Inr (solver
            \<lparr>clauses := (clauses solver)[ci := cstate1],
             n_sat_clauses :=
               (if n_assigned_true cstate1 = 0 then n_sat_clauses solver - 1
                else n_sat_clauses solver)\<rparr>))"

definition undo_false_assignment :: "Solver \<Rightarrow> nat \<Rightarrow> fault + Solver" where
  "undo_false_assignment solver ci =
     (if \<not> ci < length (clauses solver) then Inl Out_Of_Bounds
      else let cstate = clauses solver ! ci in
        if \<not> n_free_lits cstate < n_lits cstate then Inl Assertion_Failed
        else
          let cstate1 = cstate
                \<lparr>n_assigned_false := n_assigned_false cstate - 1,
                 n_free_lits := n_free_lits cstate + 1\<rparr>
          in Inr (solver
            \<lparr>clauses := (clauses solver)[ci := cstate1],
             n_unsat_clauses :=
               (if n_assigned_true cstate1 = 0 \<and> n_free_lits cstate1 = 1
                then n_unsat_clauses solver - 1 else n_unsat_clauses solver)\<rparr>))"

section \<open>Assignment and its undo\<close>

definition make_assignment :: "Solver \<Rightarrow> Literal \<Rightarrow> fault + Solver" where
  "make_assignment solver lit =
     (let i = unat lit; ni = unat (negate lit) in
      if \<not> i < length (lits solver) \<or> \<not> ni < length (lits solver) then Inl Out_Of_Bounds
      else if \<not> fixed (lits solver ! i) = False then Inl Assertion_Failed
      else if \<not> fixed (lits solver ! ni) = False then Inl Assertion_Failed
      else
        let ls1 = (lits solver)[i := (lits solver ! i)\<lparr>fixed := True, assigned := True\<rparr>];
            ls2 = ls1[ni := (ls1 ! ni)\<lparr>fixed := True, assigned := False\<rparr>];
            solver1 = solver\<lparr>lits := ls2\<rparr>
        in
          (case for_each add_true_assignment (cont_clauses (ls2 ! i)) solver1 of
             Inl e \<Rightarrow> Inl e
           | Inr solver2 \<Rightarrow>
               for_each add_false_assignment (cont_clauses (ls2 ! ni)) solver2))"

definition undo_assignment :: "Solver \<Rightarrow> Literal \<Rightarrow> fault + Solver" where
  "undo_assignment solver lit =
     (let i = unat lit; ni = unat (negate lit) in
      if \<not> i < length (lits solver) \<or> \<not> ni < length (lits solver) then Inl Out_Of_Bounds
      else if \<not> fixed (lits solver ! i) = True then Inl Assertion_Failed
      else if \<not> assigned (lits solver ! i) = True then Inl Assertion_Failed
      else if \<not> fixed (lits solver ! ni) = True then Inl Assertion_Failed
      else if \<not> assigned (lits solver ! ni) = False then Inl Assertion_Failed
      else
        (case for_each undo_true_assignment (cont_clauses (lits solver ! i)) solver of
           Inl e \<Rightarrow> Inl e
         | Inr solver1 \<Rightarrow>
             (case for_each undo_false_assignment (cont_clauses (lits solver ! ni)) solver1 of
                Inl e \<Rightarrow> Inl e
              | Inr solver2 \<Rightarrow>
                  let ls1 = (lits solver2)[i := (lits solver2 ! i)\<lparr>fixed := False\<rparr>];
                      ls2 = ls1[ni := (ls1 ! ni)\<lparr>fixed := False\<rparr>]
                  in Inr (solver2\<lparr>lits := ls2\<rparr>))))"

section \<open>Branching heuristic\<close>

definition zero_score :: "Solver \<Rightarrow> nat \<Rightarrow> fault + Solver" where
  "zero_score solver k =
     (if \<not> k < length (lits solver) then Inl Out_Of_Bounds
      else Inr (solver\<lparr>lits := (lits solver)[k := (lits solver ! k)\<lparr>score := 0\<rparr>]\<rparr>))"

text \<open>The body of the inner loop of \<^verbatim>\<open>update_scores\<close>, on the literal state that
  \<^verbatim>\<open>lstate\<close> points to.\<close>

definition score_clause :: "ClauseState list \<Rightarrow> LitState \<Rightarrow> nat \<Rightarrow> fault + LitState" where
  "score_clause cs lstate ci =
     (if \<not> ci < length cs then Inl Out_Of_Bounds
      else let cstate = cs ! ci in
        if n_assigned_true cstate \<noteq> 0 then Inr lstate
        else if n_free_lits cstate = 2 then Inr (lstate\<lparr>score := score lstate + 4\<rparr>)
        else if n_free_lits cstate = 3 then Inr (lstate\<lparr>score := score lstate + 2\<rparr>)
        else Inr (lstate\<lparr>score := score lstate + 1\<rparr>))"

definition score_lit :: "Solver \<Rightarrow> nat \<Rightarrow> fault + Solver" where
  "score_lit solver k =
     (if \<not> k < length (lits solver) then Inl Out_Of_Bounds
      else let lstate = lits solver ! k in
        if fixed lstate then Inr solver
        else
          (case for_each (score_clause (clauses solver)) (cont_clauses lstate) lstate of
             Inl e \<Rightarrow> Inl e
           | Inr lstate' \<Rightarrow> Inr (solver\<lparr>lits := (lits solver)[k := lstate']\<rparr>)))"

definition update_scores :: "Solver \<Rightarrow> fault + Solver" where
  "update_scores solver =
     (case for_each zero_score [0 ..< unat (push_bit 1 (n_vars solver) :: u32)] solver of
        Inl e \<Rightarrow> Inl e
      | Inr solver1 \<Rightarrow>
          for_each score_lit [0 ..< unat (push_bit 1 (n_vars solver1) :: u32)] solver1)"

text \<open>The loop of \<^verbatim>\<open>choose_branch\<close>, \<^verbatim>\<open>for (lit = 0; lit < (n_vars << 1); lit += 2)\<close>,
  with the loop variable as the machine word it is.\<close>

function choose_loop :: "Solver \<Rightarrow> Literal \<Rightarrow> Literal \<Rightarrow> u32 \<Rightarrow> fault + Literal" where
  "choose_loop solver lit best_lit best_score =
     (if \<not> lit < push_bit 1 (n_vars solver) then Inr best_lit
      else if \<not> unat lit < length (lits solver) then Inl Out_Of_Bounds
      else if fixed (lits solver ! unat lit) then
        choose_loop solver (lit + 2) best_lit best_score
      else if \<not> unat (negate lit) < length (lits solver) then Inl Out_Of_Bounds
      else
        let a = score (lits solver ! unat lit);
            b = score (lits solver ! unat (negate lit));
            sc = (a + 1) * (b + 1)
        in
          if sc > best_score then
            choose_loop solver (lit + 2) (if a \<ge> b then lit else negate lit) sc
          else choose_loop solver (lit + 2) best_lit best_score)"
  by pat_completeness auto

lemma push_bit_1_even:
  fixes n :: u32
  shows "even (unat (push_bit 1 n :: u32))"
proof -
  have "unat (push_bit 1 n :: u32) = (2 * unat n) mod (2 * 2 ^ 31)"
    by (simp add: push_bit_eq_mult unat_word_ariths mult.commute)
  also have "\<dots> = 2 * (unat n mod 2 ^ 31)"
    by (rule mult_mod_right [symmetric])
  finally show ?thesis by simp
qed

lemma loop_step_no_wrap:
  fixes lit n :: u32
  assumes "lit < push_bit 1 n"
  shows "unat (lit + 2) = unat lit + 2"
proof -
  obtain k where k: "unat (push_bit 1 n :: u32) = 2 * k"
    using push_bit_1_even [of n] by (auto elim: evenE)
  have lt: "unat (push_bit 1 n :: u32) < 2 ^ 32"
    using unsigned_less [of "push_bit 1 n :: u32", where ?'a = nat] by simp
  have "unat lit < 2 * k"
    using assms k by (simp add: word_less_nat_alt)
  moreover have "k < 2147483648" using lt k by simp
  ultimately have "unat lit + 2 < 4294967296" by linarith
  then show ?thesis
    by (simp add: unat_word_ariths)
qed

termination choose_loop
proof (relation "measure (\<lambda>(solver, lit, best_lit, best_score).
    unat (push_bit 1 (n_vars solver) :: u32) - unat lit)")
  show "wf (measure (\<lambda>(solver, lit, best_lit, best_score).
    unat (push_bit 1 (n_vars solver) :: u32) - unat lit))" by simp
qed (simp_all add: loop_step_no_wrap word_less_nat_alt)

declare choose_loop.simps [simp del]

definition choose_branch :: "Solver \<Rightarrow> fault + (Literal \<times> Solver)" where
  "choose_branch solver =
     (if \<not> n_assigned solver \<noteq> n_vars solver then Inl Assertion_Failed
      else if \<not> n_sat_clauses solver \<noteq> n_clauses solver then Inl Assertion_Failed
      else
        (case update_scores solver of
           Inl e \<Rightarrow> Inl e
         | Inr solver1 \<Rightarrow>
             (case choose_loop solver1 0 0 0 of
                Inl e \<Rightarrow> Inl e
              | Inr best_lit \<Rightarrow> Inr (best_lit, solver1))))"

section \<open>Search\<close>

definition all_satisfied :: "Solver \<Rightarrow> bool" where
  "all_satisfied solver = (n_sat_clauses solver = n_clauses solver)"

definition any_contradiction :: "Solver \<Rightarrow> bool" where
  "any_contradiction solver = (n_unsat_clauses solver > 0)"

text \<open>The number of literal states that are not fixed: what the propagation loop
  of \<^verbatim>\<open>try_assignment\<close> uses up.\<close>

definition unfixed_count :: "LitState list \<Rightarrow> nat" where
  "unfixed_count ls = sum_list (map (\<lambda>l. if fixed l then 0 else 1) ls)"

lemma for_each_preserves:
  assumes "for_each body xs s = Inr s'" and "P s"
    and "\<And>t x t'. body t x = Inr t' \<Longrightarrow> P t \<Longrightarrow> P t'"
  shows "P s'"
  using assms(1,2)
proof (induction xs arbitrary: s)
  case Nil
  then show ?case by simp
next
  case (Cons x xs)
  then show ?case
    by (auto split: sum.splits intro: assms(3))
qed

lemma add_true_assignment_lits:
  "add_true_assignment s ci = Inr s' \<Longrightarrow> lits s' = lits s"
  by (auto simp: add_true_assignment_def Let_def split: if_splits)

lemma add_false_assignment_lits:
  "add_false_assignment s ci = Inr s' \<Longrightarrow> lits s' = lits s"
  by (auto simp: add_false_assignment_def Let_def split: if_splits sum.splits)

lemma undo_true_assignment_lits:
  "undo_true_assignment s ci = Inr s' \<Longrightarrow> lits s' = lits s"
  by (auto simp: undo_true_assignment_def Let_def split: if_splits)

lemma undo_false_assignment_lits:
  "undo_false_assignment s ci = Inr s' \<Longrightarrow> lits s' = lits s"
  by (auto simp: undo_false_assignment_def Let_def split: if_splits)

lemma unfixed_count_update:
  assumes "i < length ls"
  shows "unfixed_count (ls[i := y]) + (if fixed (ls ! i) then 0 else 1)
           = unfixed_count ls + (if fixed y then 0 else 1)"
proof -
  let ?f = "\<lambda>l. if fixed l then 0 else (1::nat)"
  have "(map ?f ls) ! i \<le> sum_list (map ?f ls)"
    using assms by (intro elem_le_sum_list) simp
  moreover have "sum_list ((map ?f ls)[i := ?f y]) = sum_list (map ?f ls) + ?f y - (map ?f ls) ! i"
    using assms by (intro sum_list_update) simp
  ultimately show ?thesis
    using assms by (simp add: unfixed_count_def map_update split: if_splits)
qed

lemma make_assignment_lits:
  assumes "make_assignment s lit = Inr s'"
  shows "lits s' = ((lits s)[unat lit := (lits s ! unat lit)\<lparr>fixed := True, assigned := True\<rparr>])
            [unat (negate lit) :=
               (((lits s)[unat lit := (lits s ! unat lit)\<lparr>fixed := True, assigned := True\<rparr>])
                  ! unat (negate lit))\<lparr>fixed := True, assigned := False\<rparr>]"
proof -
  let ?ls1 = "(lits s)[unat lit := (lits s ! unat lit)\<lparr>fixed := True, assigned := True\<rparr>]"
  let ?ls2 = "?ls1[unat (negate lit) := (?ls1 ! unat (negate lit))\<lparr>fixed := True, assigned := False\<rparr>]"
  from assms obtain s2 where
    a: "for_each add_true_assignment (cont_clauses (?ls2 ! unat lit)) (s\<lparr>lits := ?ls2\<rparr>) = Inr s2"
    and b: "for_each add_false_assignment (cont_clauses (?ls2 ! unat (negate lit))) s2 = Inr s'"
    by (auto simp: make_assignment_def Let_def split: if_splits sum.splits)
  have "lits s2 = ?ls2"
    by (rule for_each_preserves [OF a, where P = "\<lambda>t. lits t = ?ls2"])
       (auto dest: add_true_assignment_lits)
  then show ?thesis
    by (rule for_each_preserves [OF b, where P = "\<lambda>t. lits t = ?ls2"])
       (auto dest: add_false_assignment_lits)
qed

lemma make_assignment_unfixed:
  assumes "make_assignment s lit = Inr s'"
  shows "unfixed_count (lits s') < unfixed_count (lits s)"
proof -
  let ?ls1 = "(lits s)[unat lit := (lits s ! unat lit)\<lparr>fixed := True, assigned := True\<rparr>]"
  from assms have r: "unat lit < length (lits s)" "unat (negate lit) < length (lits s)"
    and nf: "\<not> fixed (lits s ! unat lit)"
    by (auto simp: make_assignment_def Let_def split: if_splits)
  have "unfixed_count ?ls1 + 1 = unfixed_count (lits s)"
    using unfixed_count_update [OF r(1), of "(lits s ! unat lit)\<lparr>fixed := True, assigned := True\<rparr>"] nf
    by simp
  moreover have "unfixed_count (?ls1[unat (negate lit) :=
      (?ls1 ! unat (negate lit))\<lparr>fixed := True, assigned := False\<rparr>]) \<le> unfixed_count ?ls1"
    using unfixed_count_update [of "unat (negate lit)" ?ls1
        "(?ls1 ! unat (negate lit))\<lparr>fixed := True, assigned := False\<rparr>"] r(2)
    by (simp split: if_splits)
  ultimately show ?thesis
    unfolding make_assignment_lits [OF assms] by linarith
qed

text \<open>The propagation loop of \<^verbatim>\<open>try_assignment\<close>,
  \<^verbatim>\<open>while (solver->n_units > 0) { ... }\<close>. The result \<open>True\<close> is the
  \<^verbatim>\<open>goto backtrack\<close> on a false unit, \<open>False\<close> the normal exit of the loop.\<close>

function propagate :: "Solver \<Rightarrow> fault + (bool \<times> Solver)" where
  "propagate solver =
     (if \<not> n_units solver > 0 then Inr (False, solver)
      else
        let solver1 = solver\<lparr>n_units := n_units solver - 1\<rparr> in
        if \<not> unat (n_units solver1) < length (unit_stack solver1) then Inl Out_Of_Bounds
        else
          let unit = unit_stack solver1 ! unat (n_units solver1) in
          if \<not> unat unit < length (lits solver1) then Inl Out_Of_Bounds
          else if \<not> fixed (lits solver1 ! unat unit) then
            (if \<not> unat (n_assigned solver1) < length (assigned_trail solver1)
             then Inl Out_Of_Bounds
             else
               (case make_assignment
                       (solver1\<lparr>t_unit_props := t_unit_props solver1 + 1,
                                assigned_trail :=
                                  (assigned_trail solver1)[unat (n_assigned solver1) := unit],
                                n_assigned := n_assigned solver1 + 1\<rparr>) unit of
                  Inl e \<Rightarrow> Inl e
                | Inr solver2 \<Rightarrow> propagate solver2))
          else if \<not> assigned (lits solver1 ! unat unit) then
            Inr (True, solver1\<lparr>n_units := 0\<rparr>)
          else propagate solver1)"
  by pat_completeness auto

lemma unat_minus_one_less:
  fixes w :: u32
  shows "0 < w \<Longrightarrow> unat (w - 1) < unat w"
  by (simp add: unat_minus_one word_neq_0_conv [symmetric] unat_gt_0)

termination propagate
proof (relation "measures [\<lambda>s. unfixed_count (lits s), \<lambda>s. unat (n_units s)]")
  show "wf (measures [\<lambda>s. unfixed_count (lits s), \<lambda>s. unat (n_units s)])" by simp
next
  fix solver solver1 unit x2
  assume "make_assignment
            (solver1\<lparr>t_unit_props := t_unit_props solver1 + 1,
                     assigned_trail := (assigned_trail solver1)[unat (n_assigned solver1) := unit],
                     n_assigned := n_assigned solver1 + 1\<rparr>) unit = Inr x2"
    and "solver1 = solver\<lparr>n_units := n_units solver - 1\<rparr>"
  then show "(x2, solver) \<in> measures [\<lambda>s. unfixed_count (lits s), \<lambda>s. unat (n_units s)]"
    using make_assignment_unfixed by fastforce
next
  fix solver solver1 unit
  assume "\<not> \<not> 0 < n_units solver" and "solver1 = solver\<lparr>n_units := n_units solver - 1\<rparr>"
  then show "(solver1, solver) \<in> measures [\<lambda>s. unfixed_count (lits s), \<lambda>s. unat (n_units s)]"
    by (simp add: unat_minus_one_less)
qed

declare propagate.simps [simp del]

lemma undo_true_assignment_n_assigned:
  "undo_true_assignment s ci = Inr s' \<Longrightarrow> n_assigned s' = n_assigned s"
  by (auto simp: undo_true_assignment_def Let_def split: if_splits)

lemma undo_false_assignment_n_assigned:
  "undo_false_assignment s ci = Inr s' \<Longrightarrow> n_assigned s' = n_assigned s"
  by (auto simp: undo_false_assignment_def Let_def split: if_splits)

lemma undo_assignment_n_assigned:
  assumes "undo_assignment s lit = Inr s'"
  shows "n_assigned s' = n_assigned s"
proof -
  from assms obtain s1 s2 where
    a: "for_each undo_true_assignment (cont_clauses (lits s ! unat lit)) s = Inr s1"
    and b: "for_each undo_false_assignment (cont_clauses (lits s ! unat (negate lit))) s1 = Inr s2"
    and c: "n_assigned s' = n_assigned s2"
    by (auto simp: undo_assignment_def Let_def split: if_splits sum.splits)
  have "n_assigned s1 = n_assigned s"
    by (rule for_each_preserves [OF a, where P = "\<lambda>t. n_assigned t = n_assigned s"])
       (auto dest: undo_true_assignment_n_assigned)
  then have "n_assigned s2 = n_assigned s"
    by (rule for_each_preserves [OF b, where P = "\<lambda>t. n_assigned t = n_assigned s"])
       (auto dest: undo_false_assignment_n_assigned)
  with c show ?thesis by simp
qed

text \<open>The block at the label \<^verbatim>\<open>backtrack:\<close> of \<^verbatim>\<open>try_assignment\<close>: the loop
  \<^verbatim>\<open>while (solver->n_assigned > prev_n_assigned)\<close> and the \<^verbatim>\<open>assert\<close> after it.\<close>

function backtrack :: "Solver \<Rightarrow> u32 \<Rightarrow> fault + Solver" where
  "backtrack solver prev_n_assigned =
     (if \<not> n_assigned solver > prev_n_assigned then
        (if n_assigned solver = prev_n_assigned then Inr solver else Inl Assertion_Failed)
      else
        let solver1 = solver\<lparr>n_assigned := n_assigned solver - 1\<rparr> in
        if \<not> unat (n_assigned solver1) < length (assigned_trail solver1) then Inl Out_Of_Bounds
        else
          (case undo_assignment solver1
                  (assigned_trail solver1 ! unat (n_assigned solver1)) of
             Inl e \<Rightarrow> Inl e
           | Inr solver2 \<Rightarrow> backtrack solver2 prev_n_assigned))"
  by pat_completeness auto

lemma unat_minus_one_less':
  fixes w v :: u32
  shows "v < w \<Longrightarrow> unat (w - 1) < unat w"
  using le_less_trans [of 0 v w] by (simp add: unat_minus_one_less)

termination backtrack
proof (relation "measure (\<lambda>(s, p). unat (n_assigned s))")
  show "wf (measure (\<lambda>(s, p). unat (n_assigned s)))" by simp
next
  fix solver :: Solver and prev_n_assigned solver1 x2
  assume "\<not> \<not> prev_n_assigned < n_assigned solver"
    and "solver1 = solver\<lparr>n_assigned := n_assigned solver - 1\<rparr>"
    and "undo_assignment solver1 (assigned_trail solver1 ! unat (n_assigned solver1)) = Inr x2"
  then show "((x2, prev_n_assigned), solver, prev_n_assigned)
      \<in> measure (\<lambda>(s, p). unat (n_assigned s))"
    using undo_assignment_n_assigned [of solver1 _ x2] unat_minus_one_less' [of prev_n_assigned]
    by simp
qed

declare backtrack.simps [simp del]

text \<open>\<^verbatim>\<open>search_assignments\<close> and \<^verbatim>\<open>try_assignment\<close> call each other. The first
  argument bounds the depth of the recursion: each call of \<^verbatim>\<open>search_assignments\<close>
  uses one unit, and none left is the fault \<open>Out_Of_Fuel\<close>.\<close>

fun search_assignments :: "nat \<Rightarrow> Solver \<Rightarrow> fault + (Solution \<times> Solver)"
  and try_assignment :: "nat \<Rightarrow> Solver \<Rightarrow> Literal \<Rightarrow> fault + (Solution \<times> Solver)" where
  "search_assignments 0 solver = Inl Out_Of_Fuel"
| "search_assignments (Suc fuel) solver =
     (if any_contradiction solver then Inr (SOLUTION_UNSATISFIABLE, solver)
      else if all_satisfied solver then Inr (SOLUTION_SATISFIABLE, solver)
      else
        (case choose_branch solver of
           Inl e \<Rightarrow> Inl e
         | Inr (branch, solver1) \<Rightarrow>
             (case try_assignment fuel solver1 branch of
                Inl e \<Rightarrow> Inl e
              | Inr (solution, solver2) \<Rightarrow>
                  if solution \<noteq> SOLUTION_UNSATISFIABLE then Inr (solution, solver2)
                  else
                    (case try_assignment fuel solver2 (negate branch) of
                       Inl e \<Rightarrow> Inl e
                     | Inr (solution', solver3) \<Rightarrow>
                         if solution' \<noteq> SOLUTION_UNSATISFIABLE then Inr (solution', solver3)
                         else Inr (SOLUTION_UNSATISFIABLE, solver3)))))"
| "try_assignment fuel solver branch =
     (let prev_n_assigned = n_assigned solver;
          solver1 = solver\<lparr>t_branches := t_branches solver + 1\<rparr>
      in
        if \<not> unat (n_assigned solver1) < length (assigned_trail solver1) then Inl Out_Of_Bounds
        else
          (case make_assignment
                  (solver1\<lparr>assigned_trail :=
                             (assigned_trail solver1)[unat (n_assigned solver1) := branch],
                           n_assigned := n_assigned solver1 + 1\<rparr>) branch of
             Inl e \<Rightarrow> Inl e
           | Inr solver2 \<Rightarrow>
               (case propagate solver2 of
                  Inl e \<Rightarrow> Inl e
                | Inr (True, solver3) \<Rightarrow>
                    (case backtrack solver3 prev_n_assigned of
                       Inl e \<Rightarrow> Inl e
                     | Inr solver4 \<Rightarrow> Inr (SOLUTION_UNSATISFIABLE, solver4))
                | Inr (False, solver3) \<Rightarrow>
                    (case search_assignments fuel solver3 of
                       Inl e \<Rightarrow> Inl e
                     | Inr (solution, solver4) \<Rightarrow>
                         if solution = SOLUTION_UNSATISFIABLE then
                           (case backtrack solver4 prev_n_assigned of
                              Inl e \<Rightarrow> Inl e
                            | Inr solver5 \<Rightarrow> Inr (solution, solver5))
                         else Inr (solution, solver4)))))"

declare try_assignment.simps [simp del]

section \<open>Loading a problem\<close>

text \<open>Step 3 of \<^verbatim>\<open>read_problem\<close>: clause \<open>i\<close> receives each integer read before its
  terminating \<^verbatim>\<open>0\<close>, through \<^verbatim>\<open>lit_from_int\<close> and \<^verbatim>\<open>add_literal_to_clause\<close>. The
  input is the list of clauses, each the list of its integers without the \<^verbatim>\<open>0\<close>.\<close>

definition add_repr :: "nat \<Rightarrow> Solver \<Rightarrow> c_int \<Rightarrow> fault + Solver" where
  "add_repr ci solver repr =
     (case lit_from_int repr of
        Inl e \<Rightarrow> Inl e
      | Inr lit \<Rightarrow> add_literal_to_clause solver ci lit)"

fun read_clauses :: "Solver \<Rightarrow> nat \<Rightarrow> c_int list list \<Rightarrow> fault + Solver" where
  "read_clauses solver i [] = Inr solver"
| "read_clauses solver i (reprs # rest) =
     (case for_each (add_repr i) reprs solver of
        Inl e \<Rightarrow> Inl e
      | Inr solver' \<Rightarrow> read_clauses solver' (Suc i) rest)"

text \<open>A fresh solver for \<open>num_vars\<close> variables, populated with the clauses \<open>cls\<close>; the
  header's clause count is the number of clauses read.\<close>

definition load_problem :: "u32 \<Rightarrow> c_int list list \<Rightarrow> fault + Solver" where
  "load_problem num_vars cls =
     (case create_solver num_vars (of_nat (length cls)) of
        Inl e \<Rightarrow> Inl e
      | Inr solver \<Rightarrow> read_clauses solver 0 cls)"

section \<open>Example states\<close>

text \<open>The formula \<open>x1 \<and> \<not>x1\<close> (\<^verbatim>\<open>p cnf 1 2\<close>, clauses \<^verbatim>\<open>1 0\<close> and \<^verbatim>\<open>-1 0\<close>): the
  loaded solver, the state after \<^verbatim>\<open>choose_branch\<close>, the state with which the
  recursive search is entered once \<open>x1\<close> is assigned, and the state at the end.\<close>

definition contradiction_loaded :: Solver where
  "contradiction_loaded =
     \<lparr>n_vars = 1, n_clauses = 2,
      lits =
        [\<lparr>fixed = False, assigned = False, score = 0, cont_clauses = [0]\<rparr>,
         \<lparr>fixed = False, assigned = False, score = 0, cont_clauses = [1]\<rparr>],
      clauses =
        [\<lparr>n_lits = 1, clause_lits = [0], n_assigned_true = 0,
          n_assigned_false = 0, n_free_lits = 1\<rparr>,
         \<lparr>n_lits = 1, clause_lits = [1], n_assigned_true = 0,
          n_assigned_false = 0, n_free_lits = 1\<rparr>],
      n_sat_clauses = 0, n_unsat_clauses = 0, n_units = 0, n_assigned = 0,
      unit_stack = [0, 0, 0, 0], assigned_trail = [0, 0], t_branches = 0,
      t_unit_props = 0\<rparr>"

definition contradiction_scored :: Solver where
  "contradiction_scored =
     contradiction_loaded\<lparr>lits :=
        [\<lparr>fixed = False, assigned = False, score = 1, cont_clauses = [0]\<rparr>,
         \<lparr>fixed = False, assigned = False, score = 1, cont_clauses = [1]\<rparr>]\<rparr>"

definition contradiction_inner :: Solver where
  "contradiction_inner =
     \<lparr>n_vars = 1, n_clauses = 2,
      lits =
        [\<lparr>fixed = True, assigned = True, score = 1, cont_clauses = [0]\<rparr>,
         \<lparr>fixed = True, assigned = False, score = 1, cont_clauses = [1]\<rparr>],
      clauses =
        [\<lparr>n_lits = 1, clause_lits = [0], n_assigned_true = 1,
          n_assigned_false = 0, n_free_lits = 0\<rparr>,
         \<lparr>n_lits = 1, clause_lits = [1], n_assigned_true = 0,
          n_assigned_false = 1, n_free_lits = 0\<rparr>],
      n_sat_clauses = 1, n_unsat_clauses = 1, n_units = 0, n_assigned = 1,
      unit_stack = [0, 0, 0, 0], assigned_trail = [0, 0], t_branches = 1,
      t_unit_props = 0\<rparr>"

definition contradiction_final :: Solver where
  "contradiction_final =
     \<lparr>n_vars = 1, n_clauses = 2,
      lits =
        [\<lparr>fixed = False, assigned = False, score = 1, cont_clauses = [0]\<rparr>,
         \<lparr>fixed = False, assigned = True, score = 1, cont_clauses = [1]\<rparr>],
      clauses =
        [\<lparr>n_lits = 1, clause_lits = [0], n_assigned_true = 0,
          n_assigned_false = 0, n_free_lits = 1\<rparr>,
         \<lparr>n_lits = 1, clause_lits = [1], n_assigned_true = 0,
          n_assigned_false = 0, n_free_lits = 1\<rparr>],
      n_sat_clauses = 0, n_unsat_clauses = 0, n_units = 0, n_assigned = 0,
      unit_stack = [0, 0, 0, 0], assigned_trail = [1, 0], t_branches = 2,
      t_unit_props = 0\<rparr>"

text \<open>The clause \<open>x1 \<or> x2\<close> at the moment \<^verbatim>\<open>make_assignment\<close> has marked \<open>\<not>x1\<close> true
  and reaches the clause in its second loop.\<close>

definition unit_example :: Solver where
  "unit_example =
     \<lparr>n_vars = 2, n_clauses = 1,
      lits =
        [\<lparr>fixed = True, assigned = False, score = 0, cont_clauses = [0]\<rparr>,
         \<lparr>fixed = True, assigned = True, score = 0, cont_clauses = []\<rparr>,
         \<lparr>fixed = False, assigned = False, score = 0, cont_clauses = [0]\<rparr>,
         \<lparr>fixed = False, assigned = False, score = 0, cont_clauses = []\<rparr>],
      clauses =
        [\<lparr>n_lits = 2, clause_lits = [0, 2], n_assigned_true = 0,
          n_assigned_false = 0, n_free_lits = 2\<rparr>],
      n_sat_clauses = 0, n_unsat_clauses = 0, n_units = 0, n_assigned = 1,
      unit_stack = [0, 0, 0, 0, 0], assigned_trail = [1, 0, 0, 0],
      t_branches = 1, t_unit_props = 0\<rparr>"

text \<open>One variable and one empty clause (\<^verbatim>\<open>p cnf 1 1\<close>, clause \<^verbatim>\<open>0\<close>): the loaded
  solver, and the state once \<open>x1\<close> is assigned.\<close>

definition empty_clause_loaded :: Solver where
  "empty_clause_loaded =
     \<lparr>n_vars = 1, n_clauses = 1,
      lits =
        [\<lparr>fixed = False, assigned = False, score = 0, cont_clauses = []\<rparr>,
         \<lparr>fixed = False, assigned = False, score = 0, cont_clauses = []\<rparr>],
      clauses =
        [\<lparr>n_lits = 0, clause_lits = [], n_assigned_true = 0,
          n_assigned_false = 0, n_free_lits = 0\<rparr>],
      n_sat_clauses = 0, n_unsat_clauses = 0, n_units = 0, n_assigned = 0,
      unit_stack = [0, 0, 0], assigned_trail = [0, 0],
      t_branches = 0, t_unit_props = 0\<rparr>"

definition empty_clause_inner :: Solver where
  "empty_clause_inner =
     \<lparr>n_vars = 1, n_clauses = 1,
      lits =
        [\<lparr>fixed = True, assigned = True, score = 0, cont_clauses = []\<rparr>,
         \<lparr>fixed = True, assigned = False, score = 0, cont_clauses = []\<rparr>],
      clauses =
        [\<lparr>n_lits = 0, clause_lits = [], n_assigned_true = 0,
          n_assigned_false = 0, n_free_lits = 0\<rparr>],
      n_sat_clauses = 0, n_unsat_clauses = 0, n_units = 0, n_assigned = 1,
      unit_stack = [0, 0, 0], assigned_trail = [0, 0],
      t_branches = 1, t_unit_props = 0\<rparr>"

text \<open>The chain \<open>(\<not>x1 \<or> x2) \<and> (\<not>x2 \<or> x3) \<and> \<not>x3\<close> (\<^verbatim>\<open>p cnf 3 3\<close>): the loaded solver and
  the state in which the search ends.\<close>

definition chain_loaded :: Solver where
  "chain_loaded =
     \<lparr>n_vars = 3, n_clauses = 3,
      lits =
        [\<lparr>fixed = False, assigned = False, score = 0, cont_clauses = []\<rparr>,
         \<lparr>fixed = False, assigned = False, score = 0, cont_clauses = [0]\<rparr>,
         \<lparr>fixed = False, assigned = False, score = 0, cont_clauses = [0]\<rparr>,
         \<lparr>fixed = False, assigned = False, score = 0, cont_clauses = [1]\<rparr>,
         \<lparr>fixed = False, assigned = False, score = 0, cont_clauses = [1]\<rparr>,
         \<lparr>fixed = False, assigned = False, score = 0, cont_clauses = [2]\<rparr>],
      clauses =
        [\<lparr>n_lits = 2, clause_lits = [1, 2], n_assigned_true = 0,
          n_assigned_false = 0, n_free_lits = 2\<rparr>,
         \<lparr>n_lits = 2, clause_lits = [3, 4], n_assigned_true = 0,
          n_assigned_false = 0, n_free_lits = 2\<rparr>,
         \<lparr>n_lits = 1, clause_lits = [5], n_assigned_true = 0,
          n_assigned_false = 0, n_free_lits = 1\<rparr>],
      n_sat_clauses = 0, n_unsat_clauses = 0, n_units = 0, n_assigned = 0,
      unit_stack = [0, 0, 0, 0, 0, 0, 0, 0, 0],
      assigned_trail = [0, 0, 0, 0, 0, 0], t_branches = 0, t_unit_props = 0\<rparr>"

definition chain_final :: Solver where
  "chain_final =
     \<lparr>n_vars = 3, n_clauses = 3,
      lits =
        [\<lparr>fixed = True, assigned = False, score = 0, cont_clauses = []\<rparr>,
         \<lparr>fixed = True, assigned = True, score = 0, cont_clauses = [0]\<rparr>,
         \<lparr>fixed = True, assigned = False, score = 0, cont_clauses = [0]\<rparr>,
         \<lparr>fixed = True, assigned = True, score = 0, cont_clauses = [1]\<rparr>,
         \<lparr>fixed = True, assigned = False, score = 0, cont_clauses = [1]\<rparr>,
         \<lparr>fixed = True, assigned = True, score = 1, cont_clauses = [2]\<rparr>],
      clauses =
        [\<lparr>n_lits = 2, clause_lits = [1, 2], n_assigned_true = 1,
          n_assigned_false = 1, n_free_lits = 0\<rparr>,
         \<lparr>n_lits = 2, clause_lits = [3, 4], n_assigned_true = 1,
          n_assigned_false = 1, n_free_lits = 0\<rparr>,
         \<lparr>n_lits = 1, clause_lits = [5], n_assigned_true = 1,
          n_assigned_false = 0, n_free_lits = 0\<rparr>],
      n_sat_clauses = 3, n_unsat_clauses = 0, n_units = 0, n_assigned = 3,
      unit_stack = [1, 0, 0, 0, 0, 0, 0, 0, 0],
      assigned_trail = [3, 1, 5, 0, 0, 0], t_branches = 3, t_unit_props = 2\<rparr>"

section \<open>The literal encoding is a bijection\<close>

text \<open>A 32-bit \<^verbatim>\<open>int\<close> read in two's complement, in terms of its unsigned value.\<close>

lemma sint_u32:
  fixes w :: u32
  shows "sint w = (if uint w < 2147483648 then uint w else uint w - 4294967296)"
proof -
  have b: "uint w < 4294967296" "0 \<le> uint w" using unsigned_less [of w, where ?'a = int] by simp_all
  have "sint w = (uint w + 2147483648) mod 4294967296 - 2147483648"
    by (simp add: sint_uint signed_take_bit_eq_take_bit_shift take_bit_eq_mod)
  also have "\<dots> = (if uint w < 2147483648 then uint w else uint w - 4294967296)"
  proof (cases "uint w < 2147483648")
    case True
    then have "(uint w + 2147483648) mod 4294967296 = uint w + 2147483648"
      using b by (intro mod_pos_pos_trivial) simp_all
    with True show ?thesis by simp
  next
    case False
    have "(uint w + 2147483648) mod 4294967296
            = ((uint w - 2147483648) + 4294967296) mod 4294967296"
      by (simp add: add.commute)
    also have "\<dots> = (uint w - 2147483648) mod 4294967296"
      by (rule mod_add_self2)
    also have "\<dots> = uint w - 2147483648"
      using False b by (intro mod_pos_pos_trivial) simp_all
    finally show ?thesis using False by simp
  qed
  finally show ?thesis .
qed

lemma sless_0_u32:
  fixes r :: u32
  shows "0 <s r \<longleftrightarrow> r \<noteq> 0 \<and> unat r < 2147483648"
proof -
  have "uint r = int (unat r)" by simp
  moreover have "r \<noteq> 0 \<longleftrightarrow> 0 < unat r" by (simp add: unat_gt_0)
  ultimately show ?thesis
    unfolding word_sless_alt sint_u32 sint_0
    using unsigned_less [of r, where ?'a = nat]
    by (auto simp del: of_nat_unat)
qed

lemma unat_double:
  fixes x :: u32
  assumes "unat x < 2147483648"
  shows "unat (push_bit 1 x :: u32) = 2 * unat x"
  using assms by (simp add: push_bit_eq_mult unat_word_ariths)

lemma unat_double_or_1:
  fixes x :: u32
  assumes "unat x < 2147483648"
  shows "unat (push_bit 1 x OR 1 :: u32) = 2 * unat x + 1"
proof -
  have "(push_bit 1 x OR 1 :: u32) = push_bit 1 x + 1"
    by (simp add: or_one_eq push_bit_eq_mult)
  then show ?thesis
    using assms unat_double [OF assms] by (simp add: unat_word_ariths)
qed

lemma drop_bit_double:
  fixes x :: u32
  assumes "unat x < 2147483648"
  shows "drop_bit 1 (push_bit 1 x :: u32) = x" and "drop_bit 1 (push_bit 1 x OR 1 :: u32) = x"
proof -
  show "drop_bit 1 (push_bit 1 x :: u32) = x"
    unfolding word_unat_eq_iff unat_drop_bit_eq unat_double [OF assms]
    by (simp add: drop_bit_eq_div)
  show "drop_bit 1 (push_bit 1 x OR 1 :: u32) = x"
    unfolding word_unat_eq_iff unat_drop_bit_eq unat_double_or_1 [OF assms]
    by (simp add: drop_bit_eq_div)
qed

lemma low_bit_double:
  fixes x :: u32
  shows "push_bit 1 x AND 1 = (0 :: u32)" and "(push_bit 1 x OR 1) AND 1 = (1 :: u32)"
  by (simp_all add: and_one_eq or_one_eq push_bit_eq_mult mod_2_eq_odd)

lemma unat_pred_pos: fixes r :: u32
  assumes "0 <s r" shows "unat (r - 1) < 2147483648"
proof -
  from assms have "r \<noteq> 0" "unat r < 2147483648" by (simp_all add: sless_0_u32)
  then show ?thesis by (simp add: unat_minus_one)
qed

lemma unat_pred_neg: fixes r :: u32
  assumes "\<not> 0 <s r" "r \<noteq> 0" shows "unat (- r - 1) < 2147483648"
proof -
  from assms have a: "2147483648 \<le> unat r" by (simp add: sless_0_u32)
  have b: "unat r < 4294967296" using unsigned_less [of r, where ?'a = nat] by simp
  have "- r \<noteq> 0" using assms by simp
  then have "unat (- r - 1) = unat (- r) - 1" by (simp add: unat_minus_one)
  also have "unat (- r) = 4294967296 - unat r"
    using assms(2) unat_sub_if_size [of 0 r] by (simp add: word_size unat_eq_0)
  finally show ?thesis using a b by simp
qed


text \<open>
  Claim C9. For every nonzero integer \<open>n\<close>, \<^verbatim>\<open>int_from_lit(lit_from_int(n)) == n\<close>:
  a positive \<open>n\<close> goes to the even code \<^verbatim>\<open>(n - 1) << 1\<close>, a negative one to the odd
  code \<^verbatim>\<open>((-n - 1) << 1) | 1\<close>, and \<^verbatim>\<open>int_from_lit\<close> maps the code back to \<open>n\<close>.
  The statement covers every nonzero 32-bit \<open>n\<close>, so every \<open>n\<close> whose absolute value
  is a variable of the solver.
\<close>

theorem int_from_lit_lit_from_int:
  assumes "repr \<noteq> 0"
  shows "\<exists>lit. lit_from_int repr = Inr lit \<and> int_from_lit lit = repr \<and>
           lit = (if 0 <s repr then push_bit 1 (repr - 1) else push_bit 1 (- repr - 1) OR 1) \<and>
           lit AND 1 = (if 0 <s repr then 0 else 1)"
proof (cases "0 <s repr")
  case True
  have "int_from_lit (push_bit 1 (repr - 1)) = repr"
    using drop_bit_double(1) [OF unat_pred_pos [OF True]] low_bit_double(1) [of "repr - 1"]
    by (simp add: int_from_lit_def)
  then show ?thesis
    using True assms low_bit_double(1) [of "repr - 1"] by (simp add: lit_from_int_def)
next
  case False
  have "int_from_lit (push_bit 1 (- repr - 1) OR 1) = repr"
    using drop_bit_double(2) [OF unat_pred_neg [OF False assms]]
      low_bit_double(2) [of "- repr - 1"]
    by (simp add: int_from_lit_def)
  then show ?thesis
    using False assms low_bit_double(2) [of "- repr - 1"] by (simp add: lit_from_int_def)
qed

theorem int_from_lit_lit_from_int_witness:
  "(- 3 :: c_int) \<noteq> 0 \<and>
   (\<exists>lit. lit_from_int (- 3) = Inr lit \<and> int_from_lit lit = - 3 \<and>
      lit = (if 0 <s (- 3 :: c_int) then push_bit 1 (- 3 - 1) else push_bit 1 (- (- 3) - 1) OR 1) \<and>
      lit AND 1 = (if 0 <s (- 3 :: c_int) then 0 else 1))"
proof -
  have h: "(- 3 :: c_int) \<noteq> 0" by simp
  show ?thesis
    by (rule conjI [OF h int_from_lit_lit_from_int [OF h]])
qed

section \<open>The false-assignment primitive\<close>

lemma get_unit_scan_find:
  assumes "\<forall>l \<in> set xs. unat l < length ls"
  shows "get_unit_scan ls xs =
           Inr (case find (\<lambda>l. \<not> fixed (ls ! unat l)) xs of Some l \<Rightarrow> l | None \<Rightarrow> - 1)"
  using assms by (induction xs) auto

text \<open>
  Claim C5. A call \<^verbatim>\<open>add_false_assignment(solver, c)\<close> with \<^verbatim>\<open>c.n_free_lits > 0\<close>
  (on a clause whose literals index \<^verbatim>\<open>solver->lits\<close>, with room on the unit stack)
  returns, and: \<^verbatim>\<open>n_unsat_clauses\<close> is incremented exactly when the clause had
  \<^verbatim>\<open>n_assigned_true == 0\<close> and \<^verbatim>\<open>n_free_lits == 1\<close> before;
  \<^verbatim>\<open>n_assigned_false\<close> is incremented and \<^verbatim>\<open>n_free_lits\<close> decremented; and the unit
  literal of the clause (its first literal that is not fixed) is pushed onto
  \<^verbatim>\<open>unit_stack\<close>, incrementing \<^verbatim>\<open>n_units\<close>, exactly when after the decrement the
  clause has \<^verbatim>\<open>n_assigned_true == 0\<close> and \<^verbatim>\<open>n_free_lits == 1\<close>.
\<close>

theorem add_false_assignment_effect:
  assumes "ci < length (clauses s)"
    and "0 < n_free_lits (clauses s ! ci)"
    and "\<forall>l \<in> set (clause_lits (clauses s ! ci)). unat l < length (lits s)"
    and "unat (n_units s) < length (unit_stack s)"
  shows "\<exists>s'. add_false_assignment s ci = Inr s' \<and>
      n_unsat_clauses s' =
        (if n_assigned_true (clauses s ! ci) = 0 \<and> n_free_lits (clauses s ! ci) = 1
         then n_unsat_clauses s + 1 else n_unsat_clauses s) \<and>
      n_assigned_false (clauses s' ! ci) = n_assigned_false (clauses s ! ci) + 1 \<and>
      n_free_lits (clauses s' ! ci) = n_free_lits (clauses s ! ci) - 1 \<and>
      n_assigned_true (clauses s' ! ci) = n_assigned_true (clauses s ! ci) \<and>
      (if n_assigned_true (clauses s' ! ci) = 0 \<and> n_free_lits (clauses s' ! ci) = 1
       then n_units s' = n_units s + 1 \<and>
            unit_stack s' = (unit_stack s)[unat (n_units s) :=
              (case find (\<lambda>l. \<not> fixed (lits s ! unat l)) (clause_lits (clauses s ! ci)) of
                 Some l \<Rightarrow> l | None \<Rightarrow> - 1)]
       else n_units s' = n_units s \<and> unit_stack s' = unit_stack s)"
  using assms
  by (auto simp: add_false_assignment_def Let_def get_unit_def get_unit_scan_find)


theorem add_false_assignment_effect_witness:
  "\<exists>s'. add_false_assignment unit_example 0 = Inr s' \<and>
      n_unsat_clauses s' =
        (if n_assigned_true (clauses unit_example ! 0) = 0 \<and>
            n_free_lits (clauses unit_example ! 0) = 1
         then n_unsat_clauses unit_example + 1 else n_unsat_clauses unit_example) \<and>
      n_assigned_false (clauses s' ! 0) = n_assigned_false (clauses unit_example ! 0) + 1 \<and>
      n_free_lits (clauses s' ! 0) = n_free_lits (clauses unit_example ! 0) - 1 \<and>
      n_assigned_true (clauses s' ! 0) = n_assigned_true (clauses unit_example ! 0) \<and>
      (if n_assigned_true (clauses s' ! 0) = 0 \<and> n_free_lits (clauses s' ! 0) = 1
       then n_units s' = n_units unit_example + 1 \<and>
            unit_stack s' = (unit_stack unit_example)[unat (n_units unit_example) :=
              (case find (\<lambda>l. \<not> fixed (lits unit_example ! unat l))
                      (clause_lits (clauses unit_example ! 0)) of
                 Some l \<Rightarrow> l | None \<Rightarrow> - 1)]
       else n_units s' = n_units unit_example \<and> unit_stack s' = unit_stack unit_example)"
proof (rule add_false_assignment_effect)
  show "0 < length (clauses unit_example)" by (simp add: unit_example_def)
  show "0 < n_free_lits (clauses unit_example ! 0)" by (simp add: unit_example_def)
  show "\<forall>l \<in> set (clause_lits (clauses unit_example ! 0)). unat l < length (lits unit_example)"
    by (simp add: unit_example_def)
  show "unat (n_units unit_example) < length (unit_stack unit_example)"
    by (simp add: unit_example_def)
qed

section \<open>Frame properties\<close>

subsection \<open>What each operation leaves alone\<close>

text \<open>The part of a solver that no operation of the search changes.\<close>

definition static_part ::
  "Solver \<Rightarrow> u32 \<times> u32 \<times> Literal list list \<times> u32 list \<times> nat list list \<times> nat \<times> nat" where
  "static_part s =
     (n_vars s, n_clauses s, map clause_lits (clauses s), map n_lits (clauses s),
      map cont_clauses (lits s), length (unit_stack s), length (assigned_trail s))"

lemma static_partD:
  assumes "static_part s' = static_part s"
  shows "n_vars s' = n_vars s" "n_clauses s' = n_clauses s"
    "map clause_lits (clauses s') = map clause_lits (clauses s)"
    "map n_lits (clauses s') = map n_lits (clauses s)"
    "map cont_clauses (lits s') = map cont_clauses (lits s)"
    "length (unit_stack s') = length (unit_stack s)"
    "length (assigned_trail s') = length (assigned_trail s)"
    "length (clauses s') = length (clauses s)"
    "length (lits s') = length (lits s)"
  using assms map_eq_imp_length_eq [of clause_lits "clauses s'" clause_lits "clauses s"]
    map_eq_imp_length_eq [of cont_clauses "lits s'" cont_clauses "lits s"]
  by (simp_all add: static_part_def)

lemma for_each_static:
  assumes "for_each body xs s = Inr s'"
    and "\<And>t x t'. body t x = Inr t' \<Longrightarrow> static_part t' = static_part t"
  shows "static_part s' = static_part s"
  by (rule for_each_preserves [OF assms(1), where P = "\<lambda>t. static_part t = static_part s"])
     (simp_all add: assms(2))

lemma map_update_same: "f y = f (xs ! i) \<Longrightarrow> map f (xs[i := y]) = map f xs"
  by (induction xs arbitrary: i) (auto split: nat.splits)

lemma add_true_assignment_static:
  "add_true_assignment s ci = Inr s' \<Longrightarrow> static_part s' = static_part s"
  by (auto simp: add_true_assignment_def Let_def static_part_def map_update_same split: if_splits)

lemma add_false_assignment_static:
  "add_false_assignment s ci = Inr s' \<Longrightarrow> static_part s' = static_part s"
  by (auto simp: add_false_assignment_def Let_def static_part_def map_update_same
      split: if_splits sum.splits)

lemma undo_true_assignment_static:
  "undo_true_assignment s ci = Inr s' \<Longrightarrow> static_part s' = static_part s"
  by (auto simp: undo_true_assignment_def Let_def static_part_def map_update_same split: if_splits)

lemma undo_false_assignment_static:
  "undo_false_assignment s ci = Inr s' \<Longrightarrow> static_part s' = static_part s"
  by (auto simp: undo_false_assignment_def Let_def static_part_def map_update_same split: if_splits)

lemma make_assignment_static:
  assumes "make_assignment s lit = Inr s'"
  shows "static_part s' = static_part s"
proof -
  let ?ls1 = "(lits s)[unat lit := (lits s ! unat lit)\<lparr>fixed := True, assigned := True\<rparr>]"
  let ?ls2 = "?ls1[unat (negate lit) := (?ls1 ! unat (negate lit))\<lparr>fixed := True, assigned := False\<rparr>]"
  from assms obtain s2 where
    a: "for_each add_true_assignment (cont_clauses (?ls2 ! unat lit)) (s\<lparr>lits := ?ls2\<rparr>) = Inr s2"
    and b: "for_each add_false_assignment (cont_clauses (?ls2 ! unat (negate lit))) s2 = Inr s'"
    by (auto simp: make_assignment_def Let_def split: if_splits sum.splits)
  have "static_part (s\<lparr>lits := ?ls2\<rparr>) = static_part s"
    by (simp add: static_part_def map_update_same)
  with for_each_static [OF a add_true_assignment_static]
    for_each_static [OF b add_false_assignment_static]
  show ?thesis by simp
qed

lemma undo_assignment_static:
  assumes "undo_assignment s lit = Inr s'"
  shows "static_part s' = static_part s"
proof -
  from assms obtain s1 s2 where
    a: "for_each undo_true_assignment (cont_clauses (lits s ! unat lit)) s = Inr s1"
    and b: "for_each undo_false_assignment (cont_clauses (lits s ! unat (negate lit))) s1 = Inr s2"
    and c: "s' = s2\<lparr>lits := ((lits s2)[unat lit := (lits s2 ! unat lit)\<lparr>fixed := False\<rparr>])
          [unat (negate lit) := (((lits s2)[unat lit := (lits s2 ! unat lit)\<lparr>fixed := False\<rparr>])
              ! unat (negate lit))\<lparr>fixed := False\<rparr>]\<rparr>"
    by (auto simp: undo_assignment_def Let_def split: if_splits sum.splits)
  have "static_part s' = static_part s2"
    unfolding c by (simp add: static_part_def map_update_same)
  with for_each_static [OF a undo_true_assignment_static]
    for_each_static [OF b undo_false_assignment_static]
  show ?thesis by simp
qed

text \<open>The scorer writes the field \<^verbatim>\<open>score\<close> and nothing else.\<close>

definition unscored :: "LitState list \<Rightarrow> (bool \<times> bool \<times> nat list) list" where
  "unscored ls = map (\<lambda>l. (fixed l, assigned l, cont_clauses l)) ls"

lemma unscored_nth:
  assumes "unscored ls' = unscored ls" and "i < length ls"
  shows "fixed (ls' ! i) = fixed (ls ! i)" "assigned (ls' ! i) = assigned (ls ! i)"
    "cont_clauses (ls' ! i) = cont_clauses (ls ! i)"
proof -
  have len: "length ls' = length ls"
    using assms(1) unfolding unscored_def by (rule map_eq_imp_length_eq)
  have "unscored ls' ! i = unscored ls ! i" using assms(1) by simp
  then show "fixed (ls' ! i) = fixed (ls ! i)" "assigned (ls' ! i) = assigned (ls ! i)"
    "cont_clauses (ls' ! i) = cont_clauses (ls ! i)"
    using assms(2) len by (simp_all add: unscored_def)
qed

lemma unscored_length: "unscored ls' = unscored ls \<Longrightarrow> length ls' = length ls"
  unfolding unscored_def by (rule map_eq_imp_length_eq)

definition only_scores :: "Solver \<Rightarrow> Solver \<Rightarrow> bool" where
  "only_scores s s' \<longleftrightarrow> (\<exists>ls. s' = s\<lparr>lits := ls\<rparr> \<and> unscored ls = unscored (lits s))"

lemma only_scores_refl: "only_scores s s"
  unfolding only_scores_def by (rule exI [of _ "lits s"]) simp

lemma only_scores_trans: "only_scores s t \<Longrightarrow> only_scores t u \<Longrightarrow> only_scores s u"
  unfolding only_scores_def by auto

lemma only_scoresD:
  assumes "only_scores s s'"
  shows "n_vars s' = n_vars s" "n_clauses s' = n_clauses s" "clauses s' = clauses s"
    "n_sat_clauses s' = n_sat_clauses s" "n_unsat_clauses s' = n_unsat_clauses s"
    "n_units s' = n_units s" "n_assigned s' = n_assigned s" "unit_stack s' = unit_stack s"
    "assigned_trail s' = assigned_trail s" "t_branches s' = t_branches s"
    "t_unit_props s' = t_unit_props s" "unscored (lits s') = unscored (lits s)"
    "length (lits s') = length (lits s)"
  using assms unfolding only_scores_def by (auto dest: unscored_length)

lemma zero_score_only_scores: "zero_score s k = Inr s' \<Longrightarrow> only_scores s s'"
  unfolding only_scores_def zero_score_def
  by (auto simp: unscored_def map_update_same split: if_splits)

lemma score_clause_unscored:
  "score_clause cs l ci = Inr l' \<Longrightarrow>
     fixed l' = fixed l \<and> assigned l' = assigned l \<and> cont_clauses l' = cont_clauses l"
  by (auto simp: score_clause_def Let_def split: if_splits)

lemma score_lit_only_scores:
  assumes "score_lit s k = Inr s'"
  shows "only_scores s s'"
proof (cases "fixed (lits s ! k)")
  case True
  with assms have "s' = s"
    by (auto simp: score_lit_def Let_def split: if_splits)
  then show ?thesis by (simp add: only_scores_refl)
next
  case False
  with assms obtain l' where
    l: "for_each (score_clause (clauses s)) (cont_clauses (lits s ! k)) (lits s ! k) = Inr l'"
    and s': "s' = s\<lparr>lits := (lits s)[k := l']\<rparr>" and k: "k < length (lits s)"
    by (auto simp: score_lit_def Let_def split: if_splits sum.splits)
  have "fixed l' = fixed (lits s ! k) \<and> assigned l' = assigned (lits s ! k) \<and>
        cont_clauses l' = cont_clauses (lits s ! k)"
    by (rule for_each_preserves [OF l]) (auto dest: score_clause_unscored)
  then have "unscored ((lits s)[k := l']) = unscored (lits s)"
    unfolding unscored_def by (simp add: map_update_same)
  then show ?thesis
    unfolding s' only_scores_def by blast
qed

lemma for_each_only_scores:
  assumes "for_each body xs s = Inr s'"
    and "\<And>t x t'. body t x = Inr t' \<Longrightarrow> only_scores t t'"
  shows "only_scores s s'"
  by (rule for_each_preserves [OF assms(1), where P = "only_scores s"])
     (auto intro: only_scores_refl only_scores_trans assms(2))

lemma update_scores_only_scores:
  assumes "update_scores s = Inr s'"
  shows "only_scores s s'"
proof -
  from assms obtain s1 where
    a: "for_each zero_score [0 ..< unat (push_bit 1 (n_vars s) :: u32)] s = Inr s1"
    and b: "for_each score_lit [0 ..< unat (push_bit 1 (n_vars s1) :: u32)] s1 = Inr s'"
    by (auto simp: update_scores_def split: sum.splits)
  show ?thesis
    using for_each_only_scores [OF a zero_score_only_scores]
      for_each_only_scores [OF b score_lit_only_scores]
    by (rule only_scores_trans)
qed

lemma choose_branch_result:
  assumes "choose_branch s = Inr (b, s')"
  shows "update_scores s = Inr s'" and "choose_loop s' 0 0 0 = Inr b"
    and "n_assigned s \<noteq> n_vars s" and "n_sat_clauses s \<noteq> n_clauses s"
proof -
  from assms have g: "n_assigned s \<noteq> n_vars s" "n_sat_clauses s \<noteq> n_clauses s"
    unfolding choose_branch_def by (simp_all split: if_splits)
  show "n_assigned s \<noteq> n_vars s" "n_sat_clauses s \<noteq> n_clauses s" by (rule g)+
  obtain s1 where u: "update_scores s = Inr s1"
    using assms g unfolding choose_branch_def by (cases "update_scores s") simp_all
  obtain b1 where c: "choose_loop s1 0 0 0 = Inr b1"
    using assms g u unfolding choose_branch_def by (cases "choose_loop s1 0 0 0") simp_all
  from assms g u c have "b1 = b" "s1 = s'"
    unfolding choose_branch_def by simp_all
  with u c show "update_scores s = Inr s'" "choose_loop s' 0 0 0 = Inr b" by simp_all
qed

lemma choose_branch_only_scores:
  "choose_branch s = Inr (b, s') \<Longrightarrow> only_scores s s'"
  by (rule update_scores_only_scores) (rule choose_branch_result)

subsection \<open>The unit stack is empty around every search\<close>

text \<open>Undoing an assignment writes the literal flags, the clause counters and the two
  global counters, and nothing else.\<close>

definition undo_frame :: "Solver \<Rightarrow> Solver \<Rightarrow> bool" where
  "undo_frame s s' \<longleftrightarrow>
     n_units s' = n_units s \<and> unit_stack s' = unit_stack s \<and>
     assigned_trail s' = assigned_trail s \<and> t_branches s' = t_branches s \<and>
     t_unit_props s' = t_unit_props s \<and> n_vars s' = n_vars s \<and> n_clauses s' = n_clauses s"

lemma undo_frame_refl: "undo_frame s s"
  by (simp add: undo_frame_def)

lemma undo_frame_trans: "undo_frame s t \<Longrightarrow> undo_frame t u \<Longrightarrow> undo_frame s u"
  by (simp add: undo_frame_def)

lemma undo_frameD:
  assumes "undo_frame s s'"
  shows "n_units s' = n_units s" "unit_stack s' = unit_stack s"
    "assigned_trail s' = assigned_trail s" "t_branches s' = t_branches s"
    "t_unit_props s' = t_unit_props s" "n_vars s' = n_vars s" "n_clauses s' = n_clauses s"
  using assms by (simp_all add: undo_frame_def)

lemma for_each_rel:
  assumes "for_each body xs s = Inr s'"
    and "\<And>t. R t t" and "\<And>t u v. R t u \<Longrightarrow> R u v \<Longrightarrow> R t v"
    and "\<And>t x t'. body t x = Inr t' \<Longrightarrow> R t t'"
  shows "R s s'"
  by (rule for_each_preserves [OF assms(1), where P = "R s"])
     (auto intro: assms(2) assms(3) assms(4))

lemma undo_true_assignment_frame:
  "undo_true_assignment s ci = Inr s' \<Longrightarrow> undo_frame s s'"
  unfolding undo_true_assignment_def undo_frame_def Let_def
  by (auto split: if_splits)

lemma undo_false_assignment_frame:
  "undo_false_assignment s ci = Inr s' \<Longrightarrow> undo_frame s s'"
  unfolding undo_false_assignment_def undo_frame_def Let_def
  by (auto split: if_splits)

lemma undo_assignment_frame:
  assumes "undo_assignment s lit = Inr s'"
  shows "undo_frame s s'"
proof -
  from assms obtain s1 s2 where
    a: "for_each undo_true_assignment (cont_clauses (lits s ! unat lit)) s = Inr s1"
    and b: "for_each undo_false_assignment (cont_clauses (lits s ! unat (negate lit))) s1 = Inr s2"
    and c: "s' = s2\<lparr>lits := ((lits s2)[unat lit := (lits s2 ! unat lit)\<lparr>fixed := False\<rparr>])
          [unat (negate lit) := (((lits s2)[unat lit := (lits s2 ! unat lit)\<lparr>fixed := False\<rparr>])
              ! unat (negate lit))\<lparr>fixed := False\<rparr>]\<rparr>"
    by (auto simp: undo_assignment_def Let_def split: if_splits sum.splits)
  have 1: "undo_frame s s1"
    by (rule for_each_rel [OF a undo_frame_refl undo_frame_trans undo_true_assignment_frame])
  have 2: "undo_frame s1 s2"
    by (rule for_each_rel [OF b undo_frame_refl undo_frame_trans undo_false_assignment_frame])
  have 3: "undo_frame s2 s'"
    unfolding c undo_frame_def by simp
  from 1 2 3 show ?thesis by (blast intro: undo_frame_trans)
qed

lemma backtrack_frame:
  "backtrack s prev = Inr s' \<Longrightarrow> undo_frame s s'"
proof (induction s prev rule: backtrack.induct)
  case (1 solver prev_n_assigned)
  show ?case
  proof (cases "n_assigned solver > prev_n_assigned")
    case False
    with "1.prems" have "s' = solver"
      by (simp add: backtrack.simps split: if_splits)
    then show ?thesis by (simp add: undo_frame_refl)
  next
    case True
    let ?s1 = "solver\<lparr>n_assigned := n_assigned solver - 1\<rparr>"
    from True "1.prems" obtain s2 where
      r: "unat (n_assigned ?s1) < length (assigned_trail ?s1)"
      and u: "undo_assignment ?s1 (assigned_trail ?s1 ! unat (n_assigned ?s1)) = Inr s2"
      and b: "backtrack s2 prev_n_assigned = Inr s'"
      by (simp add: backtrack.simps [of solver] Let_def split: if_splits sum.splits)
    have "undo_frame solver ?s1"
      unfolding undo_frame_def by simp
    moreover have "undo_frame ?s1 s2" by (rule undo_assignment_frame [OF u])
    moreover have "undo_frame s2 s'"
      using "1.IH" [OF _ refl _ u b] True r by simp
    ultimately show ?thesis by (blast intro: undo_frame_trans)
  qed
qed

lemma backtrack_n_assigned:
  "backtrack s prev = Inr s' \<Longrightarrow> n_assigned s' = prev"
proof (induction s prev rule: backtrack.induct)
  case (1 solver prev_n_assigned)
  show ?case
  proof (cases "n_assigned solver > prev_n_assigned")
    case False
    with "1.prems" show ?thesis
      by (simp add: backtrack.simps split: if_splits)
  next
    case True
    let ?s1 = "solver\<lparr>n_assigned := n_assigned solver - 1\<rparr>"
    from True "1.prems" obtain s2 where
      r: "unat (n_assigned ?s1) < length (assigned_trail ?s1)"
      and u: "undo_assignment ?s1 (assigned_trail ?s1 ! unat (n_assigned ?s1)) = Inr s2"
      and b: "backtrack s2 prev_n_assigned = Inr s'"
      by (simp add: backtrack.simps [of solver] Let_def split: if_splits sum.splits)
    show ?thesis
      using "1.IH" [OF _ refl _ u b] True r by simp
  qed
qed

lemma propagate_n_units:
  "propagate s = Inr (conflict, s') \<Longrightarrow> n_units s' = 0"
proof (induction s rule: propagate.induct)
  case (1 solver)
  show ?case
  proof (cases "n_units solver > 0")
    case False
    with "1.prems" show ?thesis
      by (simp add: propagate.simps word_gt_0)
  next
    case True
    let ?s1 = "solver\<lparr>n_units := n_units solver - 1\<rparr>"
    let ?u = "unit_stack ?s1 ! unat (n_units ?s1)"
    from True "1.prems" have r: "unat (n_units ?s1) < length (unit_stack ?s1)"
      "unat ?u < length (lits ?s1)"
      by (simp_all add: propagate.simps [of solver] Let_def split: if_splits)
    show ?thesis
    proof (cases "fixed (lits ?s1 ! unat ?u)")
      case fx: True
      show ?thesis
      proof (cases "assigned (lits ?s1 ! unat ?u)")
        case True
        with fx \<open>n_units solver > 0\<close> r "1.prems" have "propagate ?s1 = Inr (conflict, s')"
          by (simp add: propagate.simps [of solver] Let_def)
        then show ?thesis
          using "1.IH"(2) [OF _ refl _ refl] fx True \<open>n_units solver > 0\<close> r by simp
      next
        case False
        with fx \<open>n_units solver > 0\<close> r "1.prems" show ?thesis
          by (simp add: propagate.simps [of solver] Let_def) auto
      qed
    next
      case False
      let ?s2 = "?s1\<lparr>t_unit_props := t_unit_props ?s1 + 1,
                      assigned_trail := (assigned_trail ?s1)[unat (n_assigned ?s1) := ?u],
                      n_assigned := n_assigned ?s1 + 1\<rparr>"
      from False True r "1.prems" obtain s3 where
        t: "unat (n_assigned ?s1) < length (assigned_trail ?s1)"
        and m: "make_assignment ?s2 ?u = Inr s3" and p: "propagate s3 = Inr (conflict, s')"
        by (simp add: propagate.simps [of solver] Let_def split: if_splits sum.splits)
      show ?thesis
        using "1.IH"(1) [OF _ refl _ refl _ _ _ m p] False True r t by simp
    qed
  qed
qed

subsection \<open>Case analysis and induction over the results of the search functions\<close>

text \<open>\<^verbatim>\<open>solver->assigned[solver->n_assigned++] = lit\<close>, as \<^verbatim>\<open>try_assignment\<close> does twice.\<close>

definition push_assigned :: "Solver \<Rightarrow> Literal \<Rightarrow> Solver" where
  "push_assigned s lit =
     s\<lparr>assigned_trail := (assigned_trail s)[unat (n_assigned s) := lit],
       n_assigned := n_assigned s + 1\<rparr>"

definition top_unit :: "Solver \<Rightarrow> Literal" where
  "top_unit s = unit_stack s ! unat (n_units s - 1)"

definition pop_unit :: "Solver \<Rightarrow> Solver" where
  "pop_unit s = s\<lparr>n_units := n_units s - 1\<rparr>"

lemma propagate_unfold:
  "propagate s =
     (if n_units s = 0 then Inr (False, s)
      else if \<not> unat (n_units s - 1) < length (unit_stack s) then Inl Out_Of_Bounds
      else if \<not> unat (top_unit s) < length (lits s) then Inl Out_Of_Bounds
      else if \<not> fixed (lits s ! unat (top_unit s)) then
        (if \<not> unat (n_assigned s) < length (assigned_trail s) then Inl Out_Of_Bounds
         else
           (case make_assignment
                   (push_assigned (pop_unit s\<lparr>t_unit_props := t_unit_props s + 1\<rparr>) (top_unit s))
                   (top_unit s) of
              Inl e \<Rightarrow> Inl e
            | Inr s2 \<Rightarrow> propagate s2))
      else if \<not> assigned (lits s ! unat (top_unit s)) then Inr (True, s\<lparr>n_units := 0\<rparr>)
      else propagate (pop_unit s))"
  by (subst propagate.simps)
     (simp add: Let_def word_gt_0 top_unit_def pop_unit_def push_assigned_def)

lemma propagate_induct [consumes 1, case_names finished assign conflict skip]:
  assumes "propagate s = Inr (c, s')"
    and finished: "\<And>s. n_units s = 0 \<Longrightarrow> P s False s"
    and assign: "\<And>s s2 c s'. n_units s \<noteq> 0 \<Longrightarrow>
        unat (n_units s - 1) < length (unit_stack s) \<Longrightarrow>
        unat (top_unit s) < length (lits s) \<Longrightarrow>
        \<not> fixed (lits s ! unat (top_unit s)) \<Longrightarrow>
        unat (n_assigned s) < length (assigned_trail s) \<Longrightarrow>
        make_assignment
          (push_assigned (pop_unit s\<lparr>t_unit_props := t_unit_props s + 1\<rparr>) (top_unit s))
          (top_unit s) = Inr s2 \<Longrightarrow>
        propagate s2 = Inr (c, s') \<Longrightarrow> P s2 c s' \<Longrightarrow> P s c s'"
    and conflict: "\<And>s. n_units s \<noteq> 0 \<Longrightarrow>
        unat (n_units s - 1) < length (unit_stack s) \<Longrightarrow>
        unat (top_unit s) < length (lits s) \<Longrightarrow>
        fixed (lits s ! unat (top_unit s)) \<Longrightarrow>
        \<not> assigned (lits s ! unat (top_unit s)) \<Longrightarrow> P s True (s\<lparr>n_units := 0\<rparr>)"
    and skip: "\<And>s c s'. n_units s \<noteq> 0 \<Longrightarrow>
        unat (n_units s - 1) < length (unit_stack s) \<Longrightarrow>
        unat (top_unit s) < length (lits s) \<Longrightarrow>
        fixed (lits s ! unat (top_unit s)) \<Longrightarrow>
        assigned (lits s ! unat (top_unit s)) \<Longrightarrow>
        propagate (pop_unit s) = Inr (c, s') \<Longrightarrow> P (pop_unit s) c s' \<Longrightarrow> P s c s'"
  shows "P s c s'"
  using assms(1)
proof (induction "unfixed_count (lits s) * 4294967296 + unat (n_units s)" arbitrary: s
    rule: less_induct)
  case less
  note run = less.prems
  have bound: "\<And>w :: u32. unat w < 4294967296"
    using unsigned_less [where ?'a = nat and ?'b = 32] by simp
  show ?case
  proof (cases "n_units s = 0")
    case True
    with run have "c = False" "s' = s" by (simp_all add: propagate_unfold [of s])
    with True show ?thesis by (simp add: finished)
  next
    case nz: False
    from run nz have r: "unat (n_units s - 1) < length (unit_stack s)"
      "unat (top_unit s) < length (lits s)"
      by (simp_all add: propagate_unfold [of s] split: if_splits)
    show ?thesis
    proof (cases "fixed (lits s ! unat (top_unit s))")
      case False
      let ?t = "push_assigned (pop_unit s\<lparr>t_unit_props := t_unit_props s + 1\<rparr>) (top_unit s)"
      from run nz r False obtain s2 where
        t: "unat (n_assigned s) < length (assigned_trail s)"
        and m: "make_assignment ?t (top_unit s) = Inr s2"
        and p: "propagate s2 = Inr (c, s')"
        by (simp add: propagate_unfold [of s] split: if_splits sum.splits)
      have "lits ?t = lits s" by (simp add: push_assigned_def pop_unit_def)
      with make_assignment_unfixed [OF m]
      have "unfixed_count (lits s2) < unfixed_count (lits s)" by simp
      then have "unfixed_count (lits s2) * 4294967296 + unat (n_units s2)
          < unfixed_count (lits s) * 4294967296 + unat (n_units s)"
        using bound [of "n_units s2"] by linarith
      then have "P s2 c s'" using p by (rule less.hyps)
      then show ?thesis by (rule assign [OF nz r False t m p])
    next
      case fx: True
      show ?thesis
      proof (cases "assigned (lits s ! unat (top_unit s))")
        case False
        with run nz r fx have "c = True" "s' = s\<lparr>n_units := 0\<rparr>"
          by (simp_all add: propagate_unfold [of s])
        with conflict [OF nz r fx False] show ?thesis by simp
      next
        case True
        with run nz r fx have p: "propagate (pop_unit s) = Inr (c, s')"
          by (simp add: propagate_unfold [of s])
        have "unat (n_units (pop_unit s)) < unat (n_units s)"
          using nz by (simp add: pop_unit_def unat_minus_one_less word_gt_0)
        then have "unfixed_count (lits (pop_unit s)) * 4294967296 + unat (n_units (pop_unit s))
          < unfixed_count (lits s) * 4294967296 + unat (n_units s)"
          by (simp add: pop_unit_def)
        then have "P (pop_unit s) c s'" using p by (rule less.hyps)
        then show ?thesis by (rule skip [OF nz r fx True p])
      qed
    qed
  qed
qed

lemma backtrack_unfold:
  "backtrack s prev =
     (if \<not> prev < n_assigned s then
        (if n_assigned s = prev then Inr s else Inl Assertion_Failed)
      else if \<not> unat (n_assigned s - 1) < length (assigned_trail s) then Inl Out_Of_Bounds
      else
        (case undo_assignment (s\<lparr>n_assigned := n_assigned s - 1\<rparr>)
                (assigned_trail s ! unat (n_assigned s - 1)) of
           Inl e \<Rightarrow> Inl e
         | Inr s2 \<Rightarrow> backtrack s2 prev))"
  by (subst backtrack.simps) (simp add: Let_def)

lemma backtrack_induct [consumes 1, case_names finished undo]:
  assumes "backtrack s prev = Inr s'"
    and finished: "\<And>s. n_assigned s = prev \<Longrightarrow> P s s"
    and undo: "\<And>s s2 s'. prev < n_assigned s \<Longrightarrow>
        unat (n_assigned s - 1) < length (assigned_trail s) \<Longrightarrow>
        undo_assignment (s\<lparr>n_assigned := n_assigned s - 1\<rparr>)
          (assigned_trail s ! unat (n_assigned s - 1)) = Inr s2 \<Longrightarrow>
        backtrack s2 prev = Inr s' \<Longrightarrow> P s2 s' \<Longrightarrow> P s s'"
  shows "P s s'"
  using assms(1)
proof (induction "unat (n_assigned s)" arbitrary: s rule: less_induct)
  case less
  note run = less.prems
  show ?case
  proof (cases "prev < n_assigned s")
    case False
    with run have "n_assigned s = prev" "s' = s"
      by (simp_all add: backtrack_unfold [of s] split: if_splits)
    then show ?thesis by (simp add: finished)
  next
    case True
    with run obtain s2 where
      r: "unat (n_assigned s - 1) < length (assigned_trail s)"
      and u: "undo_assignment (s\<lparr>n_assigned := n_assigned s - 1\<rparr>)
               (assigned_trail s ! unat (n_assigned s - 1)) = Inr s2"
      and b: "backtrack s2 prev = Inr s'"
      by (simp add: backtrack_unfold [of s] split: if_splits sum.splits)
    have "n_assigned s2 = n_assigned s - 1"
      using undo_assignment_n_assigned [OF u] by simp
    then have "unat (n_assigned s2) < unat (n_assigned s)"
      using True unat_minus_one_less' [of prev "n_assigned s"] by simp
    then have "P s2 s'" using b by (rule less.hyps)
    then show ?thesis by (rule undo [OF True r u b])
  qed
qed

lemma try_assignment_unfold:
  "try_assignment fuel s branch =
     (if \<not> unat (n_assigned s) < length (assigned_trail s) then Inl Out_Of_Bounds
      else
        (case make_assignment (push_assigned (s\<lparr>t_branches := t_branches s + 1\<rparr>) branch) branch of
           Inl e \<Rightarrow> Inl e
         | Inr s2 \<Rightarrow>
             (case propagate s2 of
                Inl e \<Rightarrow> Inl e
              | Inr (True, s3) \<Rightarrow>
                  (case backtrack s3 (n_assigned s) of
                     Inl e \<Rightarrow> Inl e
                   | Inr s4 \<Rightarrow> Inr (SOLUTION_UNSATISFIABLE, s4))
              | Inr (False, s3) \<Rightarrow>
                  (case search_assignments fuel s3 of
                     Inl e \<Rightarrow> Inl e
                   | Inr (solution, s4) \<Rightarrow>
                       if solution = SOLUTION_UNSATISFIABLE then
                         (case backtrack s4 (n_assigned s) of
                            Inl e \<Rightarrow> Inl e
                          | Inr s5 \<Rightarrow> Inr (solution, s5))
                       else Inr (solution, s4)))))"
  by (subst try_assignment.simps) (simp add: Let_def push_assigned_def)

lemma try_assignment_cases [consumes 1, case_names conflict failed found]:
  assumes "try_assignment fuel s b = Inr (sol, s')"
  obtains
    (conflict) s2 s3 where "unat (n_assigned s) < length (assigned_trail s)"
      "make_assignment (push_assigned (s\<lparr>t_branches := t_branches s + 1\<rparr>) b) b = Inr s2"
      "propagate s2 = Inr (True, s3)" "backtrack s3 (n_assigned s) = Inr s'"
      "sol = SOLUTION_UNSATISFIABLE"
  | (failed) s2 s3 s4 where "unat (n_assigned s) < length (assigned_trail s)"
      "make_assignment (push_assigned (s\<lparr>t_branches := t_branches s + 1\<rparr>) b) b = Inr s2"
      "propagate s2 = Inr (False, s3)"
      "search_assignments fuel s3 = Inr (SOLUTION_UNSATISFIABLE, s4)"
      "backtrack s4 (n_assigned s) = Inr s'" "sol = SOLUTION_UNSATISFIABLE"
  | (found) s2 s3 where "unat (n_assigned s) < length (assigned_trail s)"
      "make_assignment (push_assigned (s\<lparr>t_branches := t_branches s + 1\<rparr>) b) b = Inr s2"
      "propagate s2 = Inr (False, s3)" "search_assignments fuel s3 = Inr (sol, s')"
      "sol \<noteq> SOLUTION_UNSATISFIABLE"
proof -
  from assms have r: "unat (n_assigned s) < length (assigned_trail s)"
    by (simp add: try_assignment_unfold [of fuel s] split: if_splits)
  from assms r obtain s2 where
    m: "make_assignment (push_assigned (s\<lparr>t_branches := t_branches s + 1\<rparr>) b) b = Inr s2"
    by (simp add: try_assignment_unfold [of fuel s] split: sum.splits)
  from assms r m obtain c s3 where p: "propagate s2 = Inr (c, s3)"
    by (cases "propagate s2") (auto simp: try_assignment_unfold [of fuel s])
  show thesis
  proof (cases c)
    case True
    with assms r m p have "backtrack s3 (n_assigned s) = Inr s'" "sol = SOLUTION_UNSATISFIABLE"
      by (simp_all add: try_assignment_unfold [of fuel s] split: sum.splits)
    with r m p True show thesis by (auto intro: conflict)
  next
    case False
    with assms r m p obtain sol1 s4 where s: "search_assignments fuel s3 = Inr (sol1, s4)"
      by (cases "search_assignments fuel s3") (auto simp: try_assignment_unfold [of fuel s])
    show thesis
    proof (cases "sol1 = SOLUTION_UNSATISFIABLE")
      case True
      with assms r m p False s have "backtrack s4 (n_assigned s) = Inr s'"
        "sol = SOLUTION_UNSATISFIABLE"
        by (simp_all add: try_assignment_unfold [of fuel s] split: sum.splits)
      with r m p False s True show thesis by (auto intro: failed)
    next
      case nu: False
      with assms r m p False s have "sol = sol1" "s' = s4"
        by (simp_all add: try_assignment_unfold [of fuel s])
      with r m p False s nu show thesis by (auto intro: found)
    qed
  qed
qed

lemma search_assignments_cases [consumes 1, case_names contradiction satisfied first second]:
  assumes "search_assignments fuel s = Inr (sol, s')"
  obtains
    (contradiction) "any_contradiction s" "sol = SOLUTION_UNSATISFIABLE" "s' = s"
  | (satisfied) "\<not> any_contradiction s" "all_satisfied s" "sol = SOLUTION_SATISFIABLE" "s' = s"
  | (first) n b s1 where "fuel = Suc n" "\<not> any_contradiction s" "\<not> all_satisfied s"
      "choose_branch s = Inr (b, s1)" "try_assignment n s1 b = Inr (sol, s')"
      "sol \<noteq> SOLUTION_UNSATISFIABLE"
  | (second) n b s1 s2 where "fuel = Suc n" "\<not> any_contradiction s" "\<not> all_satisfied s"
      "choose_branch s = Inr (b, s1)" "try_assignment n s1 b = Inr (SOLUTION_UNSATISFIABLE, s2)"
      "try_assignment n s2 (negate b) = Inr (sol, s')"
proof (cases fuel)
  case 0
  with assms show thesis by simp
next
  case (Suc n)
  show thesis
  proof (cases "any_contradiction s")
    case True
    with assms Suc show thesis by (auto intro: contradiction)
  next
    case nc: False
    show thesis
    proof (cases "all_satisfied s")
      case True
      with assms Suc nc show thesis by (auto intro: satisfied)
    next
      case ns: False
      from assms Suc nc ns obtain b s1 where c: "choose_branch s = Inr (b, s1)"
        by (cases "choose_branch s") auto
      from assms Suc nc ns c obtain sol1 s2 where t: "try_assignment n s1 b = Inr (sol1, s2)"
        by (cases "try_assignment n s1 b") auto
      show thesis
      proof (cases "sol1 = SOLUTION_UNSATISFIABLE")
        case False
        with assms Suc nc ns c t have "sol = sol1" "s' = s2" by simp_all
        with Suc nc ns c t False show thesis by (auto intro: first)
      next
        case True
        with assms Suc nc ns c t obtain sol2 s3 where
          t2: "try_assignment n s2 (negate b) = Inr (sol2, s3)"
          by (cases "try_assignment n s2 (negate b)") auto
        with assms Suc nc ns c t True have "sol = sol2" "s' = s3"
          by (simp_all split: if_splits)
        with Suc nc ns c t True t2 show thesis by (auto intro: second)
      qed
    qed
  qed
qed

lemma search_try_induct [case_names contradiction satisfied first second conflict failed found]:
  assumes contradiction: "\<And>s. any_contradiction s \<Longrightarrow> P s SOLUTION_UNSATISFIABLE s"
    and satisfied: "\<And>s. \<not> any_contradiction s \<Longrightarrow> all_satisfied s \<Longrightarrow>
        P s SOLUTION_SATISFIABLE s"
    and first: "\<And>n s b s1 sol s'. \<not> any_contradiction s \<Longrightarrow> \<not> all_satisfied s \<Longrightarrow>
        choose_branch s = Inr (b, s1) \<Longrightarrow> try_assignment n s1 b = Inr (sol, s') \<Longrightarrow>
        sol \<noteq> SOLUTION_UNSATISFIABLE \<Longrightarrow> Q s1 b sol s' \<Longrightarrow> P s sol s'"
    and second: "\<And>n s b s1 s2 sol s'. \<not> any_contradiction s \<Longrightarrow> \<not> all_satisfied s \<Longrightarrow>
        choose_branch s = Inr (b, s1) \<Longrightarrow>
        try_assignment n s1 b = Inr (SOLUTION_UNSATISFIABLE, s2) \<Longrightarrow>
        Q s1 b SOLUTION_UNSATISFIABLE s2 \<Longrightarrow>
        try_assignment n s2 (negate b) = Inr (sol, s') \<Longrightarrow>
        Q s2 (negate b) sol s' \<Longrightarrow> P s sol s'"
    and conflict: "\<And>s b s2 s3 s'. unat (n_assigned s) < length (assigned_trail s) \<Longrightarrow>
        make_assignment (push_assigned (s\<lparr>t_branches := t_branches s + 1\<rparr>) b) b = Inr s2 \<Longrightarrow>
        propagate s2 = Inr (True, s3) \<Longrightarrow> backtrack s3 (n_assigned s) = Inr s' \<Longrightarrow>
        Q s b SOLUTION_UNSATISFIABLE s'"
    and failed: "\<And>n s b s2 s3 s4 s'. unat (n_assigned s) < length (assigned_trail s) \<Longrightarrow>
        make_assignment (push_assigned (s\<lparr>t_branches := t_branches s + 1\<rparr>) b) b = Inr s2 \<Longrightarrow>
        propagate s2 = Inr (False, s3) \<Longrightarrow>
        search_assignments n s3 = Inr (SOLUTION_UNSATISFIABLE, s4) \<Longrightarrow>
        P s3 SOLUTION_UNSATISFIABLE s4 \<Longrightarrow>
        backtrack s4 (n_assigned s) = Inr s' \<Longrightarrow> Q s b SOLUTION_UNSATISFIABLE s'"
    and found: "\<And>n s b s2 s3 sol s'. unat (n_assigned s) < length (assigned_trail s) \<Longrightarrow>
        make_assignment (push_assigned (s\<lparr>t_branches := t_branches s + 1\<rparr>) b) b = Inr s2 \<Longrightarrow>
        propagate s2 = Inr (False, s3) \<Longrightarrow> search_assignments n s3 = Inr (sol, s') \<Longrightarrow>
        sol \<noteq> SOLUTION_UNSATISFIABLE \<Longrightarrow> P s3 sol s' \<Longrightarrow> Q s b sol s'"
  shows "(search_assignments fuel s = Inr (sol, s') \<longrightarrow> P s sol s') \<and>
         (try_assignment fuel s b = Inr (sol, s') \<longrightarrow> Q s b sol s')"
proof (induction fuel arbitrary: s b sol s')
  case 0
  have "Q s b sol s'" if t: "try_assignment 0 s b = Inr (sol, s')"
    using t
  proof (cases rule: try_assignment_cases)
    case (conflict s2 s3)
    then show ?thesis using assms(5) by simp
  qed simp_all
  then show ?case by simp
next
  case (Suc n)
  have S: "P s sol s'" if r: "search_assignments (Suc n) s = Inr (sol, s')" for s sol s'
    using r
  proof (cases rule: search_assignments_cases)
    case contradiction
    then show ?thesis using assms(1) by simp
  next
    case satisfied
    then show ?thesis using assms(2) by simp
  next
    case (first m b1 s1)
    then have "Q s1 b1 sol s'"
      using Suc.IH [where ?s = s1 and ?b = b1 and ?sol = sol and ?s' = s'] by simp
    with first show ?thesis using assms(3) [of s b1 s1 n sol s'] by simp
  next
    case (second m b1 s1 s2)
    then have "Q s1 b1 SOLUTION_UNSATISFIABLE s2" "Q s2 (negate b1) sol s'"
      using Suc.IH [where ?s = s1 and ?b = b1 and ?sol = SOLUTION_UNSATISFIABLE and ?s' = s2]
        Suc.IH [where ?s = s2 and ?b = "negate b1" and ?sol = sol and ?s' = s'] by simp_all
    with second show ?thesis using assms(4) [of s b1 s1 n s2 sol s'] by simp
  qed
  have "Q s b sol s'" if t: "try_assignment (Suc n) s b = Inr (sol, s')"
    using t
  proof (cases rule: try_assignment_cases)
    case (conflict s2 s3)
    then show ?thesis using assms(5) by simp
  next
    case (failed s2 s3 s4)
    with S [of s3 SOLUTION_UNSATISFIABLE s4] show ?thesis
      using assms(6) [of s b s2 s3 "Suc n" s4 s'] by simp
  next
    case (found s2 s3)
    with S [of s3 sol s'] show ?thesis
      using assms(7) [of s b s2 s3 "Suc n" sol s'] by simp
  qed
  with S show ?case by simp
qed

lemma search_try_n_units:
  "(search_assignments fuel s = Inr (sol, s') \<longrightarrow> n_units s = 0 \<longrightarrow> n_units s' = 0) \<and>
   (try_assignment fuel s b = Inr (sol, s') \<longrightarrow> n_units s' = 0)"
proof (induction rule: search_try_induct)
  case (first n s b s1 sol s')
  then show ?case by simp
next
  case (second n s b s1 s2 sol s')
  then show ?case by simp
next
  case (conflict s b s2 s3 s')
  then show ?case
    using propagate_n_units [of s2 True s3] undo_frameD(1) [OF backtrack_frame, of s3 "n_assigned s" s']
    by simp
next
  case (failed n s b s2 s3 s4 s')
  then show ?case
    using propagate_n_units [of s2 False s3] undo_frameD(1) [OF backtrack_frame, of s4 "n_assigned s" s']
    by simp
next
  case (found n s b s2 s3 sol s')
  then show ?case
    using propagate_n_units [of s2 False s3] by simp
qed simp_all

subsection \<open>The static part through the search\<close>

lemma propagate_static:
  "propagate s = Inr (c, s') \<Longrightarrow> static_part s' = static_part s"
proof (induction rule: propagate_induct)
  case (assign s s2 c s')
  have "static_part (push_assigned (pop_unit s\<lparr>t_unit_props := t_unit_props s + 1\<rparr>) (top_unit s))
      = static_part s"
    by (simp add: static_part_def push_assigned_def pop_unit_def)
  with assign.IH make_assignment_static [OF \<open>make_assignment _ (top_unit s) = Inr s2\<close>]
  show ?case by simp
next
  case (skip s c s')
  then show ?case by (simp add: static_part_def pop_unit_def)
qed (simp_all add: static_part_def)

lemma backtrack_static:
  "backtrack s prev = Inr s' \<Longrightarrow> static_part s' = static_part s"
proof (induction rule: backtrack_induct)
  case (undo s s2 s')
  have "static_part (s\<lparr>n_assigned := n_assigned s - 1\<rparr>) = static_part s"
    by (simp add: static_part_def)
  with undo.IH undo_assignment_static [OF \<open>undo_assignment _ _ = Inr s2\<close>]
  show ?case by simp
qed simp

lemma only_scores_static: "only_scores s s' \<Longrightarrow> static_part s' = static_part s"
proof -
  assume o: "only_scores s s'"
  have c: "map cont_clauses ls = map (\<lambda>x. snd (snd x)) (unscored ls)" for ls
    by (simp add: unscored_def)
  have "map cont_clauses (lits s') = map cont_clauses (lits s)"
    unfolding c only_scoresD(12) [OF o] by (rule refl)
  with only_scoresD [OF o] show ?thesis by (simp add: static_part_def)
qed

lemma search_try_static:
  "(search_assignments fuel s = Inr (sol, s') \<longrightarrow> static_part s' = static_part s) \<and>
   (try_assignment fuel s b = Inr (sol, s') \<longrightarrow> static_part s' = static_part s)"
proof (induction rule: search_try_induct)
  case (first n s b s1 sol s')
  then show ?case using only_scores_static [OF choose_branch_only_scores] by simp
next
  case (second n s b s1 s2 sol s')
  then show ?case using only_scores_static [OF choose_branch_only_scores] by simp
next
  case (conflict s b s2 s3 s')
  have "static_part (push_assigned (s\<lparr>t_branches := t_branches s + 1\<rparr>) b) = static_part s"
    by (simp add: static_part_def push_assigned_def)
  then show ?case
    using make_assignment_static [OF \<open>make_assignment _ b = Inr s2\<close>]
      propagate_static [OF \<open>propagate s2 = Inr (True, s3)\<close>]
      backtrack_static [OF \<open>backtrack s3 (n_assigned s) = Inr s'\<close>] by simp
next
  case (failed n s b s2 s3 s4 s')
  have "static_part (push_assigned (s\<lparr>t_branches := t_branches s + 1\<rparr>) b) = static_part s"
    by (simp add: static_part_def push_assigned_def)
  with \<open>static_part s4 = static_part s3\<close> show ?case
    using make_assignment_static [OF \<open>make_assignment _ b = Inr s2\<close>]
      propagate_static [OF \<open>propagate s2 = Inr (False, s3)\<close>]
      backtrack_static [OF \<open>backtrack s4 (n_assigned s) = Inr s'\<close>] by simp
next
  case (found n s b s2 s3 sol s')
  have "static_part (push_assigned (s\<lparr>t_branches := t_branches s + 1\<rparr>) b) = static_part s"
    by (simp add: static_part_def push_assigned_def)
  with \<open>static_part s' = static_part s3\<close> show ?case
    using make_assignment_static [OF \<open>make_assignment _ b = Inr s2\<close>]
      propagate_static [OF \<open>propagate s2 = Inr (False, s3)\<close>] by simp
qed simp_all

subsection \<open>What loading leaves alone\<close>

definition load_frame :: "Solver \<Rightarrow> Solver \<Rightarrow> bool" where
  "load_frame s s' \<longleftrightarrow>
     n_vars s' = n_vars s \<and> n_clauses s' = n_clauses s \<and>
     length (lits s') = length (lits s) \<and> length (clauses s') = length (clauses s) \<and>
     n_sat_clauses s' = n_sat_clauses s \<and> n_unsat_clauses s' = n_unsat_clauses s \<and>
     n_units s' = n_units s \<and> n_assigned s' = n_assigned s \<and>
     unit_stack s' = unit_stack s \<and> assigned_trail s' = assigned_trail s \<and>
     t_branches s' = t_branches s \<and> t_unit_props s' = t_unit_props s"

lemma load_frame_refl: "load_frame s s"
  by (simp add: load_frame_def)

lemma load_frame_trans: "load_frame s t \<Longrightarrow> load_frame t u \<Longrightarrow> load_frame s u"
  by (simp add: load_frame_def)

lemma add_literal_to_clause_frame:
  "add_literal_to_clause s ci lit = Inr s' \<Longrightarrow> load_frame s s'"
  by (auto simp: add_literal_to_clause_def load_frame_def split: if_splits)

lemma add_repr_frame: "add_repr ci s repr = Inr s' \<Longrightarrow> load_frame s s'"
  by (auto simp: add_repr_def split: sum.splits dest: add_literal_to_clause_frame)

lemma read_clauses_frame: "read_clauses s i cls = Inr s' \<Longrightarrow> load_frame s s'"
proof (induction cls arbitrary: s i)
  case Nil
  then show ?case by (simp add: load_frame_refl)
next
  case (Cons reprs rest)
  from Cons.prems obtain s1 where a: "for_each (add_repr i) reprs s = Inr s1"
    and b: "read_clauses s1 (Suc i) rest = Inr s'"
    by (auto split: sum.splits)
  have "load_frame s s1"
    by (rule for_each_rel [OF a load_frame_refl load_frame_trans add_repr_frame])
  with Cons.IH [OF b] show ?case by (blast intro: load_frame_trans)
qed

lemma load_problem_created:
  assumes "load_problem num_vars cls = Inr s"
  obtains s0 where "create_solver num_vars (of_nat (length cls)) = Inr s0"
    and "read_clauses s0 0 cls = Inr s" and "load_frame s0 s"
  using assms read_clauses_frame
  by (auto simp: load_problem_def split: sum.splits)

lemma unat_double_vars:
  fixes n :: u32
  assumes "2 * unat n + k < 2 ^ 32"
  shows "unat (push_bit 1 n :: u32) = 2 * unat n"
  using assms by (intro unat_double) simp

text \<open>The states with which \<^verbatim>\<open>search_assignments\<close> is entered while
  \<^verbatim>\<open>search_assignments\<close> (or \<^verbatim>\<open>try_assignment\<close>) runs from a given state: the call
  itself, and the calls made through \<^verbatim>\<open>try_assignment\<close> on the first and on the
  second branch.\<close>

inductive search_enters :: "nat \<Rightarrow> Solver \<Rightarrow> Solver \<Rightarrow> bool"
  and try_enters :: "nat \<Rightarrow> Solver \<Rightarrow> Literal \<Rightarrow> Solver \<Rightarrow> bool" where
  enter: "search_enters fuel s s"
| first: "\<not> any_contradiction s \<Longrightarrow> \<not> all_satisfied s \<Longrightarrow> choose_branch s = Inr (b, s1) \<Longrightarrow>
    try_enters n s1 b t \<Longrightarrow> search_enters (Suc n) s t"
| second: "\<not> any_contradiction s \<Longrightarrow> \<not> all_satisfied s \<Longrightarrow> choose_branch s = Inr (b, s1) \<Longrightarrow>
    try_assignment n s1 b = Inr (SOLUTION_UNSATISFIABLE, s2) \<Longrightarrow>
    try_enters n s2 (negate b) t \<Longrightarrow> search_enters (Suc n) s t"
| recurse: "unat (n_assigned s) < length (assigned_trail s) \<Longrightarrow>
    make_assignment
      (s\<lparr>t_branches := t_branches s + 1,
         assigned_trail := (assigned_trail s)[unat (n_assigned s) := b],
         n_assigned := n_assigned s + 1\<rparr>) b = Inr s2 \<Longrightarrow>
    propagate s2 = Inr (False, s3) \<Longrightarrow> search_enters n s3 t \<Longrightarrow> try_enters n s b t"

lemma enters_n_units:
  "search_enters fuel s t \<Longrightarrow> n_units s = 0 \<Longrightarrow> n_units t = 0"
  "try_enters fuel s b t \<Longrightarrow> n_units t = 0"
proof (induction rule: search_enters_try_enters.inducts)
  case (recurse s b s2 s3 n t)
  then show ?case using propagate_n_units [of s2 False s3] by simp
qed simp_all

lemma add_literal_to_clause_n_units:
  "add_literal_to_clause s ci lit = Inr s' \<Longrightarrow> n_units s' = n_units s"
  by (auto simp: add_literal_to_clause_def split: if_splits)

lemma add_repr_n_units: "add_repr ci s repr = Inr s' \<Longrightarrow> n_units s' = n_units s"
  by (auto simp: add_repr_def split: sum.splits dest: add_literal_to_clause_n_units)

lemma read_clauses_n_units:
  "read_clauses s i cls = Inr s' \<Longrightarrow> n_units s' = n_units s"
proof (induction cls arbitrary: s i)
  case Nil
  then show ?case by simp
next
  case (Cons reprs rest)
  from Cons.prems obtain s1 where a: "for_each (add_repr i) reprs s = Inr s1"
    and b: "read_clauses s1 (Suc i) rest = Inr s'"
    by (auto split: sum.splits)
  have "n_units s1 = n_units s"
    by (rule for_each_preserves [OF a, where P = "\<lambda>t. n_units t = n_units s"])
       (auto dest: add_repr_n_units)
  with Cons.IH [OF b] show ?case by simp
qed

lemma load_problem_n_units:
  assumes "load_problem num_vars cls = Inr s"
  shows "n_units s = 0"
proof -
  from assms obtain s0 where c: "create_solver num_vars (of_nat (length cls)) = Inr s0"
    and r: "read_clauses s0 0 cls = Inr s"
    by (auto simp: load_problem_def split: sum.splits)
  from c have "n_units s0 = 0"
    by (auto simp: create_solver_def split: if_splits)
  with read_clauses_n_units [OF r] show ?thesis by simp
qed

text \<open>
  Claim C7. From a freshly constructed and populated solver, every state with which
  \<^verbatim>\<open>search_assignments\<close> is entered (the top-level call and every recursive one) has
  \<^verbatim>\<open>n_units == 0\<close>, and every state with which a call returns has \<^verbatim>\<open>n_units == 0\<close>.
\<close>

theorem n_units_zero_around_search:
  assumes "load_problem num_vars cls = Inr s0"
  shows "\<forall>fuel t. search_enters fuel s0 t \<longrightarrow>
           n_units t = 0 \<and>
           (\<forall>n sol t'. search_assignments n t = Inr (sol, t') \<longrightarrow> n_units t' = 0)"
proof (intro allI impI)
  fix fuel t
  assume e: "search_enters fuel s0 t"
  have "n_units s0 = 0" by (rule load_problem_n_units [OF assms])
  with e have t: "n_units t = 0"
    by (rule enters_n_units(1))
  then show "n_units t = 0 \<and>
      (\<forall>n sol t'. search_assignments n t = Inr (sol, t') \<longrightarrow> n_units t' = 0)"
    using search_try_n_units by blast
qed

lemma contradiction_loaded: "load_problem 1 [[1], [- 1]] = Inr contradiction_loaded"
  by code_simp

lemma contradiction_run:
  "search_assignments 2 contradiction_loaded = Inr (SOLUTION_UNSATISFIABLE, contradiction_final)"
  by code_simp

lemma contradiction_enters: "search_enters 1 contradiction_loaded contradiction_inner"
proof -
  have 1: "\<not> any_contradiction contradiction_loaded" by code_simp
  have 2: "\<not> all_satisfied contradiction_loaded" by code_simp
  have 3: "choose_branch contradiction_loaded = Inr (0, contradiction_scored)" by code_simp
  have 4: "unat (n_assigned contradiction_scored) < length (assigned_trail contradiction_scored)"
    by code_simp
  have 5: "make_assignment
      (contradiction_scored\<lparr>t_branches := t_branches contradiction_scored + 1,
         assigned_trail := (assigned_trail contradiction_scored)
            [unat (n_assigned contradiction_scored) := 0],
         n_assigned := n_assigned contradiction_scored + 1\<rparr>) 0 = Inr contradiction_inner"
    by code_simp
  have 6: "propagate contradiction_inner = Inr (False, contradiction_inner)" by code_simp
  have "try_enters 0 contradiction_scored 0 contradiction_inner"
    by (rule recurse [OF 4 5 6 enter])
  then have "search_enters (Suc 0) contradiction_loaded contradiction_inner"
    by (rule first [OF 1 2 3])
  then show ?thesis by simp
qed

theorem n_units_zero_around_search_witness:
  "search_enters 1 contradiction_loaded contradiction_inner \<and>
   n_units contradiction_inner = 0 \<and>
   search_assignments 2 contradiction_loaded = Inr (SOLUTION_UNSATISFIABLE, contradiction_final) \<and>
   n_units contradiction_final = 0"
proof -
  note t = n_units_zero_around_search [OF contradiction_loaded]
  have a: "n_units contradiction_inner = 0"
    using t contradiction_enters by blast
  have "search_enters 2 contradiction_loaded contradiction_loaded" by (rule enter)
  then have b: "n_units contradiction_final = 0"
    using t contradiction_run by blast
  from contradiction_enters a contradiction_run b show ?thesis by simp
qed

section \<open>An empty clause\<close>

lemma empty_clause_choose:
  "choose_branch empty_clause_loaded = Inr (0, empty_clause_loaded)"
  by code_simp

lemma empty_clause_make:
  "make_assignment
     (push_assigned (empty_clause_loaded\<lparr>t_branches := t_branches empty_clause_loaded + 1\<rparr>) 0) 0
   = Inr empty_clause_inner"
  by code_simp

lemma empty_clause_propagate: "propagate empty_clause_inner = Inr (False, empty_clause_inner)"
  by code_simp

lemma empty_clause_inner_search:
  "search_assignments (Suc fuel) empty_clause_inner = Inl Assertion_Failed"
proof -
  have "\<not> any_contradiction empty_clause_inner" "\<not> all_satisfied empty_clause_inner"
    "choose_branch empty_clause_inner = Inl Assertion_Failed"
    by code_simp+
  then show ?thesis by simp
qed

text \<open>
  Claim C3 (the code departs from it). With one variable and one empty clause the
  counter \<^verbatim>\<open>n_unsat_clauses\<close> stays 0, so \<^verbatim>\<open>search_assignments\<close> does not return
  \<^verbatim>\<open>SOLUTION_UNSATISFIABLE\<close>: it branches on \<open>x1\<close>, recurses, and the recursive call
  reaches \<^verbatim>\<open>choose_branch\<close> with every variable assigned, where
  \<^verbatim>\<open>assert(solver->n_assigned != solver->n_vars)\<close> fails. This holds for every depth
  budget that lets the recursive call start.
\<close>

theorem empty_clause_not_unsatisfiable:
  "load_problem 1 [[]] = Inr empty_clause_loaded \<and>
   (\<forall>fuel. search_assignments (Suc (Suc fuel)) empty_clause_loaded = Inl Assertion_Failed)"
proof -
  have l: "load_problem 1 [[]] = Inr empty_clause_loaded" by code_simp
  have g: "\<not> any_contradiction empty_clause_loaded" "\<not> all_satisfied empty_clause_loaded"
    "unat (n_assigned empty_clause_loaded) < length (assigned_trail empty_clause_loaded)"
    by code_simp+
  have "try_assignment (Suc fuel) empty_clause_loaded 0 = Inl Assertion_Failed" for fuel
    using g(3)
    by (simp add: try_assignment_unfold empty_clause_make empty_clause_propagate
        empty_clause_inner_search del: search_assignments.simps)
  with g empty_clause_choose l show ?thesis by simp
qed

section \<open>The unit stack never overflows\<close>

text \<open>The number of clauses with at most one free literal bounds the height of the unit
  stack: a clause is pushed when its free count goes from 2 to 1, the count only goes
  down while the stack is in use, and the stack is empty whenever an assignment is undone.\<close>

definition low_clauses :: "ClauseState list \<Rightarrow> nat" where
  "low_clauses cs = length (filter (\<lambda>c. n_free_lits c \<le> 1) cs)"

definition stack_bounded :: "Solver \<Rightarrow> bool" where
  "stack_bounded s \<longleftrightarrow>
     unat (n_units s) \<le> low_clauses (clauses s) \<and> length (clauses s) \<le> length (unit_stack s)"

lemma filter_count_update:
  assumes "i < length xs"
  shows "length (filter P (xs[i := y])) + (if P (xs ! i) then 1 else 0)
           = length (filter P xs) + (if P y then 1 else 0)"
  using assms
proof (induction xs arbitrary: i)
  case Nil
  then show ?case by simp
next
  case (Cons x xs)
  then show ?case by (cases i) auto
qed

lemma low_clauses_le: "low_clauses cs \<le> length cs"
  by (simp add: low_clauses_def)

lemma two_not_le_one: "\<not> (2::u32) \<le> 1"
  by (simp add: word_le_nat_alt)
lemma pred_eq_one: fixes w :: u32 shows "w - 1 = 1 \<Longrightarrow> w = 2"
proof -
  assume a: "w - 1 = 1"
  have "w = (w - 1) + 1" by simp
  also have "\<dots> = 2" unfolding a by simp
  finally show ?thesis .
qed
lemma word_pred_le_1: fixes w :: u32 shows "0 < w \<Longrightarrow> w \<le> 1 \<Longrightarrow> w - 1 \<le> 1"
proof -
  assume "0 < w" "w \<le> 1"
  then have "unat w = 1" by (simp add: word_le_nat_alt word_less_nat_alt)
  then have "w = 1" by (simp add: word_unat_eq_iff)
  then show ?thesis by simp
qed
lemma unat_Suc_le: fixes w :: u32 shows "unat (w + 1) \<le> unat w + 1"
  by (simp add: unat_word_ariths)

lemma for_each_invariant:
  assumes "I s"
    and "\<And>t x. I t \<Longrightarrow> body t x \<noteq> Inl e \<and> (\<forall>t'. body t x = Inr t' \<longrightarrow> I t')"
  shows "for_each body xs s \<noteq> Inl e \<and> (\<forall>s'. for_each body xs s = Inr s' \<longrightarrow> I s')"
  using assms(1)
proof (induction xs arbitrary: s)
  case Nil
  then show ?case by simp
next
  case (Cons x xs)
  show ?case
  proof (cases "body s x")
    case (Inl e')
    with assms(2) [OF Cons.prems, of x] show ?thesis by simp
  next
    case (Inr t)
    with assms(2) [OF Cons.prems, of x] have "I t" by simp
    from Cons.IH [OF this] Inr show ?thesis by simp
  qed
qed

lemma add_true_assignment_bounded:
  assumes "stack_bounded s"
  shows "add_true_assignment s ci \<noteq> Inl Unit_Stack_Overflow \<and>
         (\<forall>s'. add_true_assignment s ci = Inr s' \<longrightarrow> stack_bounded s')"
proof (intro conjI allI impI)
  show "add_true_assignment s ci \<noteq> Inl Unit_Stack_Overflow"
    by (simp add: add_true_assignment_def Let_def)
next
  fix s' assume r: "add_true_assignment s ci = Inr s'"
  let ?c = "clauses s ! ci"
  let ?c' = "?c\<lparr>n_assigned_true := n_assigned_true ?c + 1, n_free_lits := n_free_lits ?c - 1\<rparr>"
  from r have ci: "ci < length (clauses s)" and pos: "0 < n_free_lits ?c"
    and cs: "clauses s' = (clauses s)[ci := ?c']" and u: "n_units s' = n_units s"
    and us: "unit_stack s' = unit_stack s"
    by (auto simp: add_true_assignment_def Let_def split: if_splits)
  have "n_free_lits ?c \<le> 1 \<Longrightarrow> n_free_lits ?c' \<le> 1"
    using pos by (simp add: word_pred_le_1)
  then have "low_clauses (clauses s) \<le> low_clauses (clauses s')"
    using filter_count_update [OF ci, of "\<lambda>c. n_free_lits c \<le> 1" ?c'] cs
    by (auto simp: low_clauses_def split: if_splits)
  with assms cs u us show "stack_bounded s'"
    by (simp add: stack_bounded_def)
qed

lemma get_unit_no_overflow: "get_unit s c \<noteq> Inl Unit_Stack_Overflow"
proof -
  have "get_unit_scan ls xs \<noteq> Inl Unit_Stack_Overflow" for ls xs
    by (induction xs) auto
  then show ?thesis by (simp add: get_unit_def)
qed

lemma add_false_assignment_bounded:
  assumes "stack_bounded s"
  shows "add_false_assignment s ci \<noteq> Inl Unit_Stack_Overflow \<and>
         (\<forall>s'. add_false_assignment s ci = Inr s' \<longrightarrow> stack_bounded s')"
proof (cases "ci < length (clauses s) \<and> 0 < n_free_lits (clauses s ! ci)")
  case False
  then show ?thesis by (auto simp: add_false_assignment_def Let_def)
next
  case True
  let ?c = "clauses s ! ci"
  let ?c' = "?c\<lparr>n_assigned_false := n_assigned_false ?c + 1, n_free_lits := n_free_lits ?c - 1\<rparr>"
  let ?cs' = "(clauses s)[ci := ?c']"
  from True have ci: "ci < length (clauses s)" and pos: "0 < n_free_lits ?c" by simp_all
  note upd = filter_count_update [OF ci, of "\<lambda>c. n_free_lits c \<le> 1" ?c']
  have mono: "low_clauses (clauses s) \<le> low_clauses ?cs'"
    using upd pos by (auto simp: low_clauses_def word_pred_le_1 split: if_splits)
  show ?thesis
  proof (cases "n_assigned_true ?c = 0 \<and> n_free_lits ?c - 1 = 1")
    case False
    then have "add_false_assignment s ci = Inr (s
        \<lparr>n_unsat_clauses := (if n_assigned_true ?c = 0 \<and> n_free_lits ?c = 1
            then n_unsat_clauses s + 1 else n_unsat_clauses s),
         clauses := ?cs'\<rparr>)"
      using True by (auto simp: add_false_assignment_def Let_def)
    with assms mono show ?thesis by (auto simp: stack_bounded_def)
  next
    case unit: True
    then have two: "n_free_lits ?c = 2" by (simp add: pred_eq_one)
    then have "\<not> n_free_lits ?c \<le> 1" by (simp add: two_not_le_one)
    moreover have "n_free_lits ?c' \<le> 1" using unit by simp
    ultimately have grow: "low_clauses ?cs' = low_clauses (clauses s) + 1"
      using upd by (simp add: low_clauses_def)
    have room: "unat (n_units s) < length (unit_stack s)"
      using assms grow low_clauses_le [of ?cs'] by (simp add: stack_bounded_def)
    let ?s2 = "s\<lparr>n_unsat_clauses := n_unsat_clauses s, clauses := ?cs'\<rparr>"
    show ?thesis
    proof (cases "get_unit ?s2 ?c'")
      case (Inl e)
      then have "add_false_assignment s ci = Inl e"
        using True unit two by (simp add: add_false_assignment_def Let_def)
      with Inl get_unit_no_overflow [of ?s2 ?c'] show ?thesis by simp
    next
      case (Inr u)
      then have "add_false_assignment s ci =
          Inr (?s2\<lparr>unit_stack := (unit_stack s)[unat (n_units s) := u], n_units := n_units s + 1\<rparr>)"
        using True unit two room by (simp add: add_false_assignment_def Let_def)
      moreover have "unat (n_units s + 1) \<le> low_clauses ?cs'"
        using assms grow unat_Suc_le [of "n_units s"] by (simp add: stack_bounded_def)
      ultimately show ?thesis using assms by (simp add: stack_bounded_def)
    qed
  qed
qed

lemma make_assignment_bounded:
  assumes "stack_bounded s"
  shows "make_assignment s lit \<noteq> Inl Unit_Stack_Overflow \<and>
         (\<forall>s'. make_assignment s lit = Inr s' \<longrightarrow> stack_bounded s')"
proof -
  let ?ls1 = "(lits s)[unat lit := (lits s ! unat lit)\<lparr>fixed := True, assigned := True\<rparr>]"
  let ?ls2 = "?ls1[unat (negate lit) := (?ls1 ! unat (negate lit))\<lparr>fixed := True, assigned := False\<rparr>]"
  let ?s1 = "s\<lparr>lits := ?ls2\<rparr>"
  have b1: "stack_bounded ?s1" using assms by (simp add: stack_bounded_def)
  note l1 = for_each_invariant [of stack_bounded ?s1 add_true_assignment Unit_Stack_Overflow
      "cont_clauses (?ls2 ! unat lit)", OF b1 add_true_assignment_bounded]
  show ?thesis
  proof (cases "for_each add_true_assignment (cont_clauses (?ls2 ! unat lit)) ?s1")
    case (Inl e)
    with l1 show ?thesis
      by (auto simp: make_assignment_def Let_def)
  next
    case (Inr s2)
    with l1 have b2: "stack_bounded s2" by simp
    note l2 = for_each_invariant [of stack_bounded s2 add_false_assignment Unit_Stack_Overflow
      "cont_clauses (?ls2 ! unat (negate lit))", OF b2 add_false_assignment_bounded]
    with Inr show ?thesis
      by (auto simp: make_assignment_def Let_def)
  qed
qed

lemma propagate_bounded:
  "stack_bounded s \<Longrightarrow> propagate s \<noteq> Inl Unit_Stack_Overflow"
proof (induction "unfixed_count (lits s) * 4294967296 + unat (n_units s)" arbitrary: s
    rule: less_induct)
  case less
  note b = less.prems
  have bound: "\<And>w :: u32. unat w < 4294967296"
    using unsigned_less [where ?'a = nat and ?'b = 32] by simp
  show ?case
  proof (cases "n_units s = 0")
    case True
    then show ?thesis by (simp add: propagate_unfold [of s])
  next
    case nz: False
    have dec: "unat (n_units s - 1) < unat (n_units s)"
      using nz by (simp add: unat_minus_one_less word_gt_0)
    show ?thesis
    proof (cases "unat (n_units s - 1) < length (unit_stack s) \<and> unat (top_unit s) < length (lits s)")
      case False
      with nz show ?thesis by (auto simp: propagate_unfold [of s])
    next
      case r: True
      show ?thesis
      proof (cases "fixed (lits s ! unat (top_unit s))")
        case fx: True
        show ?thesis
        proof (cases "assigned (lits s ! unat (top_unit s))")
          case False
          with nz r fx show ?thesis by (simp add: propagate_unfold [of s])
        next
          case True
          have "stack_bounded (pop_unit s)"
            using b dec by (simp add: stack_bounded_def pop_unit_def)
          moreover have "unfixed_count (lits (pop_unit s)) * 4294967296 + unat (n_units (pop_unit s))
              < unfixed_count (lits s) * 4294967296 + unat (n_units s)"
            using dec by (simp add: pop_unit_def)
          ultimately have "propagate (pop_unit s) \<noteq> Inl Unit_Stack_Overflow"
            using less.hyps by blast
          with nz r fx True show ?thesis by (simp add: propagate_unfold [of s])
        qed
      next
        case nf: False
        let ?t = "push_assigned (pop_unit s\<lparr>t_unit_props := t_unit_props s + 1\<rparr>) (top_unit s)"
        show ?thesis
        proof (cases "unat (n_assigned s) < length (assigned_trail s)")
          case False
          with nz r nf show ?thesis by (simp add: propagate_unfold [of s])
        next
          case t: True
          have bt: "stack_bounded ?t"
            using b dec by (simp add: stack_bounded_def pop_unit_def push_assigned_def)
          show ?thesis
          proof (cases "make_assignment ?t (top_unit s)")
            case (Inl e)
            with make_assignment_bounded [OF bt, of "top_unit s"] nz r nf t show ?thesis
              by (simp add: propagate_unfold [of s])
          next
            case (Inr s2)
            with make_assignment_bounded [OF bt, of "top_unit s"] have b2: "stack_bounded s2"
              by simp
            have "lits ?t = lits s" by (simp add: push_assigned_def pop_unit_def)
            with make_assignment_unfixed [OF Inr]
            have "unfixed_count (lits s2) < unfixed_count (lits s)" by simp
            then have "unfixed_count (lits s2) * 4294967296 + unat (n_units s2)
                < unfixed_count (lits s) * 4294967296 + unat (n_units s)"
              using bound [of "n_units s2"] by linarith
            then have "propagate s2 \<noteq> Inl Unit_Stack_Overflow"
              using less.hyps b2 by blast
            with Inr nz r nf t show ?thesis by (simp add: propagate_unfold [of s])
          qed
        qed
      qed
    qed
  qed
qed

lemma undo_assignment_no_overflow: "undo_assignment s lit \<noteq> Inl Unit_Stack_Overflow"
proof -
  have 1: "for_each undo_true_assignment xs t \<noteq> Inl Unit_Stack_Overflow" for xs t
    using for_each_invariant [of "\<lambda>_. True" t undo_true_assignment Unit_Stack_Overflow xs]
    by (simp add: undo_true_assignment_def Let_def)
  have 2: "for_each undo_false_assignment xs t \<noteq> Inl Unit_Stack_Overflow" for xs t
    using for_each_invariant [of "\<lambda>_. True" t undo_false_assignment Unit_Stack_Overflow xs]
    by (simp add: undo_false_assignment_def Let_def)
  show ?thesis
    using 1 2 by (auto simp: undo_assignment_def Let_def split: sum.splits)
qed

lemma backtrack_no_overflow: "backtrack s prev \<noteq> Inl Unit_Stack_Overflow"
proof (induction "unat (n_assigned s)" arbitrary: s rule: less_induct)
  case less
  show ?case
  proof (cases "prev < n_assigned s \<and> unat (n_assigned s - 1) < length (assigned_trail s)")
    case False
    then show ?thesis by (auto simp: backtrack_unfold [of s])
  next
    case True
    let ?u = "undo_assignment (s\<lparr>n_assigned := n_assigned s - 1\<rparr>)
        (assigned_trail s ! unat (n_assigned s - 1))"
    show ?thesis
    proof (cases ?u)
      case (Inl e)
      with True undo_assignment_no_overflow [of "s\<lparr>n_assigned := n_assigned s - 1\<rparr>"
          "assigned_trail s ! unat (n_assigned s - 1)"]
      show ?thesis by (simp add: backtrack_unfold [of s])
    next
      case (Inr s2)
      have "n_assigned s2 = n_assigned s - 1"
        using undo_assignment_n_assigned [OF Inr] by simp
      then have "unat (n_assigned s2) < unat (n_assigned s)"
        using True unat_minus_one_less' [of prev "n_assigned s"] by simp
      then have "backtrack s2 prev \<noteq> Inl Unit_Stack_Overflow" by (rule less.hyps)
      with True Inr show ?thesis by (simp add: backtrack_unfold [of s])
    qed
  qed
qed

lemma choose_loop_no_overflow: "choose_loop s lit bl bs \<noteq> Inl Unit_Stack_Overflow"
  by (induction s lit bl bs rule: choose_loop.induct)
     (subst choose_loop.simps, simp add: Let_def)

lemma update_scores_no_overflow: "update_scores s \<noteq> Inl Unit_Stack_Overflow"
proof -
  have 1: "for_each zero_score xs t \<noteq> Inl Unit_Stack_Overflow" for xs t
    using for_each_invariant [of "\<lambda>_. True" t zero_score Unit_Stack_Overflow xs]
    by (simp add: zero_score_def)
  have 3: "for_each (score_clause cs) xs l \<noteq> Inl Unit_Stack_Overflow" for cs xs l
    using for_each_invariant [of "\<lambda>_. True" l "score_clause cs" Unit_Stack_Overflow xs]
    by (simp add: score_clause_def Let_def)
  have "score_lit t k \<noteq> Inl Unit_Stack_Overflow" for t k
    using 3 by (auto simp: score_lit_def Let_def split: sum.splits)
  then have 2: "for_each score_lit xs t \<noteq> Inl Unit_Stack_Overflow" for xs t
    using for_each_invariant [of "\<lambda>_. True" t score_lit Unit_Stack_Overflow xs]
    by simp
  show ?thesis using 1 2 by (auto simp: update_scores_def split: sum.splits)
qed

lemma choose_branch_no_overflow: "choose_branch s \<noteq> Inl Unit_Stack_Overflow"
  using update_scores_no_overflow [of s] choose_loop_no_overflow
  by (auto simp: choose_branch_def split: sum.splits)

lemma search_try_no_overflow:
  "(\<forall>s. n_units s = 0 \<longrightarrow> length (clauses s) \<le> length (unit_stack s) \<longrightarrow>
        search_assignments fuel s \<noteq> Inl Unit_Stack_Overflow) \<and>
   (\<forall>s b. n_units s = 0 \<longrightarrow> length (clauses s) \<le> length (unit_stack s) \<longrightarrow>
        try_assignment fuel s b \<noteq> Inl Unit_Stack_Overflow)"
proof (induction fuel)
  case 0
  have T: "try_assignment 0 s b \<noteq> Inl Unit_Stack_Overflow"
    if z: "n_units s = 0" and cap: "length (clauses s) \<le> length (unit_stack s)" for s b
  proof -
    let ?t = "push_assigned (s\<lparr>t_branches := t_branches s + 1\<rparr>) b"
    have bt: "stack_bounded ?t"
      using z cap by (simp add: stack_bounded_def push_assigned_def)
    show ?thesis
    proof (cases "make_assignment ?t b")
      case (Inl e)
      with make_assignment_bounded [OF bt, of b] show ?thesis
        by (simp add: try_assignment_unfold [of 0 s])
    next
      case m: (Inr s2)
      with make_assignment_bounded [OF bt, of b] have b2: "stack_bounded s2" by simp
      show ?thesis
      proof (cases "propagate s2")
        case (Inl e)
        with propagate_bounded [OF b2] m show ?thesis
          by (simp add: try_assignment_unfold [of 0 s])
      next
        case (Inr r)
        obtain c s3 where r: "r = (c, s3)" by (cases r)
        show ?thesis
          using m Inr r backtrack_no_overflow [of s3 "n_assigned s"]
          by (cases c) (auto simp: try_assignment_unfold [of 0 s] split: sum.splits)
      qed
    qed
  qed
  then show ?case by simp
next
  case (Suc n)
  have S: "search_assignments (Suc n) s \<noteq> Inl Unit_Stack_Overflow"
    if z: "n_units s = 0" and cap: "length (clauses s) \<le> length (unit_stack s)" for s
  proof (cases "any_contradiction s \<or> all_satisfied s")
    case True
    then show ?thesis by auto
  next
    case g: False
    show ?thesis
    proof (cases "choose_branch s")
      case (Inl e)
      with g choose_branch_no_overflow [of s] show ?thesis by simp
    next
      case (Inr r)
      obtain b s1 where r: "r = (b, s1)" by (cases r)
      note o = choose_branch_only_scores [OF Inr [unfolded r]]
      have z1: "n_units s1 = 0" and cap1: "length (clauses s1) \<le> length (unit_stack s1)"
        using only_scoresD [OF o] z cap by simp_all
      show ?thesis
      proof (cases "try_assignment n s1 b")
        case (Inl e)
        with Suc.IH z1 cap1 g Inr r show ?thesis by auto
      next
        case t1: (Inr r1)
        obtain sol s2 where r1: "r1 = (sol, s2)" by (cases r1)
        have z2: "n_units s2 = 0"
          using search_try_n_units [of n s1 sol s2 b] t1 r1 by simp
        have "static_part s2 = static_part s1"
          using search_try_static [of n s1 sol s2 b] t1 r1 by simp
        then have cap2: "length (clauses s2) \<le> length (unit_stack s2)"
          using cap1 static_partD(6,8) [of s2 s1] by simp
        have "try_assignment n s2 (negate b) \<noteq> Inl Unit_Stack_Overflow"
          using Suc.IH z2 cap2 by blast
        with g Inr r t1 r1 show ?thesis by (auto split: sum.splits)
      qed
    qed
  qed
  have T: "try_assignment (Suc n) s b \<noteq> Inl Unit_Stack_Overflow"
    if z: "n_units s = 0" and cap: "length (clauses s) \<le> length (unit_stack s)" for s b
  proof -
    let ?t = "push_assigned (s\<lparr>t_branches := t_branches s + 1\<rparr>) b"
    have bt: "stack_bounded ?t"
      using z cap by (simp add: stack_bounded_def push_assigned_def)
    have st: "static_part ?t = static_part s"
      by (simp add: static_part_def push_assigned_def)
    show ?thesis
    proof (cases "make_assignment ?t b")
      case (Inl e)
      with make_assignment_bounded [OF bt, of b] show ?thesis
        by (simp add: try_assignment_unfold [of "Suc n" s])
    next
      case m: (Inr s2)
      with make_assignment_bounded [OF bt, of b] have b2: "stack_bounded s2" by simp
      show ?thesis
      proof (cases "propagate s2")
        case (Inl e)
        with propagate_bounded [OF b2] m show ?thesis
          by (simp add: try_assignment_unfold [of "Suc n" s])
      next
        case (Inr r)
        obtain c s3 where r: "r = (c, s3)" by (cases r)
        have z3: "n_units s3 = 0" using propagate_n_units [of s2 c s3] Inr r by simp
        have "static_part s3 = static_part s"
          using propagate_static [of s2 c s3] make_assignment_static [OF m] st Inr r by simp
        then have cap3: "length (clauses s3) \<le> length (unit_stack s3)"
          using cap static_partD(6,8) [of s3 s] by simp
        have "search_assignments (Suc n) s3 \<noteq> Inl Unit_Stack_Overflow"
          using S z3 cap3 by blast
        then show ?thesis
          using m Inr r backtrack_no_overflow [of _ "n_assigned s"]
          by (cases c)
             (auto simp: try_assignment_unfold [of "Suc n" s] split: sum.splits
               simp del: search_assignments.simps)
      qed
    qed
  qed
  from S T show ?case by blast
qed

text \<open>
  The unit stack of a problem whose sizes an \<^verbatim>\<open>unsigned int\<close> holds,
  \<open>2 * n_vars + n_clauses < 2 ^ 32\<close>. While such a problem is solved, every write
  \<^verbatim>\<open>solver->unit_stack[solver->n_units++]\<close> of \<^verbatim>\<open>add_false_assignment\<close> is inside
  the array that \<^verbatim>\<open>create_solver\<close> allocated: the search never ends in the fault
  \<open>Unit_Stack_Overflow\<close>, which the model raises at the first write at or beyond the
  capacity. This holds even when the array is cut down to \<^verbatim>\<open>n_clauses\<close> entries, so
  \<^verbatim>\<open>n_units\<close> never exceeds \<^verbatim>\<open>n_clauses\<close>; and the allocated capacity is
  \<open>2 * n_vars + n_clauses\<close>. Without the bound the capacity expression of
  \<^verbatim>\<open>create_solver\<close> wraps around.
\<close>

theorem unit_stack_within_capacity:
  assumes "load_problem num_vars cls = Inr s0"
    and "2 * unat num_vars + length cls < 2 ^ 32"
  shows "length (unit_stack s0) = 2 * unat num_vars + length cls \<and>
         length (clauses s0) = length cls \<and>
         (\<forall>fuel. search_assignments fuel s0 \<noteq> Inl Unit_Stack_Overflow) \<and>
         (\<forall>fuel. search_assignments fuel
             (s0\<lparr>unit_stack := take (length (clauses s0)) (unit_stack s0)\<rparr>)
               \<noteq> Inl Unit_Stack_Overflow)"
proof -
  from assms(1) obtain c where c: "create_solver num_vars (of_nat (length cls)) = Inr c"
    and f: "load_frame c s0"
    by (rule load_problem_created)
  have n: "unat (of_nat (length cls) :: u32) = length cls"
    using assms(2) by (intro of_nat_inverse [OF refl]) simp
  have v: "unat (push_bit 1 num_vars :: u32) = 2 * unat num_vars"
    using assms(2) by (rule unat_double_vars)
  have "unat (push_bit 1 num_vars + of_nat (length cls) :: u32) = 2 * unat num_vars + length cls"
    using assms(2) n v by (simp add: unat_word_ariths)
  with c n have "length (unit_stack c) = 2 * unat num_vars + length cls"
    "length (clauses c) = length cls" "n_units c = 0"
    by (auto simp: create_solver_def split: if_splits)
  with f have l: "length (unit_stack s0) = 2 * unat num_vars + length cls"
    "length (clauses s0) = length cls" "n_units s0 = 0"
    by (simp_all add: load_frame_def)
  let ?cut = "s0\<lparr>unit_stack := take (length (clauses s0)) (unit_stack s0)\<rparr>"
  have "length (clauses ?cut) \<le> length (unit_stack ?cut)" "n_units ?cut = 0"
    using l by simp_all
  then have "search_assignments fuel ?cut \<noteq> Inl Unit_Stack_Overflow" for fuel
    using search_try_no_overflow [of fuel] by blast
  moreover have "search_assignments fuel s0 \<noteq> Inl Unit_Stack_Overflow" for fuel
    using search_try_no_overflow [of fuel] l by simp
  ultimately show ?thesis using l by simp
qed

lemma chain_loaded: "load_problem 3 [[- 1, 2], [- 2, 3], [- 3]] = Inr chain_loaded"
  by code_simp

theorem unit_stack_within_capacity_witness:
  "length (unit_stack chain_loaded) = 2 * unat (3 :: u32) + length [[- 1, 2], [- 2, 3], [- 3 :: c_int]] \<and>
   length (clauses chain_loaded) = length [[- 1, 2], [- 2, 3], [- 3 :: c_int]] \<and>
   (\<forall>fuel. search_assignments fuel chain_loaded \<noteq> Inl Unit_Stack_Overflow) \<and>
   (\<forall>fuel. search_assignments fuel
       (chain_loaded\<lparr>unit_stack := take (length (clauses chain_loaded)) (unit_stack chain_loaded)\<rparr>)
         \<noteq> Inl Unit_Stack_Overflow)"
proof (rule unit_stack_within_capacity [OF chain_loaded])
  show "2 * unat (3 :: u32) + length [[- 1, 2], [- 2, 3], [- 3 :: c_int]] < 2 ^ 32" by simp
qed

section \<open>The solver invariant\<close>

subsection \<open>Literals and their negations\<close>

lemma negate_negate [simp]: "negate (negate l) = l"
  by (simp add: negate_def xor.assoc)

lemma unat_negate: "unat (negate l) = (if even (unat l) then unat l + 1 else unat l - 1)"
proof -
  have "unat (negate l) = unat l XOR 1"
    unfolding negate_def by (simp only: unsigned_xor_eq unsigned_1)
  also have "\<dots> = (if even (unat l) then unat l + 1 else unat l - 1)"
    by (simp add: xor_Suc_0_eq)
  finally show ?thesis .
qed

lemma unat_negate_neq [simp]: "unat (negate l) \<noteq> unat l" "unat l \<noteq> unat (negate l)"
proof -
  show "unat (negate l) \<noteq> unat l"
  proof (cases "even (unat l)")
    case True
    then show ?thesis by (simp add: unat_negate)
  next
    case False
    then have "0 < unat l" by (rule odd_pos)
    with False show ?thesis by (simp add: unat_negate)
  qed
  then show "unat l \<noteq> unat (negate l)" by simp
qed

lemma negate_neq [simp]: "negate l \<noteq> l" "l \<noteq> negate l"
  using unat_negate_neq [of l] by (auto simp del: unat_negate_neq)

lemma negate_in_range:
  assumes "even n"
  shows "unat (negate l) < n \<longleftrightarrow> unat l < n"
proof (cases "even (unat l)")
  case True
  with assms show ?thesis
    unfolding unat_negate by (auto elim!: evenE)
next
  case False
  then have "0 < unat l" by (rule odd_pos)
  with False assms show ?thesis
    unfolding unat_negate by (auto elim!: evenE oddE)
qed

lemma negate_eq_iff: "negate a = b \<longleftrightarrow> a = negate b"
  by auto

subsection \<open>Counting the literals of a clause\<close>

definition lit_true :: "LitState list \<Rightarrow> Literal \<Rightarrow> bool" where
  "lit_true ls l \<longleftrightarrow> fixed (ls ! unat l) \<and> assigned (ls ! unat l)"

definition lit_false :: "LitState list \<Rightarrow> Literal \<Rightarrow> bool" where
  "lit_false ls l \<longleftrightarrow> fixed (ls ! unat l) \<and> \<not> assigned (ls ! unat l)"

definition lit_free :: "LitState list \<Rightarrow> Literal \<Rightarrow> bool" where
  "lit_free ls l \<longleftrightarrow> \<not> fixed (ls ! unat l)"

definition count_true :: "LitState list \<Rightarrow> Literal list \<Rightarrow> nat" where
  "count_true ls xs = length (filter (lit_true ls) xs)"

definition count_false :: "LitState list \<Rightarrow> Literal list \<Rightarrow> nat" where
  "count_false ls xs = length (filter (lit_false ls) xs)"

definition count_free :: "LitState list \<Rightarrow> Literal list \<Rightarrow> nat" where
  "count_free ls xs = length (filter (lit_free ls) xs)"

lemma count_sum: "count_true ls xs + count_false ls xs + count_free ls xs = length xs"
  by (induction xs) (auto simp: count_true_def count_false_def count_free_def
      lit_true_def lit_false_def lit_free_def)

lemma count_true_pos: "l \<in> set xs \<Longrightarrow> lit_true ls l \<Longrightarrow> 0 < count_true ls xs"
  by (auto simp: count_true_def filter_empty_conv)

lemma count_false_pos: "l \<in> set xs \<Longrightarrow> lit_false ls l \<Longrightarrow> 0 < count_false ls xs"
  by (auto simp: count_false_def filter_empty_conv)

lemma count_true_zero: "count_true ls xs = 0 \<Longrightarrow> l \<in> set xs \<Longrightarrow> \<not> lit_true ls l"
  using count_true_pos [of l xs ls] by auto

text \<open>The flags \<open>ls'\<close> are the flags \<open>ls\<close> with the free literal \<open>l\<close> made true and its
  negation made false.\<close>

definition flags_assign :: "LitState list \<Rightarrow> LitState list \<Rightarrow> Literal \<Rightarrow> bool" where
  "flags_assign ls ls' l \<longleftrightarrow>
     length ls' = length ls \<and> unat l < length ls \<and> unat (negate l) < length ls \<and>
     lit_free ls l \<and> lit_free ls (negate l) \<and> lit_true ls' l \<and> lit_false ls' (negate l) \<and>
     (\<forall>k < length ls. k \<noteq> unat l \<longrightarrow> k \<noteq> unat (negate l) \<longrightarrow>
        fixed (ls' ! k) = fixed (ls ! k) \<and> assigned (ls' ! k) = assigned (ls ! k))"

lemma flags_assign_other:
  assumes "flags_assign ls ls' l" and "unat x < length ls" and "x \<noteq> l" and "x \<noteq> negate l"
  shows "lit_true ls' x = lit_true ls x" "lit_false ls' x = lit_false ls x"
    "lit_free ls' x = lit_free ls x"
proof -
  have "unat x \<noteq> unat l" "unat x \<noteq> unat (negate l)"
    using assms(3,4) by (simp_all add: word_unat_eq_iff)
  with assms(1,2) show "lit_true ls' x = lit_true ls x" "lit_false ls' x = lit_false ls x"
    "lit_free ls' x = lit_free ls x"
    by (simp_all add: flags_assign_def lit_true_def lit_false_def lit_free_def)
qed

lemma filter_length_insert:
  assumes "distinct xs" and "\<not> P a" and "\<And>x. x \<in> set xs \<Longrightarrow> x \<noteq> a \<Longrightarrow> Q x = P x" and "Q a"
  shows "length (filter Q xs) = length (filter P xs) + (if a \<in> set xs then 1 else 0)"
  using assms(1,3)
proof (induction xs)
  case Nil
  then show ?case by simp
next
  case (Cons x xs)
  then show ?case using assms(2,4) by (cases "x = a") auto
qed

lemma flags_assign_counts:
  assumes fa: "flags_assign ls ls' l" and d: "distinct xs"
    and r: "\<forall>x \<in> set xs. unat x < length ls"
  shows "count_true ls' xs = count_true ls xs + (if l \<in> set xs then 1 else 0)"
    and "count_false ls' xs = count_false ls xs + (if negate l \<in> set xs then 1 else 0)"
    and "count_free ls xs = count_free ls' xs + (if l \<in> set xs then 1 else 0)
           + (if negate l \<in> set xs then 1 else 0)"
proof -
  from fa have fl: "lit_free ls l" "lit_free ls (negate l)" "lit_true ls' l"
    "lit_false ls' (negate l)"
    by (simp_all add: flags_assign_def)
  have nt: "\<not> lit_true ls l" "\<not> lit_false ls (negate l)" "\<not> lit_true ls' (negate l)"
    "\<not> lit_false ls' l" "\<not> lit_free ls' l" "\<not> lit_free ls' (negate l)"
    using fl by (auto simp: lit_true_def lit_false_def lit_free_def)
  show "count_true ls' xs = count_true ls xs + (if l \<in> set xs then 1 else 0)"
    unfolding count_true_def
  proof (rule filter_length_insert [of xs "lit_true ls" l "lit_true ls'", OF d nt(1) _ fl(3)])
    fix x assume x: "x \<in> set xs" "x \<noteq> l"
    show "lit_true ls' x = lit_true ls x"
    proof (cases "x = negate l")
      case True
      with nt fl show ?thesis by (simp add: lit_true_def lit_free_def)
    next
      case False
      with flags_assign_other [OF fa _ x(2)] r x(1) show ?thesis by simp
    qed
  qed
  show "count_false ls' xs = count_false ls xs + (if negate l \<in> set xs then 1 else 0)"
    unfolding count_false_def
  proof (rule filter_length_insert [of xs "lit_false ls" "negate l" "lit_false ls'",
        OF d nt(2) _ fl(4)])
    fix x assume x: "x \<in> set xs" "x \<noteq> negate l"
    show "lit_false ls' x = lit_false ls x"
    proof (cases "x = l")
      case True
      with nt fl show ?thesis by (simp add: lit_false_def lit_free_def)
    next
      case False
      with flags_assign_other [OF fa _ False x(2)] r x(1) show ?thesis by simp
    qed
  qed
  have "count_true ls' xs + count_false ls' xs + count_free ls' xs
      = count_true ls xs + count_false ls xs + count_free ls xs"
    by (simp add: count_sum)
  with \<open>count_true ls' xs = _\<close> \<open>count_false ls' xs = _\<close>
  show "count_free ls xs = count_free ls' xs + (if l \<in> set xs then 1 else 0)
           + (if negate l \<in> set xs then 1 else 0)"
    by simp
qed

subsection \<open>Well-formed problems\<close>

text \<open>The clause array has \<^verbatim>\<open>n_clauses\<close> entries and the literal array
  \<^verbatim>\<open>n_vars << 1\<close>; a clause holds each literal at most once (C1), its literals index the
  literal array, and \<^verbatim>\<open>n_lits\<close> is their number; the occurrence list of a literal holds
  exactly the clauses that contain it, each once (L2).\<close>

definition well_formed :: "Solver \<Rightarrow> bool" where
  "well_formed s \<longleftrightarrow>
     length (clauses s) = unat (n_clauses s) \<and>
     length (lits s) = unat (push_bit 1 (n_vars s) :: u32) \<and>
     (\<forall>i < length (clauses s).
        distinct (clause_lits (clauses s ! i)) \<and>
        (\<forall>l \<in> set (clause_lits (clauses s ! i)). unat l < length (lits s)) \<and>
        unat (n_lits (clauses s ! i)) = length (clause_lits (clauses s ! i))) \<and>
     (\<forall>l. unat l < length (lits s) \<longrightarrow>
        distinct (cont_clauses (lits s ! unat l)) \<and>
        set (cont_clauses (lits s ! unat l)) =
          {i. i < length (clauses s) \<and> l \<in> set (clause_lits (clauses s ! i))})"

lemma static_part_nth:
  assumes "static_part s' = static_part s"
  shows "i < length (clauses s) \<Longrightarrow> clause_lits (clauses s' ! i) = clause_lits (clauses s ! i)"
    and "i < length (clauses s) \<Longrightarrow> n_lits (clauses s' ! i) = n_lits (clauses s ! i)"
    and "k < length (lits s) \<Longrightarrow> cont_clauses (lits s' ! k) = cont_clauses (lits s ! k)"
proof -
  note d = static_partD [OF assms]
  show "clause_lits (clauses s' ! i) = clause_lits (clauses s ! i)" if "i < length (clauses s)"
    using arg_cong [OF d(3), of "\<lambda>xs. xs ! i"] that d(8) by simp
  show "n_lits (clauses s' ! i) = n_lits (clauses s ! i)" if "i < length (clauses s)"
    using arg_cong [OF d(4), of "\<lambda>xs. xs ! i"] that d(8) by simp
  show "cont_clauses (lits s' ! k) = cont_clauses (lits s ! k)" if "k < length (lits s)"
    using arg_cong [OF d(5), of "\<lambda>xs. xs ! k"] that d(9) by simp
qed

lemma well_formed_static:
  assumes "static_part s' = static_part s" and "well_formed s"
  shows "well_formed s'"
  using assms(2) static_partD [OF assms(1)] static_part_nth [OF assms(1)]
  unfolding well_formed_def by auto

lemma well_formedD:
  assumes "well_formed s"
  shows "length (clauses s) = unat (n_clauses s)"
    and "length (lits s) = unat (push_bit 1 (n_vars s) :: u32)"
    and "even (length (lits s))"
    and "i < length (clauses s) \<Longrightarrow> distinct (clause_lits (clauses s ! i))"
    and "i < length (clauses s) \<Longrightarrow> l \<in> set (clause_lits (clauses s ! i)) \<Longrightarrow>
           unat l < length (lits s)"
    and "i < length (clauses s) \<Longrightarrow>
           unat (n_lits (clauses s ! i)) = length (clause_lits (clauses s ! i))"
    and "unat l < length (lits s) \<Longrightarrow> distinct (cont_clauses (lits s ! unat l))"
    and "unat l < length (lits s) \<Longrightarrow>
           i \<in> set (cont_clauses (lits s ! unat l)) \<longleftrightarrow>
             i < length (clauses s) \<and> l \<in> set (clause_lits (clauses s ! i))"
  using assms push_bit_1_even [of "n_vars s"] unfolding well_formed_def by auto

subsection \<open>Counters\<close>

text \<open>The clause counters against a count over the clause's literals. While
  \<^verbatim>\<open>make_assignment\<close> or \<^verbatim>\<open>undo_assignment\<close> is at work the flags are ahead of the
  counters: \<open>DT\<close> holds the clauses whose counters still miss the true literal, \<open>DF\<close>
  those whose counters still miss the false one.\<close>

definition counters_lag :: "Solver \<Rightarrow> nat set \<Rightarrow> nat set \<Rightarrow> bool" where
  "counters_lag s DT DF \<longleftrightarrow>
     (\<forall>i < length (clauses s).
        unat (n_assigned_true (clauses s ! i)) + (if i \<in> DT then 1 else 0)
          = count_true (lits s) (clause_lits (clauses s ! i)) \<and>
        unat (n_assigned_false (clauses s ! i)) + (if i \<in> DF then 1 else 0)
          = count_false (lits s) (clause_lits (clauses s ! i)) \<and>
        unat (n_free_lits (clauses s ! i))
          = count_free (lits s) (clause_lits (clauses s ! i))
            + (if i \<in> DT then 1 else 0) + (if i \<in> DF then 1 else 0))"

text \<open>The two global counters: \<^verbatim>\<open>n_sat_clauses\<close> counts the clauses with a true literal
  (S1), \<^verbatim>\<open>n_unsat_clauses\<close> the clauses that have literals, none of them true or free
  (S2; a clause that is empty from the start is never counted by the code).\<close>

definition sat_count :: "ClauseState list \<Rightarrow> nat" where
  "sat_count cs = length (filter (\<lambda>c. n_assigned_true c \<noteq> 0) cs)"

definition unsat_count :: "ClauseState list \<Rightarrow> nat" where
  "unsat_count cs =
     length (filter (\<lambda>c. n_assigned_true c = 0 \<and> n_free_lits c = 0 \<and> n_lits c \<noteq> 0) cs)"

definition globals_ok :: "Solver \<Rightarrow> bool" where
  "globals_ok s \<longleftrightarrow>
     unat (n_sat_clauses s) = sat_count (clauses s) \<and>
     unat (n_unsat_clauses s) = unsat_count (clauses s)"

lemma sat_count_le: "sat_count cs \<le> length cs"
  by (simp add: sat_count_def)

lemma unsat_count_le: "unsat_count cs \<le> length cs"
  by (simp add: unsat_count_def)

lemma unat_plus_one:
  fixes w :: u32
  assumes "unat w + 1 \<le> unat (b :: u32)"
  shows "unat (w + 1) = unat w + 1"
proof -
  have "unat b < 2 ^ 32" using unsigned_less [of b, where ?'a = nat] by simp
  with assms have "unat w + unat (1 :: u32) < 2 ^ LENGTH(32)" by simp
  then have "unat (w + 1) = unat w + unat (1 :: u32)" by (simp only: unat_add_lem)
  then show ?thesis by simp
qed

lemma unat_minus_one_pos:
  fixes w :: u32
  shows "0 < unat w \<Longrightarrow> unat (w - 1) = unat w - 1"
  by (simp add: unat_minus_one unat_gt_0)

lemma word_pos_unat: fixes w :: u32 shows "0 < w \<longleftrightarrow> 0 < unat w"
  by (simp add: word_less_nat_alt)

lemma word_eq_0_unat: fixes w :: u32 shows "w = 0 \<longleftrightarrow> unat w = 0"
  by (simp add: unat_eq_0)

lemma word_eq_1_unat: fixes w :: u32 shows "w = 1 \<longleftrightarrow> unat w = 1"
  by (simp add: word_unat_eq_iff)

subsection \<open>One counter update\<close>

lemma add_true_assignment_result:
  assumes "add_true_assignment s i = Inr s'"
  shows "i < length (clauses s)" and "0 < n_free_lits (clauses s ! i)"
    and "s' = s\<lparr>n_sat_clauses :=
              (if n_assigned_true (clauses s ! i) = 0 then n_sat_clauses s + 1
               else n_sat_clauses s),
            clauses := (clauses s)[i := (clauses s ! i)
              \<lparr>n_assigned_true := n_assigned_true (clauses s ! i) + 1,
               n_free_lits := n_free_lits (clauses s ! i) - 1\<rparr>]\<rparr>"
  using assms by (auto simp: add_true_assignment_def Let_def split: if_splits)

lemma counters_lagD:
  assumes "counters_lag s DT DF" and "i < length (clauses s)"
  shows "unat (n_assigned_true (clauses s ! i)) + (if i \<in> DT then 1 else 0)
          = count_true (lits s) (clause_lits (clauses s ! i))"
    and "unat (n_assigned_false (clauses s ! i)) + (if i \<in> DF then 1 else 0)
          = count_false (lits s) (clause_lits (clauses s ! i))"
    and "unat (n_free_lits (clauses s ! i))
          = count_free (lits s) (clause_lits (clauses s ! i))
            + (if i \<in> DT then 1 else 0) + (if i \<in> DF then 1 else 0)"
  using assms unfolding counters_lag_def by blast+

lemma counters_lagI:
  assumes "\<And>i. i < length (clauses s) \<Longrightarrow>
      unat (n_assigned_true (clauses s ! i)) + (if i \<in> DT then 1 else 0)
          = count_true (lits s) (clause_lits (clauses s ! i)) \<and>
      unat (n_assigned_false (clauses s ! i)) + (if i \<in> DF then 1 else 0)
          = count_false (lits s) (clause_lits (clauses s ! i)) \<and>
      unat (n_free_lits (clauses s ! i))
          = count_free (lits s) (clause_lits (clauses s ! i))
            + (if i \<in> DT then 1 else 0) + (if i \<in> DF then 1 else 0)"
  shows "counters_lag s DT DF"
  using assms unfolding counters_lag_def by blast

lemma count_bound:
  assumes "well_formed s" and "i < length (clauses s)"
  shows "count_true (lits s) (clause_lits (clauses s ! i))
         + count_false (lits s) (clause_lits (clauses s ! i))
         + count_free (lits s) (clause_lits (clauses s ! i)) = unat (n_lits (clauses s ! i))"
  using well_formedD(6) [OF assms] by (simp add: count_sum)

lemma add_true_step:
  assumes wf: "well_formed s" and lag: "counters_lag s (insert i DT) DF" and ni: "i \<notin> DT"
    and g: "globals_ok s" and run: "add_true_assignment s i = Inr s'"
  shows "counters_lag s' DT DF" and "globals_ok s'"
proof -
  note r = add_true_assignment_result [OF run]
  let ?c = "clauses s ! i"
  let ?c' = "?c\<lparr>n_assigned_true := n_assigned_true ?c + 1, n_free_lits := n_free_lits ?c - 1\<rparr>"
  note L = counters_lagD [OF lag r(1)]
  note cb = count_bound [OF wf r(1)]
  have nt: "unat (n_assigned_true ?c + 1) = unat (n_assigned_true ?c) + 1"
    using L(1) cb by (intro unat_plus_one [of _ "n_lits ?c"]) simp
  have nf: "unat (n_free_lits ?c - 1) = unat (n_free_lits ?c) - 1"
    using r(2) by (simp add: unat_minus_one_pos word_pos_unat)
  have fpos: "0 < unat (n_free_lits ?c)" using r(2) by (simp add: word_pos_unat)
  have cs: "clauses s' = (clauses s)[i := ?c']" and ls: "lits s' = lits s"
    by (subst r(3), simp)+
  show "counters_lag s' DT DF"
  proof (rule counters_lagI)
    fix j assume "j < length (clauses s')"
    then have j: "j < length (clauses s)" by (simp add: cs)
    show "unat (n_assigned_true (clauses s' ! j)) + (if j \<in> DT then 1 else 0)
          = count_true (lits s') (clause_lits (clauses s' ! j)) \<and>
      unat (n_assigned_false (clauses s' ! j)) + (if j \<in> DF then 1 else 0)
          = count_false (lits s') (clause_lits (clauses s' ! j)) \<and>
      unat (n_free_lits (clauses s' ! j))
          = count_free (lits s') (clause_lits (clauses s' ! j))
            + (if j \<in> DT then 1 else 0) + (if j \<in> DF then 1 else 0)"
    proof (cases "j = i")
      case True
      then show ?thesis
        using L nt nf fpos ni r(1) by (simp add: cs ls)
    next
      case False
      then show ?thesis
        using counters_lagD [OF lag j] by (simp add: cs ls)
    qed
  qed
  have nz: "n_assigned_true ?c' \<noteq> 0"
    using nt by (simp add: word_eq_0_unat)
  have fz: "n_free_lits ?c \<noteq> 0"
    using fpos by (simp add: word_eq_0_unat)
  have sc: "sat_count (clauses s') + (if n_assigned_true ?c \<noteq> 0 then 1 else 0)
      = sat_count (clauses s) + 1"
    using filter_count_update [OF r(1), of "\<lambda>c. n_assigned_true c \<noteq> 0" ?c'] nz
    by (simp add: sat_count_def cs)
  have uc: "unsat_count (clauses s') = unsat_count (clauses s)"
    using filter_count_update [OF r(1),
        of "\<lambda>c. n_assigned_true c = 0 \<and> n_free_lits c = 0 \<and> n_lits c \<noteq> 0" ?c'] nz fz
    by (simp add: unsat_count_def cs)
  have len: "length (clauses s') = unat (n_clauses s)"
    using well_formedD(1) [OF wf] by (simp add: cs)
  have "unat (n_sat_clauses s') = sat_count (clauses s')"
  proof (cases "n_assigned_true ?c = 0")
    case True
    then have "sat_count (clauses s') = sat_count (clauses s) + 1" using sc by simp
    moreover have "unat (n_sat_clauses s + 1) = unat (n_sat_clauses s) + 1"
      using g sat_count_le [of "clauses s'"] len calculation
      by (intro unat_plus_one [of _ "n_clauses s"]) (simp add: globals_ok_def)
    moreover have "n_sat_clauses s' = n_sat_clauses s + 1"
      using True by (subst r(3)) simp
    ultimately show ?thesis using g by (simp add: globals_ok_def)
  next
    case False
    then have "sat_count (clauses s') = sat_count (clauses s)" using sc by simp
    moreover have "n_sat_clauses s' = n_sat_clauses s"
      using False by (subst r(3)) simp
    ultimately show ?thesis using g by (simp add: globals_ok_def)
  qed
  moreover have "n_unsat_clauses s' = n_unsat_clauses s" by (subst r(3)) simp
  ultimately show "globals_ok s'"
    using g uc by (simp add: globals_ok_def)
qed

lemma add_false_assignment_result:
  assumes "add_false_assignment s i = Inr s'"
  shows "i < length (clauses s)" and "0 < n_free_lits (clauses s ! i)"
    and "clauses s' = (clauses s)[i := (clauses s ! i)
              \<lparr>n_assigned_false := n_assigned_false (clauses s ! i) + 1,
               n_free_lits := n_free_lits (clauses s ! i) - 1\<rparr>]"
    and "lits s' = lits s" and "n_sat_clauses s' = n_sat_clauses s"
    and "n_unsat_clauses s' =
           (if n_assigned_true (clauses s ! i) = 0 \<and> n_free_lits (clauses s ! i) = 1
            then n_unsat_clauses s + 1 else n_unsat_clauses s)"
    and "n_assigned s' = n_assigned s" and "assigned_trail s' = assigned_trail s"
  using assms
  by (auto simp: add_false_assignment_def Let_def split: if_splits sum.splits)

lemma add_false_step:
  assumes wf: "well_formed s" and lag: "counters_lag s DT (insert i DF)" and ni: "i \<notin> DF"
    and ne: "clause_lits (clauses s ! i) \<noteq> []"
    and g: "globals_ok s" and run: "add_false_assignment s i = Inr s'"
  shows "counters_lag s' DT DF" and "globals_ok s'"
proof -
  note r = add_false_assignment_result [OF run]
  let ?c = "clauses s ! i"
  let ?c' = "?c\<lparr>n_assigned_false := n_assigned_false ?c + 1, n_free_lits := n_free_lits ?c - 1\<rparr>"
  note L = counters_lagD [OF lag r(1)]
  note cb = count_bound [OF wf r(1)]
  have nt: "unat (n_assigned_false ?c + 1) = unat (n_assigned_false ?c) + 1"
    using L(2) cb by (intro unat_plus_one [of _ "n_lits ?c"]) simp
  have nf: "unat (n_free_lits ?c - 1) = unat (n_free_lits ?c) - 1"
    using r(2) by (simp add: unat_minus_one_pos word_pos_unat)
  have fpos: "0 < unat (n_free_lits ?c)" using r(2) by (simp add: word_pos_unat)
  note cs = r(3) and ls = r(4)
  show "counters_lag s' DT DF"
  proof (rule counters_lagI)
    fix j assume "j < length (clauses s')"
    then have j: "j < length (clauses s)" by (simp add: cs)
    show "unat (n_assigned_true (clauses s' ! j)) + (if j \<in> DT then 1 else 0)
          = count_true (lits s') (clause_lits (clauses s' ! j)) \<and>
      unat (n_assigned_false (clauses s' ! j)) + (if j \<in> DF then 1 else 0)
          = count_false (lits s') (clause_lits (clauses s' ! j)) \<and>
      unat (n_free_lits (clauses s' ! j))
          = count_free (lits s') (clause_lits (clauses s' ! j))
            + (if j \<in> DT then 1 else 0) + (if j \<in> DF then 1 else 0)"
    proof (cases "j = i")
      case True
      then show ?thesis
        using L nt nf fpos ni r(1) by (simp add: cs ls)
    next
      case False
      then show ?thesis
        using counters_lagD [OF lag j] by (simp add: cs ls)
    qed
  qed
  have fz: "n_free_lits ?c \<noteq> 0"
    using fpos by (simp add: word_eq_0_unat)
  have lz: "n_lits ?c \<noteq> 0"
    using well_formedD(6) [OF wf r(1)] ne by (simp add: word_eq_0_unat)
  have f1: "n_free_lits ?c - 1 = 0 \<longleftrightarrow> n_free_lits ?c = 1" by simp
  have sc: "sat_count (clauses s') = sat_count (clauses s)"
    using filter_count_update [OF r(1), of "\<lambda>c. n_assigned_true c \<noteq> 0" ?c']
    by (simp add: sat_count_def cs)
  have uc: "unsat_count (clauses s')
      = unsat_count (clauses s)
        + (if n_assigned_true ?c = 0 \<and> n_free_lits ?c = 1 then 1 else 0)"
    using filter_count_update [OF r(1),
        of "\<lambda>c. n_assigned_true c = 0 \<and> n_free_lits c = 0 \<and> n_lits c \<noteq> 0" ?c'] fz lz f1
    by (simp add: unsat_count_def cs)
  have len: "length (clauses s') = unat (n_clauses s)"
    using well_formedD(1) [OF wf] by (simp add: cs)
  have "unat (n_unsat_clauses s') = unsat_count (clauses s')"
  proof (cases "n_assigned_true ?c = 0 \<and> n_free_lits ?c = 1")
    case True
    then have "unsat_count (clauses s') = unsat_count (clauses s) + 1" using uc by simp
    moreover have "unat (n_unsat_clauses s + 1) = unat (n_unsat_clauses s) + 1"
      using g unsat_count_le [of "clauses s'"] len calculation
      by (intro unat_plus_one [of _ "n_clauses s"]) (simp add: globals_ok_def)
    ultimately show ?thesis using g True r(6) by (simp add: globals_ok_def)
  next
    case False
    then have "unsat_count (clauses s') = unsat_count (clauses s)" using uc by auto
    then show ?thesis using g False r(6) by (auto simp: globals_ok_def)
  qed
  then show "globals_ok s'"
    using g sc r(5) by (simp add: globals_ok_def)
qed

lemma undo_true_assignment_result:
  assumes "undo_true_assignment s i = Inr s'"
  shows "i < length (clauses s)" and "n_free_lits (clauses s ! i) < n_lits (clauses s ! i)"
    and "clauses s' = (clauses s)[i := (clauses s ! i)
              \<lparr>n_assigned_true := n_assigned_true (clauses s ! i) - 1,
               n_free_lits := n_free_lits (clauses s ! i) + 1\<rparr>]"
    and "lits s' = lits s" and "n_unsat_clauses s' = n_unsat_clauses s"
    and "n_sat_clauses s' =
           (if n_assigned_true (clauses s ! i) - 1 = 0
            then n_sat_clauses s - 1 else n_sat_clauses s)"
    and "n_assigned s' = n_assigned s" and "assigned_trail s' = assigned_trail s"
  using assms
  by (auto simp: undo_true_assignment_def Let_def split: if_splits)

lemma undo_true_step:
  assumes wf: "well_formed s" and lag: "counters_lag s DT DF" and ni: "i \<notin> DT"
    and pos: "0 < count_true (lits s) (clause_lits (clauses s ! i))"
    and g: "globals_ok s" and run: "undo_true_assignment s i = Inr s'"
  shows "counters_lag s' (insert i DT) DF" and "globals_ok s'"
proof -
  note r = undo_true_assignment_result [OF run]
  let ?c = "clauses s ! i"
  let ?c' = "?c\<lparr>n_assigned_true := n_assigned_true ?c - 1, n_free_lits := n_free_lits ?c + 1\<rparr>"
  note L = counters_lagD [OF lag r(1)]
  have tpos: "0 < unat (n_assigned_true ?c)" using L(1) pos ni by simp
  have nt: "unat (n_assigned_true ?c - 1) = unat (n_assigned_true ?c) - 1"
    using tpos by (simp add: unat_minus_one_pos)
  have nf: "unat (n_free_lits ?c + 1) = unat (n_free_lits ?c) + 1"
    using r(2) by (intro unat_plus_one [of _ "n_lits ?c"]) (simp add: word_less_nat_alt)
  note cs = r(3) and ls = r(4)
  show "counters_lag s' (insert i DT) DF"
  proof (rule counters_lagI)
    fix j assume "j < length (clauses s')"
    then have j: "j < length (clauses s)" by (simp add: cs)
    show "unat (n_assigned_true (clauses s' ! j)) + (if j \<in> insert i DT then 1 else 0)
          = count_true (lits s') (clause_lits (clauses s' ! j)) \<and>
      unat (n_assigned_false (clauses s' ! j)) + (if j \<in> DF then 1 else 0)
          = count_false (lits s') (clause_lits (clauses s' ! j)) \<and>
      unat (n_free_lits (clauses s' ! j))
          = count_free (lits s') (clause_lits (clauses s' ! j))
            + (if j \<in> insert i DT then 1 else 0) + (if j \<in> DF then 1 else 0)"
    proof (cases "j = i")
      case True
      then show ?thesis
        using L nt nf tpos ni r(1) by (simp add: cs ls)
    next
      case False
      then show ?thesis
        using counters_lagD [OF lag j] by (simp add: cs ls)
    qed
  qed
  have tz: "n_assigned_true ?c \<noteq> 0"
    using tpos by (simp add: word_eq_0_unat)
  have fz: "n_free_lits ?c + 1 \<noteq> 0"
    using nf by (simp add: word_eq_0_unat)
  have sc: "sat_count (clauses s') + 1
      = sat_count (clauses s) + (if n_assigned_true ?c - 1 \<noteq> 0 then 1 else 0)"
    using filter_count_update [OF r(1), of "\<lambda>c. n_assigned_true c \<noteq> 0" ?c'] tz
    by (simp add: sat_count_def cs)
  have uc: "unsat_count (clauses s') = unsat_count (clauses s)"
    using filter_count_update [OF r(1),
        of "\<lambda>c. n_assigned_true c = 0 \<and> n_free_lits c = 0 \<and> n_lits c \<noteq> 0" ?c'] tz fz
    by (simp add: unsat_count_def cs)
  have "unat (n_sat_clauses s') = sat_count (clauses s')"
  proof (cases "n_assigned_true ?c - 1 = 0")
    case True
    then have c: "sat_count (clauses s') + 1 = sat_count (clauses s)" using sc by simp
    then have "0 < unat (n_sat_clauses s)" using g by (simp add: globals_ok_def)
    then have "unat (n_sat_clauses s - 1) = unat (n_sat_clauses s) - 1"
      by (rule unat_minus_one_pos)
    then show ?thesis using g True r(6) c by (simp add: globals_ok_def)
  next
    case False
    then have "sat_count (clauses s') = sat_count (clauses s)" using sc by simp
    then show ?thesis using g False r(6) by (simp add: globals_ok_def)
  qed
  then show "globals_ok s'"
    using g uc r(5) by (simp add: globals_ok_def)
qed

lemma undo_false_assignment_result:
  assumes "undo_false_assignment s i = Inr s'"
  shows "i < length (clauses s)" and "n_free_lits (clauses s ! i) < n_lits (clauses s ! i)"
    and "clauses s' = (clauses s)[i := (clauses s ! i)
              \<lparr>n_assigned_false := n_assigned_false (clauses s ! i) - 1,
               n_free_lits := n_free_lits (clauses s ! i) + 1\<rparr>]"
    and "lits s' = lits s" and "n_sat_clauses s' = n_sat_clauses s"
    and "n_unsat_clauses s' =
           (if n_assigned_true (clauses s ! i) = 0 \<and> n_free_lits (clauses s ! i) + 1 = 1
            then n_unsat_clauses s - 1 else n_unsat_clauses s)"
    and "n_assigned s' = n_assigned s" and "assigned_trail s' = assigned_trail s"
  using assms
  by (auto simp: undo_false_assignment_def Let_def split: if_splits)

lemma undo_false_step:
  assumes wf: "well_formed s" and lag: "counters_lag s DT DF" and ni: "i \<notin> DF"
    and pos: "0 < count_false (lits s) (clause_lits (clauses s ! i))"
    and g: "globals_ok s" and run: "undo_false_assignment s i = Inr s'"
  shows "counters_lag s' DT (insert i DF)" and "globals_ok s'"
proof -
  note r = undo_false_assignment_result [OF run]
  let ?c = "clauses s ! i"
  let ?c' = "?c\<lparr>n_assigned_false := n_assigned_false ?c - 1, n_free_lits := n_free_lits ?c + 1\<rparr>"
  note L = counters_lagD [OF lag r(1)]
  have tpos: "0 < unat (n_assigned_false ?c)" using L(2) pos ni by simp
  have nt: "unat (n_assigned_false ?c - 1) = unat (n_assigned_false ?c) - 1"
    using tpos by (simp add: unat_minus_one_pos)
  have nf: "unat (n_free_lits ?c + 1) = unat (n_free_lits ?c) + 1"
    using r(2) by (intro unat_plus_one [of _ "n_lits ?c"]) (simp add: word_less_nat_alt)
  note cs = r(3) and ls = r(4)
  show "counters_lag s' DT (insert i DF)"
  proof (rule counters_lagI)
    fix j assume "j < length (clauses s')"
    then have j: "j < length (clauses s)" by (simp add: cs)
    show "unat (n_assigned_true (clauses s' ! j)) + (if j \<in> DT then 1 else 0)
          = count_true (lits s') (clause_lits (clauses s' ! j)) \<and>
      unat (n_assigned_false (clauses s' ! j)) + (if j \<in> insert i DF then 1 else 0)
          = count_false (lits s') (clause_lits (clauses s' ! j)) \<and>
      unat (n_free_lits (clauses s' ! j))
          = count_free (lits s') (clause_lits (clauses s' ! j))
            + (if j \<in> DT then 1 else 0) + (if j \<in> insert i DF then 1 else 0)"
    proof (cases "j = i")
      case True
      then show ?thesis
        using L nt nf tpos ni r(1) by (simp add: cs ls)
    next
      case False
      then show ?thesis
        using counters_lagD [OF lag j] by (simp add: cs ls)
    qed
  qed
  have fz: "n_free_lits ?c + 1 \<noteq> 0"
    using nf by (simp add: word_eq_0_unat)
  have lz: "n_lits ?c \<noteq> 0"
    using r(2) by auto
  have f1: "n_free_lits ?c + 1 = 1 \<longleftrightarrow> n_free_lits ?c = 0" by simp
  have sc: "sat_count (clauses s') = sat_count (clauses s)"
    using filter_count_update [OF r(1), of "\<lambda>c. n_assigned_true c \<noteq> 0" ?c']
    by (simp add: sat_count_def cs)
  have uc: "unsat_count (clauses s')
        + (if n_assigned_true ?c = 0 \<and> n_free_lits ?c = 0 then 1 else 0)
      = unsat_count (clauses s)"
    using filter_count_update [OF r(1),
        of "\<lambda>c. n_assigned_true c = 0 \<and> n_free_lits c = 0 \<and> n_lits c \<noteq> 0" ?c'] fz lz
    by (simp add: unsat_count_def cs)
  have "unat (n_unsat_clauses s') = unsat_count (clauses s')"
  proof (cases "n_assigned_true ?c = 0 \<and> n_free_lits ?c = 0")
    case True
    then have c: "unsat_count (clauses s') + 1 = unsat_count (clauses s)" using uc by simp
    then have "0 < unat (n_unsat_clauses s)" using g by (simp add: globals_ok_def)
    then have "unat (n_unsat_clauses s - 1) = unat (n_unsat_clauses s) - 1"
      by (rule unat_minus_one_pos)
    then show ?thesis using g True r(6) c f1 by (simp add: globals_ok_def)
  next
    case False
    then have "unsat_count (clauses s') = unsat_count (clauses s)" using uc by auto
    then show ?thesis using g False r(6) f1 by (auto simp: globals_ok_def)
  qed
  then show "globals_ok s'"
    using g sc r(5) by (simp add: globals_ok_def)
qed

subsection \<open>Flags ahead of the counters\<close>

lemma for_each_todo:
  assumes "for_each body xs s = Inr s'" and "I xs s"
    and "\<And>x rest t t'. I (x # rest) t \<Longrightarrow> body t x = Inr t' \<Longrightarrow> I rest t'"
  shows "I [] s'"
  using assms(1,2)
proof (induction xs arbitrary: s)
  case Nil
  then show ?case by simp
next
  case (Cons x xs)
  from Cons.prems(1) obtain t where t: "body s x = Inr t" and r: "for_each body xs t = Inr s'"
    by (auto split: sum.splits)
  from assms(3) [OF Cons.prems(2) t] have "I xs t" .
  with r show ?case by (rule Cons.IH)
qed

text \<open>The clauses that hold a literal.\<close>

definition occ :: "Solver \<Rightarrow> Literal \<Rightarrow> nat set" where
  "occ s l = {i. i < length (clauses s) \<and> l \<in> set (clause_lits (clauses s ! i))}"

lemma occ_cont:
  assumes "well_formed s" and "unat l < length (lits s)"
  shows "set (cont_clauses (lits s ! unat l)) = occ s l"
  using well_formedD(8) [OF assms] by (auto simp: occ_def)

lemma occ_static:
  assumes "static_part t = static_part s"
  shows "occ t l = occ s l"
  using static_part_nth(1) [OF assms] static_partD(8) [OF assms] by (auto simp: occ_def)

lemma counters_lag_flags:
  assumes wf: "well_formed s" and fa: "flags_assign (lits s) (lits t) l"
    and cs: "clauses t = clauses s"
  shows "counters_lag t (occ s l) (occ s (negate l)) \<longleftrightarrow> counters_lag s {} {}"
proof -
  have c: "count_true (lits t) (clause_lits (clauses s ! i))
        = count_true (lits s) (clause_lits (clauses s ! i)) + (if i \<in> occ s l then 1 else 0)"
    "count_false (lits t) (clause_lits (clauses s ! i))
        = count_false (lits s) (clause_lits (clauses s ! i))
          + (if i \<in> occ s (negate l) then 1 else 0)"
    "count_free (lits s) (clause_lits (clauses s ! i))
        = count_free (lits t) (clause_lits (clauses s ! i)) + (if i \<in> occ s l then 1 else 0)
          + (if i \<in> occ s (negate l) then 1 else 0)"
    if i: "i < length (clauses s)" for i
  proof -
    have d: "distinct (clause_lits (clauses s ! i))" by (rule well_formedD(4) [OF wf i])
    have r: "\<forall>x \<in> set (clause_lits (clauses s ! i)). unat x < length (lits s)"
      using well_formedD(5) [OF wf i] by blast
    note f = flags_assign_counts [OF fa d r]
    show "count_true (lits t) (clause_lits (clauses s ! i))
        = count_true (lits s) (clause_lits (clauses s ! i)) + (if i \<in> occ s l then 1 else 0)"
      using f(1) i by (simp add: occ_def)
    show "count_false (lits t) (clause_lits (clauses s ! i))
        = count_false (lits s) (clause_lits (clauses s ! i))
          + (if i \<in> occ s (negate l) then 1 else 0)"
      using f(2) i by (simp add: occ_def)
    show "count_free (lits s) (clause_lits (clauses s ! i))
        = count_free (lits t) (clause_lits (clauses s ! i)) + (if i \<in> occ s l then 1 else 0)
          + (if i \<in> occ s (negate l) then 1 else 0)"
      using f(3) i by (simp add: occ_def)
  qed
  show ?thesis
    unfolding counters_lag_def cs
    by (intro all_cong1 imp_cong refl) (simp add: c)
qed

subsection \<open>Setting and clearing the flags of a variable\<close>

definition set_flags :: "LitState list \<Rightarrow> Literal \<Rightarrow> LitState list" where
  "set_flags ls l =
     (ls[unat l := (ls ! unat l)\<lparr>fixed := True, assigned := True\<rparr>])
       [unat (negate l) := (ls ! unat (negate l))\<lparr>fixed := True, assigned := False\<rparr>]"

definition clear_flags :: "LitState list \<Rightarrow> Literal \<Rightarrow> LitState list" where
  "clear_flags ls l =
     (ls[unat l := (ls ! unat l)\<lparr>fixed := False\<rparr>])
       [unat (negate l) := (ls ! unat (negate l))\<lparr>fixed := False\<rparr>]"

lemma set_flags_simps [simp]:
  "length (set_flags ls l) = length ls"
  "map cont_clauses (set_flags ls l) = map cont_clauses ls"
  by (auto simp: set_flags_def map_update_same)

lemma set_flags_cont [simp]:
  "k < length ls \<Longrightarrow> cont_clauses (set_flags ls l ! k) = cont_clauses (ls ! k)"
proof -
  assume k: "k < length ls"
  then have "cont_clauses (set_flags ls l ! k) = map cont_clauses (set_flags ls l) ! k"
    by (simp del: set_flags_simps(2))
  also have "\<dots> = cont_clauses (ls ! k)"
    using k by simp
  finally show ?thesis .
qed

lemma clear_flags_simps [simp]:
  "length (clear_flags ls l) = length ls"
  "map cont_clauses (clear_flags ls l) = map cont_clauses ls"
  by (auto simp: clear_flags_def map_update_same)

lemma clear_flags_cont [simp]:
  "k < length ls \<Longrightarrow> cont_clauses (clear_flags ls l ! k) = cont_clauses (ls ! k)"
proof -
  assume k: "k < length ls"
  then have "cont_clauses (clear_flags ls l ! k) = map cont_clauses (clear_flags ls l) ! k"
    by (simp del: clear_flags_simps(2))
  also have "\<dots> = cont_clauses (ls ! k)"
    using k by simp
  finally show ?thesis .
qed

lemma flags_assign_set_flags:
  assumes "unat l < length ls" and "unat (negate l) < length ls"
    and "\<not> fixed (ls ! unat l)" and "\<not> fixed (ls ! unat (negate l))"
  shows "flags_assign ls (set_flags ls l) l"
  using assms
  by (simp add: flags_assign_def set_flags_def lit_true_def lit_false_def lit_free_def)

lemma flags_assign_clear_flags:
  assumes "unat l < length ls" and "unat (negate l) < length ls"
    and "lit_true ls l" and "lit_false ls (negate l)"
  shows "flags_assign (clear_flags ls l) ls l"
  using assms
  by (simp add: flags_assign_def clear_flags_def lit_true_def lit_false_def lit_free_def)

lemma make_assignment_result:
  assumes "make_assignment s l = Inr s'"
  obtains s2 where "unat l < length (lits s)" and "unat (negate l) < length (lits s)"
    and "\<not> fixed (lits s ! unat l)" and "\<not> fixed (lits s ! unat (negate l))"
    and "for_each add_true_assignment (cont_clauses (lits s ! unat l))
           (s\<lparr>lits := set_flags (lits s) l\<rparr>) = Inr s2"
    and "for_each add_false_assignment (cont_clauses (lits s ! unat (negate l))) s2 = Inr s'"
proof -
  let ?ls1 = "(lits s)[unat l := (lits s ! unat l)\<lparr>fixed := True, assigned := True\<rparr>]"
  let ?ls2 = "?ls1[unat (negate l) := (?ls1 ! unat (negate l))\<lparr>fixed := True, assigned := False\<rparr>]"
  from assms have r: "unat l < length (lits s)" "unat (negate l) < length (lits s)"
    "\<not> fixed (lits s ! unat l)" "\<not> fixed (lits s ! unat (negate l))"
    by (auto simp: make_assignment_def Let_def split: if_splits)
  from assms r obtain s2 where
    a: "for_each add_true_assignment (cont_clauses (?ls2 ! unat l)) (s\<lparr>lits := ?ls2\<rparr>) = Inr s2"
    and b: "for_each add_false_assignment (cont_clauses (?ls2 ! unat (negate l))) s2 = Inr s'"
    by (auto simp: make_assignment_def Let_def split: sum.splits)
  have e: "?ls2 = set_flags (lits s) l"
    by (simp add: set_flags_def)
  have "cont_clauses (?ls2 ! unat l) = cont_clauses (lits s ! unat l)"
    "cont_clauses (?ls2 ! unat (negate l)) = cont_clauses (lits s ! unat (negate l))"
    using r unfolding e by simp_all
  with a b r e show thesis by (intro that [of s2]) simp_all
qed

lemma undo_assignment_result:
  assumes "undo_assignment s l = Inr s'"
  obtains s1 s2 where "unat l < length (lits s)" and "unat (negate l) < length (lits s)"
    and "lit_true (lits s) l" and "lit_false (lits s) (negate l)"
    and "for_each undo_true_assignment (cont_clauses (lits s ! unat l)) s = Inr s1"
    and "for_each undo_false_assignment (cont_clauses (lits s ! unat (negate l))) s1 = Inr s2"
    and "s' = s2\<lparr>lits := clear_flags (lits s2) l\<rparr>"
proof -
  from assms have r: "unat l < length (lits s)" "unat (negate l) < length (lits s)"
    "lit_true (lits s) l" "lit_false (lits s) (negate l)"
    by (auto simp: undo_assignment_def Let_def lit_true_def lit_false_def split: if_splits)
  from assms r obtain s1 s2 where
    a: "for_each undo_true_assignment (cont_clauses (lits s ! unat l)) s = Inr s1"
    and b: "for_each undo_false_assignment (cont_clauses (lits s ! unat (negate l))) s1 = Inr s2"
    and c: "s' = s2\<lparr>lits := ((lits s2)[unat l := (lits s2 ! unat l)\<lparr>fixed := False\<rparr>])
          [unat (negate l) := (((lits s2)[unat l := (lits s2 ! unat l)\<lparr>fixed := False\<rparr>])
              ! unat (negate l))\<lparr>fixed := False\<rparr>]\<rparr>"
    by (auto simp: undo_assignment_def Let_def split: if_splits sum.splits)
  have "s' = s2\<lparr>lits := clear_flags (lits s2) l\<rparr>"
    unfolding c by (simp add: clear_flags_def)
  with a b r show thesis by (intro that [of s1 s2]) simp_all
qed

subsection \<open>Truth under a total assignment\<close>

text \<open>A total assignment gives a truth value to every variable index
  \<^verbatim>\<open>lit >> 1\<close>; a literal with its low bit set is the negative one.\<close>

definition holds :: "(nat \<Rightarrow> bool) \<Rightarrow> Literal \<Rightarrow> bool" where
  "holds \<alpha> l \<longleftrightarrow> (\<alpha> (unat (drop_bit 1 l)) \<longleftrightarrow> \<not> bit l 0)"

definition agrees :: "(nat \<Rightarrow> bool) \<Rightarrow> LitState list \<Rightarrow> bool" where
  "agrees \<alpha> ls \<longleftrightarrow>
     (\<forall>l. unat l < length ls \<longrightarrow>
        (lit_true ls l \<longrightarrow> holds \<alpha> l) \<and> (lit_false ls l \<longrightarrow> \<not> holds \<alpha> l))"

definition sat_all :: "(nat \<Rightarrow> bool) \<Rightarrow> Solver \<Rightarrow> bool" where
  "sat_all \<alpha> s \<longleftrightarrow>
     (\<forall>i < length (clauses s). \<exists>x \<in> set (clause_lits (clauses s ! i)). holds \<alpha> x)"

definition units_hold :: "(nat \<Rightarrow> bool) \<Rightarrow> Solver \<Rightarrow> bool" where
  "units_hold \<alpha> s \<longleftrightarrow> (\<forall>j < unat (n_units s). holds \<alpha> (unit_stack s ! j))"

lemma holds_negate [simp]: "holds \<alpha> (negate l) \<longleftrightarrow> \<not> holds \<alpha> l"
proof -
  have "drop_bit 1 (l XOR 1) = drop_bit 1 l"
    by (rule bit_eqI) (simp add: bit_simps)
  moreover have "bit (l XOR 1) 0 \<longleftrightarrow> \<not> bit l 0"
    by (simp add: bit_0 even_xor_iff)
  ultimately show ?thesis by (auto simp: holds_def negate_def)
qed

lemma sat_all_static:
  assumes "static_part t = static_part s"
  shows "sat_all \<alpha> t = sat_all \<alpha> s"
  using static_part_nth(1) [OF assms] static_partD(8) [OF assms] by (simp add: sat_all_def)

lemma agrees_flags_assign:
  assumes "flags_assign ls ls' l" and "agrees \<alpha> ls" and "holds \<alpha> l"
  shows "agrees \<alpha> ls'"
  unfolding agrees_def
proof (intro allI impI)
  fix x :: Literal assume "unat x < length ls'"
  then have x: "unat x < length ls" using assms(1) by (simp add: flags_assign_def)
  show "(lit_true ls' x \<longrightarrow> holds \<alpha> x) \<and> (lit_false ls' x \<longrightarrow> \<not> holds \<alpha> x)"
  proof (cases "x = l \<or> x = negate l")
    case True
    then show ?thesis
      using assms(1,3) by (auto simp: flags_assign_def lit_true_def lit_false_def)
  next
    case False
    then show ?thesis
      using flags_assign_other [OF assms(1) x] assms(2) x by (simp add: agrees_def)
  qed
qed

lemma agrees_flags_undo:
  assumes "flags_assign ls ls' l" and "agrees \<alpha> ls'"
  shows "agrees \<alpha> ls"
  unfolding agrees_def
proof (intro allI impI)
  fix x :: Literal assume x: "unat x < length ls"
  show "(lit_true ls x \<longrightarrow> holds \<alpha> x) \<and> (lit_false ls x \<longrightarrow> \<not> holds \<alpha> x)"
  proof (cases "x = l \<or> x = negate l")
    case True
    then show ?thesis
      using assms(1) by (auto simp: flags_assign_def lit_true_def lit_false_def lit_free_def)
  next
    case False
    then show ?thesis
      using flags_assign_other [OF assms(1) x] assms(1,2) x
      by (simp add: agrees_def flags_assign_def)
  qed
qed

text \<open>A clause with no true literal and one free literal forces that literal.\<close>

lemma filter_single:
  assumes "length (filter P xs) = 1" and "x \<in> set xs" and "P x" and "y \<in> set xs" and "P y"
  shows "x = y"
proof -
  from assms(1) obtain z where z: "filter P xs = [z]"
    by (cases "filter P xs") auto
  have "x \<in> set (filter P xs)" "y \<in> set (filter P xs)" using assms by simp_all
  then show ?thesis unfolding z by simp
qed

lemma unit_forced:
  assumes ag: "agrees \<alpha> ls" and r: "\<forall>x \<in> set xs. unat x < length ls"
    and t: "count_true ls xs = 0" and f: "count_free ls xs = 1"
    and sat: "\<exists>x \<in> set xs. holds \<alpha> x"
    and u: "get_unit_scan ls xs = Inr u"
  shows "holds \<alpha> u"
proof -
  from sat obtain x where x: "x \<in> set xs" "holds \<alpha> x" by blast
  have xr: "unat x < length ls" using r x(1) by blast
  have "\<not> lit_true ls x" using count_true_zero [OF t x(1)] .
  moreover have "\<not> lit_false ls x" using ag xr x(2) by (auto simp: agrees_def)
  ultimately have xf: "lit_free ls x"
    by (auto simp: lit_true_def lit_false_def lit_free_def)
  from u have "u = (case find (\<lambda>l. \<not> fixed (ls ! unat l)) xs of Some l \<Rightarrow> l | None \<Rightarrow> - 1)"
    by (simp add: get_unit_scan_find [OF r])
  moreover have "find (\<lambda>l. \<not> fixed (ls ! unat l)) xs \<noteq> None"
    using x(1) xf by (auto simp: find_None_iff lit_free_def)
  ultimately obtain v where v: "find (\<lambda>l. \<not> fixed (ls ! unat l)) xs = Some v" "u = v"
    by auto
  from v(1) have "v \<in> set xs" "lit_free ls v"
    by (auto simp: find_Some_iff lit_free_def)
  with f x(1) xf have "x = v"
    unfolding count_free_def by (intro filter_single [of "lit_free ls" xs]) simp_all
  with x(2) v(2) show ?thesis by simp
qed

lemma add_false_assignment_units:
  assumes "add_false_assignment s i = Inr s'"
  shows "(n_units s' = n_units s \<and> unit_stack s' = unit_stack s) \<or>
         (\<exists>u. n_assigned_true (clauses s' ! i) = 0 \<and> n_free_lits (clauses s' ! i) = 1 \<and>
              get_unit_scan (lits s) (clause_lits (clauses s ! i)) = Inr u \<and>
              unit_stack s' = (unit_stack s)[unat (n_units s) := u] \<and>
              n_units s' = n_units s + 1 \<and> unat (n_units s) < length (unit_stack s))"
  using assms
  by (auto simp: add_false_assignment_def Let_def get_unit_def split: if_splits sum.splits)

lemma units_hold_push:
  assumes "units_hold \<alpha> s" and "holds \<alpha> u"
    and "unit_stack s' = (unit_stack s)[unat (n_units s) := u]"
    and "n_units s' = n_units s + 1" and "unat (n_units s) < length (unit_stack s)"
  shows "units_hold \<alpha> s'"
  unfolding units_hold_def
proof (intro allI impI)
  fix j assume "j < unat (n_units s')"
  moreover have "unat (n_units s + 1) \<le> unat (n_units s) + 1"
  proof -
    have "unat (n_units s + 1) = (unat (n_units s) + unat (1 :: u32)) mod 2 ^ LENGTH(32)"
      by (rule unat_word_ariths(1))
    also have "\<dots> \<le> unat (n_units s) + unat (1 :: u32)"
      by (rule mod_less_eq_dividend)
    finally show ?thesis by simp
  qed
  ultimately have "j \<le> unat (n_units s)" using assms(4) by simp
  then show "holds \<alpha> (unit_stack s' ! j)"
    using assms(1,2,3,5) by (cases "j = unat (n_units s)") (auto simp: units_hold_def)
qed

subsection \<open>The counters after an assignment\<close>

text \<open>The clause counters are the counts of the true, the false and the free literals of
  the clause (so C0 holds), and the global counters count the clauses.\<close>

definition counters_ok :: "Solver \<Rightarrow> bool" where
  "counters_ok s \<longleftrightarrow> well_formed s \<and> counters_lag s {} {} \<and> globals_ok s"

lemma add_true_loop:
  assumes run: "for_each add_true_assignment xs s = Inr s'"
    and wf: "well_formed s" and lag: "counters_lag s (set xs) DF" and d: "distinct xs"
    and g: "globals_ok s"
  shows "counters_lag s' {} DF \<and> globals_ok s' \<and> lits s' = lits s \<and>
         static_part s' = static_part s \<and> n_units s' = n_units s \<and>
         unit_stack s' = unit_stack s \<and> n_assigned s' = n_assigned s \<and>
         assigned_trail s' = assigned_trail s"
proof -
  define I where "I todo t \<longleftrightarrow>
      counters_lag t (set todo) DF \<and> distinct todo \<and> globals_ok t \<and> lits t = lits s \<and>
      static_part t = static_part s \<and> n_units t = n_units s \<and>
      unit_stack t = unit_stack s \<and> n_assigned t = n_assigned s \<and>
      assigned_trail t = assigned_trail s" for todo t
  have "I [] s'"
  proof (rule for_each_todo [OF run, of I])
    show "I xs s" using lag d g by (simp add: I_def)
  next
    fix x rest t t'
    assume inv: "I (x # rest) t" and step: "add_true_assignment t x = Inr t'"
    from inv have st: "static_part t = static_part s" by (simp add: I_def)
    have wft: "well_formed t" by (rule well_formed_static [OF st wf])
    from inv have l: "counters_lag t (insert x (set rest)) DF" and nx: "x \<notin> set rest"
      and gt: "globals_ok t" by (simp_all add: I_def)
    note r = add_true_assignment_result [OF step]
    have "counters_lag t' (set rest) DF" "globals_ok t'"
      by (rule add_true_step [OF wft l nx gt step])+
    moreover have "static_part t' = static_part s"
      using add_true_assignment_static [OF step] st by simp
    moreover have "lits t' = lits t" "n_units t' = n_units t" "unit_stack t' = unit_stack t"
      "n_assigned t' = n_assigned t" "assigned_trail t' = assigned_trail t"
      by (subst r(3), simp)+
    ultimately show "I rest t'" using inv by (simp add: I_def)
  qed
  then show ?thesis by (simp add: I_def)
qed

lemma add_false_loop:
  assumes run: "for_each add_false_assignment xs s = Inr s'"
    and wf: "well_formed s" and lag: "counters_lag s {} (set xs)" and d: "distinct xs"
    and g: "globals_ok s"
    and ne: "\<forall>i \<in> set xs. clause_lits (clauses s ! i) \<noteq> []"
  shows "counters_lag s' {} {} \<and> globals_ok s' \<and> lits s' = lits s \<and>
         static_part s' = static_part s \<and> n_assigned s' = n_assigned s \<and>
         assigned_trail s' = assigned_trail s \<and>
         (sat_all \<alpha> s \<and> agrees \<alpha> (lits s) \<and> units_hold \<alpha> s \<longrightarrow> units_hold \<alpha> s')"
proof -
  define I where "I todo t \<longleftrightarrow>
      counters_lag t {} (set todo) \<and> distinct todo \<and> globals_ok t \<and> lits t = lits s \<and>
      static_part t = static_part s \<and> n_assigned t = n_assigned s \<and>
      assigned_trail t = assigned_trail s \<and>
      (sat_all \<alpha> s \<and> agrees \<alpha> (lits s) \<and> units_hold \<alpha> s \<longrightarrow> units_hold \<alpha> t) \<and>
      (\<forall>i \<in> set todo. clause_lits (clauses s ! i) \<noteq> [])" for todo t
  have "I [] s'"
  proof (rule for_each_todo [OF run, of I])
    show "I xs s" using lag d g ne by (simp add: I_def)
  next
    fix x rest t t'
    assume inv: "I (x # rest) t" and step: "add_false_assignment t x = Inr t'"
    from inv have st: "static_part t = static_part s" and lt: "lits t = lits s"
      by (simp_all add: I_def)
    have wft: "well_formed t" by (rule well_formed_static [OF st wf])
    from inv have l: "counters_lag t {} (insert x (set rest))" and nx: "x \<notin> set rest"
      and gt: "globals_ok t" and nes: "clause_lits (clauses s ! x) \<noteq> []"
      by (simp_all add: I_def)
    note r = add_false_assignment_result [OF step]
    have xs: "x < length (clauses s)" using r(1) static_partD(8) [OF st] by simp
    have cl: "clause_lits (clauses t ! x) = clause_lits (clauses s ! x)"
      by (rule static_part_nth(1) [OF st xs])
    have lag': "counters_lag t' {} (set rest)" and g': "globals_ok t'"
      using add_false_step [OF wft l nx _ gt step] nes cl by simp_all
    have st': "static_part t' = static_part s"
      using add_false_assignment_static [OF step] st by simp
    have cl': "clause_lits (clauses t' ! x) = clause_lits (clauses s ! x)"
      by (rule static_part_nth(1) [OF st' xs])
    have u: "units_hold \<alpha> t'"
      if sat: "sat_all \<alpha> s" and ag: "agrees \<alpha> (lits s)" and uh: "units_hold \<alpha> s"
    proof -
      from inv sat ag uh have uht: "units_hold \<alpha> t" by (simp add: I_def)
      from add_false_assignment_units [OF step] show ?thesis
      proof (elim disjE exE conjE)
        assume "n_units t' = n_units t" "unit_stack t' = unit_stack t"
        with uht show ?thesis by (simp add: units_hold_def)
      next
        fix u
        assume nt: "n_assigned_true (clauses t' ! x) = 0"
          and nf: "n_free_lits (clauses t' ! x) = 1"
          and gu: "get_unit_scan (lits t) (clause_lits (clauses t ! x)) = Inr u"
          and us: "unit_stack t' = (unit_stack t)[unat (n_units t) := u]"
          and nu: "n_units t' = n_units t + 1"
          and room: "unat (n_units t) < length (unit_stack t)"
        have x': "x < length (clauses t')" using xs static_partD(8) [OF st'] by simp
        note L = counters_lagD [OF lag' x']
        have ct: "count_true (lits s) (clause_lits (clauses s ! x)) = 0"
          using L(1) nt r(4) lt cl' by simp
        have cf: "count_free (lits s) (clause_lits (clauses s ! x)) = 1"
          using L(3) nf nx r(4) lt cl' by simp
        have rng: "\<forall>y \<in> set (clause_lits (clauses s ! x)). unat y < length (lits s)"
          using well_formedD(5) [OF wf xs] by blast
        have ex: "\<exists>y \<in> set (clause_lits (clauses s ! x)). holds \<alpha> y"
          using sat xs by (simp add: sat_all_def)
        have "holds \<alpha> u"
          using gu unfolding lt cl by (rule unit_forced [OF ag rng ct cf ex])
        then show ?thesis by (rule units_hold_push [OF uht _ us nu room])
      qed
    qed
    show "I rest t'"
      using inv lag' g' st' r(4,7,8) u by (simp add: I_def)
  qed
  then show ?thesis by (simp add: I_def)
qed

lemma undo_true_loop:
  assumes run: "for_each undo_true_assignment xs s = Inr s'"
    and wf: "well_formed s" and lag: "counters_lag s {} DF" and d: "distinct xs"
    and g: "globals_ok s"
    and pos: "\<forall>i \<in> set xs. 0 < count_true (lits s) (clause_lits (clauses s ! i))"
  shows "counters_lag s' (set xs) DF \<and> globals_ok s' \<and> lits s' = lits s \<and>
         static_part s' = static_part s"
proof -
  define I where "I todo t \<longleftrightarrow>
      counters_lag t (set xs - set todo) DF \<and> distinct todo \<and> set todo \<subseteq> set xs \<and>
      globals_ok t \<and> lits t = lits s \<and> static_part t = static_part s" for todo t
  have "I [] s'"
  proof (rule for_each_todo [OF run, of I])
    show "I xs s" using lag d g by (simp add: I_def)
  next
    fix x rest t t'
    assume inv: "I (x # rest) t" and step: "undo_true_assignment t x = Inr t'"
    from inv have st: "static_part t = static_part s" and lt: "lits t = lits s"
      by (simp_all add: I_def)
    have wft: "well_formed t" by (rule well_formed_static [OF st wf])
    from inv have l: "counters_lag t (set xs - set (x # rest)) DF" and nx: "x \<notin> set rest"
      and xin: "x \<in> set xs" and sub: "set rest \<subseteq> set xs" and dr: "distinct rest"
      and gt: "globals_ok t" by (simp_all add: I_def)
    note r = undo_true_assignment_result [OF step]
    have xs: "x < length (clauses s)" using r(1) static_partD(8) [OF st] by simp
    have cl: "clause_lits (clauses t ! x) = clause_lits (clauses s ! x)"
      by (rule static_part_nth(1) [OF st xs])
    have p: "0 < count_true (lits t) (clause_lits (clauses t ! x))"
      using pos xin by (simp add: lt cl)
    have nin: "x \<notin> set xs - set (x # rest)" by simp
    have e: "insert x (set xs - set (x # rest)) = set xs - set rest"
      using xin nx by auto
    have "counters_lag t' (set xs - set rest) DF" "globals_ok t'"
      using undo_true_step [OF wft l nin p gt step] unfolding e by simp_all
    moreover have "static_part t' = static_part s"
      using undo_true_assignment_static [OF step] st by simp
    ultimately show "I rest t'" using dr sub lt r(4) by (simp add: I_def)
  qed
  then show ?thesis by (simp add: I_def)
qed

lemma undo_false_loop:
  assumes run: "for_each undo_false_assignment xs s = Inr s'"
    and wf: "well_formed s" and lag: "counters_lag s DT {}" and d: "distinct xs"
    and g: "globals_ok s"
    and pos: "\<forall>i \<in> set xs. 0 < count_false (lits s) (clause_lits (clauses s ! i))"
  shows "counters_lag s' DT (set xs) \<and> globals_ok s' \<and> lits s' = lits s \<and>
         static_part s' = static_part s"
proof -
  define I where "I todo t \<longleftrightarrow>
      counters_lag t DT (set xs - set todo) \<and> distinct todo \<and> set todo \<subseteq> set xs \<and>
      globals_ok t \<and> lits t = lits s \<and> static_part t = static_part s" for todo t
  have "I [] s'"
  proof (rule for_each_todo [OF run, of I])
    show "I xs s" using lag d g by (simp add: I_def)
  next
    fix x rest t t'
    assume inv: "I (x # rest) t" and step: "undo_false_assignment t x = Inr t'"
    from inv have st: "static_part t = static_part s" and lt: "lits t = lits s"
      by (simp_all add: I_def)
    have wft: "well_formed t" by (rule well_formed_static [OF st wf])
    from inv have l: "counters_lag t DT (set xs - set (x # rest))" and nx: "x \<notin> set rest"
      and xin: "x \<in> set xs" and sub: "set rest \<subseteq> set xs" and dr: "distinct rest"
      and gt: "globals_ok t" by (simp_all add: I_def)
    note r = undo_false_assignment_result [OF step]
    have xs: "x < length (clauses s)" using r(1) static_partD(8) [OF st] by simp
    have cl: "clause_lits (clauses t ! x) = clause_lits (clauses s ! x)"
      by (rule static_part_nth(1) [OF st xs])
    have p: "0 < count_false (lits t) (clause_lits (clauses t ! x))"
      using pos xin by (simp add: lt cl)
    have nin: "x \<notin> set xs - set (x # rest)" by simp
    have e: "insert x (set xs - set (x # rest)) = set xs - set rest"
      using xin nx by auto
    have "counters_lag t' DT (set xs - set rest)" "globals_ok t'"
      using undo_false_step [OF wft l nin p gt step] unfolding e by simp_all
    moreover have "static_part t' = static_part s"
      using undo_false_assignment_static [OF step] st by simp
    ultimately show "I rest t'" using dr sub lt r(4) by (simp add: I_def)
  qed
  then show ?thesis by (simp add: I_def)
qed

lemma globals_ok_lits [simp]: "globals_ok (s\<lparr>lits := ls\<rparr>) = globals_ok s"
  by (simp add: globals_ok_def)

lemma units_hold_lits [simp]: "units_hold \<alpha> (s\<lparr>lits := ls\<rparr>) = units_hold \<alpha> s"
  by (simp add: units_hold_def)

lemma static_part_lits:
  "map cont_clauses ls = map cont_clauses (lits s) \<Longrightarrow>
   static_part (s\<lparr>lits := ls\<rparr>) = static_part s"
  by (simp add: static_part_def)

lemma make_assignment_counters:
  assumes ok: "counters_ok s" and run: "make_assignment s l = Inr s'"
  shows "counters_ok s' \<and> flags_assign (lits s) (lits s') l \<and>
         static_part s' = static_part s \<and> n_assigned s' = n_assigned s \<and>
         assigned_trail s' = assigned_trail s \<and>
         (sat_all \<alpha> s \<and> agrees \<alpha> (lits s') \<and> units_hold \<alpha> s \<longrightarrow> units_hold \<alpha> s')"
proof -
  from ok have wf: "well_formed s" and lag: "counters_lag s {} {}" and g: "globals_ok s"
    by (simp_all add: counters_ok_def)
  let ?t = "s\<lparr>lits := set_flags (lits s) l\<rparr>"
  from run obtain s2 where rl: "unat l < length (lits s)"
    and rn: "unat (negate l) < length (lits s)"
    and f1: "\<not> fixed (lits s ! unat l)" and f2: "\<not> fixed (lits s ! unat (negate l))"
    and run1: "for_each add_true_assignment (cont_clauses (lits s ! unat l)) ?t = Inr s2"
    and run2: "for_each add_false_assignment (cont_clauses (lits s ! unat (negate l))) s2
                 = Inr s'"
    by (rule make_assignment_result)
  have fa: "flags_assign (lits s) (lits ?t) l"
    using flags_assign_set_flags [OF rl rn f1 f2] by simp
  have st: "static_part ?t = static_part s" by (rule static_part_lits) simp
  have wft: "well_formed ?t" by (rule well_formed_static [OF st wf])
  have lagt: "counters_lag ?t (set (cont_clauses (lits s ! unat l)))
      (set (cont_clauses (lits s ! unat (negate l))))"
    using counters_lag_flags [OF wf fa] lag occ_cont [OF wf rl] occ_cont [OF wf rn] by simp
  have d1: "distinct (cont_clauses (lits s ! unat l))" by (rule well_formedD(7) [OF wf rl])
  have d2: "distinct (cont_clauses (lits s ! unat (negate l)))"
    by (rule well_formedD(7) [OF wf rn])
  have gt: "globals_ok ?t" using g by simp
  note A = add_true_loop [OF run1 wft lagt d1 gt]
  from A have st2: "static_part s2 = static_part s" using st by simp
  have wf2: "well_formed s2" by (rule well_formed_static [OF st2 wf])
  have ne: "\<forall>i \<in> set (cont_clauses (lits s ! unat (negate l))).
      clause_lits (clauses s2 ! i) \<noteq> []"
  proof
    fix i assume "i \<in> set (cont_clauses (lits s ! unat (negate l)))"
    then have i: "i < length (clauses s)" "negate l \<in> set (clause_lits (clauses s ! i))"
      using well_formedD(8) [OF wf rn] by simp_all
    then show "clause_lits (clauses s2 ! i) \<noteq> []"
      using static_part_nth(1) [OF st2 i(1)] by auto
  qed
  note B = add_false_loop [OF run2 wf2 _ d2 _ ne, of \<alpha>]
  have B': "counters_lag s' {} {} \<and> globals_ok s' \<and> lits s' = lits s2 \<and>
         static_part s' = static_part s2 \<and> n_assigned s' = n_assigned s2 \<and>
         assigned_trail s' = assigned_trail s2 \<and>
         (sat_all \<alpha> s2 \<and> agrees \<alpha> (lits s2) \<and> units_hold \<alpha> s2 \<longrightarrow> units_hold \<alpha> s')"
    using A by (intro B) simp_all
  have l2: "lits s2 = set_flags (lits s) l" using A by simp
  have st': "static_part s' = static_part s" using B' st2 by simp
  have "well_formed s'" by (rule well_formed_static [OF st' wf])
  moreover have "flags_assign (lits s) (lits s') l" using fa B' l2 by simp
  moreover have "units_hold \<alpha> s'"
    if "sat_all \<alpha> s" "agrees \<alpha> (lits s')" "units_hold \<alpha> s"
  proof -
    have "sat_all \<alpha> s2" using that(1) sat_all_static [OF st2] by simp
    moreover have "agrees \<alpha> (lits s2)" using that(2) B' by simp
    moreover have "units_hold \<alpha> s2" using that(3) A by (simp add: units_hold_def)
    ultimately show ?thesis using B' by blast
  qed
  ultimately show ?thesis using B' A st' by (simp add: counters_ok_def)
qed

lemma undo_assignment_counters:
  assumes ok: "counters_ok s" and run: "undo_assignment s l = Inr s'"
  shows "counters_ok s' \<and> flags_assign (lits s') (lits s) l \<and>
         static_part s' = static_part s"
proof -
  from ok have wf: "well_formed s" and lag: "counters_lag s {} {}" and g: "globals_ok s"
    by (simp_all add: counters_ok_def)
  from run obtain s1 s2 where rl: "unat l < length (lits s)"
    and rn: "unat (negate l) < length (lits s)"
    and tl: "lit_true (lits s) l" and fl: "lit_false (lits s) (negate l)"
    and run1: "for_each undo_true_assignment (cont_clauses (lits s ! unat l)) s = Inr s1"
    and run2: "for_each undo_false_assignment (cont_clauses (lits s ! unat (negate l))) s1
                 = Inr s2"
    and s': "s' = s2\<lparr>lits := clear_flags (lits s2) l\<rparr>"
    by (rule undo_assignment_result)
  have d1: "distinct (cont_clauses (lits s ! unat l))" by (rule well_formedD(7) [OF wf rl])
  have d2: "distinct (cont_clauses (lits s ! unat (negate l)))"
    by (rule well_formedD(7) [OF wf rn])
  have pos1: "\<forall>i \<in> set (cont_clauses (lits s ! unat l)).
      0 < count_true (lits s) (clause_lits (clauses s ! i))"
    using well_formedD(8) [OF wf rl] tl by (auto intro: count_true_pos)
  note A = undo_true_loop [OF run1 wf lag d1 g pos1]
  from A have st1: "static_part s1 = static_part s" and l1: "lits s1 = lits s" by simp_all
  have wf1: "well_formed s1" by (rule well_formed_static [OF st1 wf])
  have pos2: "\<forall>i \<in> set (cont_clauses (lits s ! unat (negate l))).
      0 < count_false (lits s1) (clause_lits (clauses s1 ! i))"
  proof
    fix i assume "i \<in> set (cont_clauses (lits s ! unat (negate l)))"
    then have i: "i < length (clauses s)" "negate l \<in> set (clause_lits (clauses s ! i))"
      using well_formedD(8) [OF wf rn] by simp_all
    then show "0 < count_false (lits s1) (clause_lits (clauses s1 ! i))"
      using static_part_nth(1) [OF st1 i(1)] fl l1 by (auto intro: count_false_pos)
  qed
  have B: "counters_lag s2 (set (cont_clauses (lits s ! unat l)))
             (set (cont_clauses (lits s ! unat (negate l)))) \<and>
           globals_ok s2 \<and> lits s2 = lits s1 \<and> static_part s2 = static_part s1"
    using A by (intro undo_false_loop [OF run2 wf1 _ d2 _ pos2]) simp_all
  from B have l2: "lits s2 = lits s" and st2: "static_part s2 = static_part s"
    using l1 st1 by simp_all
  have st': "static_part s' = static_part s"
    unfolding s' using st2 static_part_lits [of "clear_flags (lits s2) l" s2] by simp
  have wf': "well_formed s'" by (rule well_formed_static [OF st' wf])
  have fa: "flags_assign (lits s') (lits s2) l"
    unfolding s' using flags_assign_clear_flags [OF rl rn tl fl] l2 by simp
  have cs: "clauses s2 = clauses s'" unfolding s' by simp
  have len: "length (lits s') = length (lits s)" using static_partD(9) [OF st'] .
  have o: "occ s' l = set (cont_clauses (lits s ! unat l))"
    "occ s' (negate l) = set (cont_clauses (lits s ! unat (negate l)))"
    using occ_static [OF st'] occ_cont [OF wf rl] occ_cont [OF wf rn] by simp_all
  have "counters_lag s' {} {}"
    using counters_lag_flags [OF wf' fa cs] B unfolding o by simp
  moreover have "globals_ok s'" unfolding s' using B by simp
  ultimately show ?thesis using wf' fa l2 st' by (simp add: counters_ok_def)
qed

lemma counters_ok_update [simp]:
  "counters_ok (s\<lparr>n_units := a\<rparr>) = counters_ok s"
  "counters_ok (s\<lparr>unit_stack := b\<rparr>) = counters_ok s"
  "counters_ok (s\<lparr>n_assigned := c\<rparr>) = counters_ok s"
  "counters_ok (s\<lparr>assigned_trail := d\<rparr>) = counters_ok s"
  "counters_ok (s\<lparr>t_branches := e\<rparr>) = counters_ok s"
  "counters_ok (s\<lparr>t_unit_props := f\<rparr>) = counters_ok s"
  by (simp_all add: counters_ok_def well_formed_def counters_lag_def globals_ok_def)

lemma only_scores_flags:
  assumes "only_scores s s'" and "unat l < length (lits s)"
  shows "lit_true (lits s') l = lit_true (lits s) l"
    and "lit_false (lits s') l = lit_false (lits s) l"
    and "lit_free (lits s') l = lit_free (lits s) l"
  using unscored_nth [OF only_scoresD(12) [OF assms(1)] assms(2)]
  by (simp_all add: lit_true_def lit_false_def lit_free_def)

lemma only_scores_counts:
  assumes "only_scores s s'" and "\<forall>x \<in> set xs. unat x < length (lits s)"
  shows "count_true (lits s') xs = count_true (lits s) xs"
    and "count_false (lits s') xs = count_false (lits s) xs"
    and "count_free (lits s') xs = count_free (lits s) xs"
  using assms(2) only_scores_flags [OF assms(1)]
  by (auto simp: count_true_def count_false_def count_free_def intro!: arg_cong [of _ _ length]
      filter_cong)

lemma only_scores_counters_ok:
  assumes os: "only_scores s s'" and ok: "counters_ok s"
  shows "counters_ok s'"
proof -
  note d = only_scoresD [OF os]
  from ok have wf: "well_formed s" and lag: "counters_lag s {} {}" and g: "globals_ok s"
    by (simp_all add: counters_ok_def)
  have wf': "well_formed s'"
    by (rule well_formed_static [OF only_scores_static [OF os] wf])
  have "counters_lag s' {} {}"
  proof (rule counters_lagI)
    fix i assume "i < length (clauses s')"
    then have i: "i < length (clauses s)" by (simp add: d(3))
    have r: "\<forall>x \<in> set (clause_lits (clauses s ! i)). unat x < length (lits s)"
      using well_formedD(5) [OF wf i] by blast
    show "unat (n_assigned_true (clauses s' ! i)) + (if i \<in> {} then 1 else 0)
          = count_true (lits s') (clause_lits (clauses s' ! i)) \<and>
      unat (n_assigned_false (clauses s' ! i)) + (if i \<in> {} then 1 else 0)
          = count_false (lits s') (clause_lits (clauses s' ! i)) \<and>
      unat (n_free_lits (clauses s' ! i))
          = count_free (lits s') (clause_lits (clauses s' ! i))
            + (if i \<in> {} then 1 else 0) + (if i \<in> {} then 1 else 0)"
      using counters_lagD [OF lag i] only_scores_counts [OF os r] by (simp add: d(3))
  qed
  moreover have "globals_ok s'" using g by (simp add: globals_ok_def d)
  ultimately show ?thesis using wf' by (simp add: counters_ok_def)
qed

subsection \<open>The counters throughout the search\<close>

lemma propagate_counters_ok:
  assumes "propagate s = Inr (c, s')" and "counters_ok s"
  shows "counters_ok s'"
  using assms
proof (induction rule: propagate_induct)
  case (finished s)
  then show ?case by simp
next
  case (assign s s2 c s')
  have "counters_ok (push_assigned (pop_unit s\<lparr>t_unit_props := t_unit_props s + 1\<rparr>)
      (top_unit s))"
    using assign.prems by (simp add: push_assigned_def pop_unit_def)
  then have "counters_ok s2"
    using make_assignment_counters [OF _ assign.hyps(6), of undefined] by simp
  then show ?case by (rule assign.IH)
next
  case (conflict s)
  then show ?case by simp
next
  case (skip s c s')
  then show ?case by (simp add: pop_unit_def)
qed

lemma backtrack_counters_ok:
  assumes "backtrack s prev = Inr s'" and "counters_ok s"
  shows "counters_ok s'"
  using assms
proof (induction rule: backtrack_induct)
  case (finished s)
  then show ?case by simp
next
  case (undo s s2 s')
  have "counters_ok (s\<lparr>n_assigned := n_assigned s - 1\<rparr>)" using undo.prems by simp
  then have "counters_ok s2"
    using undo_assignment_counters [OF _ undo.hyps(3)] by simp
  then show ?case by (rule undo.IH)
qed

lemma try_start_counters_ok:
  assumes "make_assignment (push_assigned (s\<lparr>t_branches := t_branches s + 1\<rparr>) b) b = Inr s2"
    and "counters_ok s"
  shows "counters_ok s2"
proof -
  have "counters_ok (push_assigned (s\<lparr>t_branches := t_branches s + 1\<rparr>) b)"
    using assms(2) by (simp add: push_assigned_def)
  then show ?thesis using make_assignment_counters [OF _ assms(1), of undefined] by simp
qed

lemma search_try_counters_ok:
  "(search_assignments fuel s = Inr (sol, s') \<longrightarrow> counters_ok s \<longrightarrow> counters_ok s') \<and>
   (try_assignment fuel s b = Inr (sol, s') \<longrightarrow> counters_ok s \<longrightarrow> counters_ok s')"
proof (induction rule: search_try_induct)
  case (contradiction s)
  then show ?case by simp
next
  case (satisfied s)
  then show ?case by simp
next
  case (first n s b s1 sol s')
  then show ?case
    using only_scores_counters_ok [OF choose_branch_only_scores] by blast
next
  case (second n s b s1 s2 sol s')
  then show ?case
    using only_scores_counters_ok [OF choose_branch_only_scores] by blast
next
  case (conflict s b s2 s3 s')
  show ?case
  proof
    assume "counters_ok s"
    then have "counters_ok s2" by (rule try_start_counters_ok [OF conflict(2)])
    then have "counters_ok s3" by (rule propagate_counters_ok [OF conflict(3)])
    then show "counters_ok s'" by (rule backtrack_counters_ok [OF conflict(4)])
  qed
next
  case (failed n s b s2 s3 s4 s')
  show ?case
  proof
    assume "counters_ok s"
    then have "counters_ok s2" by (rule try_start_counters_ok [OF failed(2)])
    then have "counters_ok s3" by (rule propagate_counters_ok [OF failed(3)])
    then have "counters_ok s4" using \<open>counters_ok s3 \<longrightarrow> counters_ok s4\<close> by simp
    then show "counters_ok s'"
      by (rule backtrack_counters_ok [OF \<open>backtrack s4 (n_assigned s) = Inr s'\<close>])
  qed
next
  case (found n s b s2 s3 sol s')
  show ?case
  proof
    assume "counters_ok s"
    then have "counters_ok s2" by (rule try_start_counters_ok [OF found(2)])
    then have "counters_ok s3" by (rule propagate_counters_ok [OF found(3)])
    then show "counters_ok s'" using \<open>counters_ok s3 \<longrightarrow> counters_ok s'\<close> by simp
  qed
qed

lemma search_try_all_satisfied:
  "(search_assignments fuel s = Inr (sol, s') \<longrightarrow>
      sol = SOLUTION_SATISFIABLE \<longrightarrow> all_satisfied s') \<and>
   (try_assignment fuel s b = Inr (sol, s') \<longrightarrow>
      sol = SOLUTION_SATISFIABLE \<longrightarrow> all_satisfied s')"
  by (induction rule: search_try_induct) simp_all

lemma filter_all:
  "length (filter P xs) = length xs \<Longrightarrow> x \<in> set xs \<Longrightarrow> P x"
proof (induction xs)
  case Nil
  then show ?case by simp
next
  case (Cons a xs)
  have le: "length (filter P xs) \<le> length xs" by (rule length_filter_le)
  show ?case
  proof (cases "P a")
    case True
    with Cons show ?thesis by auto
  next
    case False
    with Cons.prems(1) le show ?thesis by simp
  qed
qed

lemma all_satisfied_true:
  assumes ok: "counters_ok s" and sat: "all_satisfied s" and i: "i < length (clauses s)"
  shows "\<exists>l \<in> set (clause_lits (clauses s ! i)). lit_true (lits s) l"
proof -
  from ok have wf: "well_formed s" and lag: "counters_lag s {} {}" and g: "globals_ok s"
    by (simp_all add: counters_ok_def)
  have "sat_count (clauses s) = length (clauses s)"
    using g sat well_formedD(1) [OF wf] by (simp add: globals_ok_def all_satisfied_def)
  then have "n_assigned_true (clauses s ! i) \<noteq> 0"
    unfolding sat_count_def
    using filter_all [of "\<lambda>c. n_assigned_true c \<noteq> 0" "clauses s" "clauses s ! i"] i by simp
  then have "0 < count_true (lits s) (clause_lits (clauses s ! i))"
    using counters_lagD(1) [OF lag i] by (simp add: word_eq_0_unat)
  then show ?thesis
    by (auto simp: count_true_def filter_empty_conv)
qed

subsection \<open>The loaded problem\<close>

definition load_inv :: "Solver \<Rightarrow> bool" where
  "load_inv s \<longleftrightarrow>
     well_formed s \<and>
     (\<forall>c \<in> set (clauses s).
        n_assigned_true c = 0 \<and> n_assigned_false c = 0 \<and> n_free_lits c = n_lits c) \<and>
     (\<forall>x \<in> set (lits s). \<not> fixed x) \<and>
     n_sat_clauses s = 0 \<and> n_unsat_clauses s = 0 \<and> n_assigned s = 0 \<and>
     length (assigned_trail s) = length (lits s)"

lemma create_solver_load_inv:
  assumes "create_solver nv nc = Inr s"
  shows "load_inv s"
  using assms
  by (auto simp: create_solver_def load_inv_def well_formed_def create_clause_state_def
      create_lit_state_def split: if_splits)

lemma distinct_bounded_length:
  fixes xs :: "Literal list"
  assumes "distinct xs" and "\<forall>x \<in> set xs. unat x < N"
  shows "length xs \<le> N"
proof -
  have "length xs = card (set xs)" using assms(1) by (simp add: distinct_card)
  also have "\<dots> = card (unat ` set xs)"
    by (rule card_image [symmetric]) (simp add: inj_on_def word_unat_eq_iff)
  also have "\<dots> \<le> card {..<N}"
    using assms(2) by (intro card_mono) auto
  finally show ?thesis by simp
qed

lemma add_literal_to_clause_new:
  assumes "add_literal_to_clause s ci lit = Inr s'"
    and "lit \<notin> set (clause_lits (clauses s ! ci))"
  shows "ci < length (clauses s)" and "unat lit < length (lits s)"
    and "s' = s\<lparr>clauses := (clauses s)[ci := add_literal (clauses s ! ci) lit],
              lits := (lits s)[unat lit := add_cont_clause (lits s ! unat lit) ci]\<rparr>"
  using assms by (auto simp: add_literal_to_clause_def split: if_splits)

lemma add_literal_to_clause_old:
  assumes "add_literal_to_clause s ci lit = Inr s'"
    and "lit \<in> set (clause_lits (clauses s ! ci))"
  shows "ci < length (clauses s)" and "s' = s"
  using assms by (auto simp: add_literal_to_clause_def split: if_splits)

lemma add_literal_to_clause_well_formed:
  assumes wf: "well_formed s" and run: "add_literal_to_clause s ci lit = Inr s'"
    and new: "lit \<notin> set (clause_lits (clauses s ! ci))"
  shows "well_formed s'"
proof -
  note r = add_literal_to_clause_new [OF run new]
  let ?c = "clauses s ! ci"
  have cl: "clauses s' = (clauses s)[ci := add_literal ?c lit]"
    and ls: "lits s' = (lits s)[unat lit := add_cont_clause (lits s ! unat lit) ci]"
    and nv: "n_vars s' = n_vars s" and nc: "n_clauses s' = n_clauses s"
    by (subst r(3), simp)+
  have lim: "length (lits s) < 2 ^ 32"
    using well_formedD(2) [OF wf] unsigned_less [of "push_bit 1 (n_vars s) :: u32",
        where ?'a = nat] by simp
  have len: "length (clause_lits ?c @ [lit]) \<le> length (lits s)"
    using well_formedD(4) [OF wf r(1)] well_formedD(5) [OF wf r(1)] new r(2)
    by (intro distinct_bounded_length) auto
  have nl: "unat (n_lits ?c + 1) = length (clause_lits ?c) + 1"
    using well_formedD(6) [OF wf r(1)] len well_formedD(2) [OF wf]
    by (subst unat_plus_one [of _ "push_bit 1 (n_vars s)"]) simp_all
  have clause: "distinct (clause_lits (clauses s' ! i)) \<and>
        (\<forall>l \<in> set (clause_lits (clauses s' ! i)). unat l < length (lits s')) \<and>
        unat (n_lits (clauses s' ! i)) = length (clause_lits (clauses s' ! i))"
    if "i < length (clauses s')" for i
  proof (cases "i = ci")
    case True
    then show ?thesis
      using r(1,2) new well_formedD(4) [OF wf r(1)] well_formedD(5) [OF wf r(1)] nl
      by (auto simp: cl ls add_literal_def)
  next
    case False
    then show ?thesis
      using that well_formedD(4,6) [OF wf, of i] well_formedD(5) [OF wf, of i]
      by (auto simp: cl ls)
  qed
  have occur: "distinct (cont_clauses (lits s' ! unat l)) \<and>
        set (cont_clauses (lits s' ! unat l)) =
          {i. i < length (clauses s') \<and> l \<in> set (clause_lits (clauses s' ! i))}"
    if "unat l < length (lits s')" for l
  proof (cases "l = lit")
    case True
    have "ci \<notin> set (cont_clauses (lits s ! unat lit))"
      using well_formedD(8) [OF wf r(2), of ci] new by simp
    then show ?thesis
      using True r(1,2) well_formedD(7) [OF wf r(2)] well_formedD(8) [OF wf r(2)]
      by (auto simp: cl ls add_literal_def add_cont_clause_def nth_list_update)
  next
    case False
    then have ne: "unat lit \<noteq> unat l" by (simp add: word_unat_eq_iff)
    have l: "unat l < length (lits s)" using that by (simp add: ls)
    show ?thesis
      using False ne r(1) well_formedD(7) [OF wf l] well_formedD(8) [OF wf l]
      by (auto simp: cl ls add_literal_def nth_list_update)
  qed
  show ?thesis
    unfolding well_formed_def
    using clause occur well_formedD(1,2) [OF wf] by (simp add: cl ls nv nc)
qed

lemma add_literal_to_clause_load_inv:
  assumes inv: "load_inv s" and run: "add_literal_to_clause s ci lit = Inr s'"
  shows "load_inv s'"
proof (cases "lit \<in> set (clause_lits (clauses s ! ci))")
  case True
  then show ?thesis using add_literal_to_clause_old [OF run] inv by simp
next
  case False
  note r = add_literal_to_clause_new [OF run False]
  from inv have wf: "well_formed s" by (simp add: load_inv_def)
  have wf': "well_formed s'" by (rule add_literal_to_clause_well_formed [OF wf run False])
  have c: "n_assigned_true c = 0 \<and> n_assigned_false c = 0 \<and> n_free_lits c = n_lits c"
    if "c \<in> set (clauses s')" for c
  proof -
    from that have "c = add_literal (clauses s ! ci) lit \<or> c \<in> set (clauses s)"
      using set_update_subset_insert [of "clauses s" ci] by (subst (asm) r(3)) auto
    moreover have "clauses s ! ci \<in> set (clauses s)" using r(1) by simp
    ultimately show ?thesis using inv by (auto simp: load_inv_def add_literal_def)
  qed
  have l: "\<not> fixed x" if "x \<in> set (lits s')" for x
  proof -
    from that have "x = add_cont_clause (lits s ! unat lit) ci \<or> x \<in> set (lits s)"
      using set_update_subset_insert [of "lits s" "unat lit"] by (subst (asm) r(3)) auto
    moreover have "lits s ! unat lit \<in> set (lits s)" using r(2) by simp
    ultimately show ?thesis using inv by (auto simp: load_inv_def add_cont_clause_def)
  qed
  have "n_sat_clauses s' = 0" "n_unsat_clauses s' = 0" "n_assigned s' = 0"
    "length (assigned_trail s') = length (lits s')"
    using inv by (subst r(3), simp add: load_inv_def)+
  with wf' c l show ?thesis by (simp add: load_inv_def)
qed

lemma load_inv_counters_ok:
  assumes "load_inv s"
  shows "counters_ok s"
proof -
  from assms have wf: "well_formed s"
    and c: "\<And>c. c \<in> set (clauses s) \<Longrightarrow>
        n_assigned_true c = 0 \<and> n_assigned_false c = 0 \<and> n_free_lits c = n_lits c"
    and l: "\<And>x. x \<in> set (lits s) \<Longrightarrow> \<not> fixed x"
    and n: "n_sat_clauses s = 0" "n_unsat_clauses s = 0"
    by (simp_all add: load_inv_def)
  have "counters_lag s {} {}"
  proof (rule counters_lagI)
    fix i assume i: "i < length (clauses s)"
    let ?xs = "clause_lits (clauses s ! i)"
    have free: "lit_free (lits s) x" if "x \<in> set ?xs" for x
      using well_formedD(5) [OF wf i that] l [of "lits s ! unat x"] by (simp add: lit_free_def)
    then have f: "count_free (lits s) ?xs = length ?xs"
      by (simp add: count_free_def)
    have "count_true (lits s) ?xs = 0" "count_false (lits s) ?xs = 0"
      using free by (auto simp: count_true_def count_false_def lit_true_def lit_false_def
          lit_free_def filter_empty_conv)
    then show "unat (n_assigned_true (clauses s ! i)) + (if i \<in> {} then 1 else 0)
          = count_true (lits s) ?xs \<and>
      unat (n_assigned_false (clauses s ! i)) + (if i \<in> {} then 1 else 0)
          = count_false (lits s) ?xs \<and>
      unat (n_free_lits (clauses s ! i))
          = count_free (lits s) ?xs + (if i \<in> {} then 1 else 0) + (if i \<in> {} then 1 else 0)"
      using c [of "clauses s ! i"] i f well_formedD(6) [OF wf i] by simp
  qed
  moreover have "sat_count (clauses s) = 0"
    using c by (auto simp: sat_count_def filter_empty_conv)
  moreover have "unsat_count (clauses s) = 0"
    using c by (auto simp: unsat_count_def filter_empty_conv)
  ultimately show ?thesis using wf n by (simp add: counters_ok_def globals_ok_def)
qed

text \<open>The literal codes of a clause of the input.\<close>

definition lit_codes :: "c_int list \<Rightarrow> Literal set" where
  "lit_codes rs = {l. \<exists>r \<in> set rs. lit_from_int r = Inr l}"

lemma add_literal_to_clause_lits:
  assumes "add_literal_to_clause s ci lit = Inr s'"
  shows "ci < length (clauses s)"
    and "set (clause_lits (clauses s' ! ci)) = insert lit (set (clause_lits (clauses s ! ci)))"
    and "j \<noteq> ci \<Longrightarrow> clauses s' ! j = clauses s ! j"
  using assms
  by (auto simp: add_literal_to_clause_def add_literal_def split: if_splits)

lemma for_each_add_repr:
  assumes "for_each (add_repr i) rs s = Inr s'"
  shows "set (clause_lits (clauses s' ! i)) = set (clause_lits (clauses s ! i)) \<union> lit_codes rs \<and>
         (\<forall>j. j \<noteq> i \<longrightarrow> clauses s' ! j = clauses s ! j) \<and>
         (load_inv s \<longrightarrow> load_inv s')"
  using assms
proof (induction rs arbitrary: s)
  case Nil
  then show ?case by (simp add: lit_codes_def)
next
  case (Cons r rs)
  from Cons.prems obtain t where a: "add_repr i s r = Inr t"
    and b: "for_each (add_repr i) rs t = Inr s'"
    by (auto split: sum.splits)
  from a obtain l where l: "lit_from_int r = Inr l" and al: "add_literal_to_clause s i l = Inr t"
    by (auto simp: add_repr_def split: sum.splits)
  note A = add_literal_to_clause_lits [OF al]
  note B = Cons.IH [OF b]
  have "lit_codes (r # rs) = insert l (lit_codes rs)"
    using l by (auto simp: lit_codes_def)
  moreover have "load_inv s \<longrightarrow> load_inv t"
    using add_literal_to_clause_load_inv [OF _ al] by blast
  ultimately show ?case using A B by auto
qed

lemma read_clauses_lits:
  assumes "read_clauses s i cls = Inr s'"
  shows "(\<forall>j < length cls.
            set (clause_lits (clauses s' ! (i + j)))
              = set (clause_lits (clauses s ! (i + j))) \<union> lit_codes (cls ! j)) \<and>
         (\<forall>k < i. clauses s' ! k = clauses s ! k) \<and> (load_inv s \<longrightarrow> load_inv s')"
  using assms
proof (induction cls arbitrary: s i)
  case Nil
  then show ?case by simp
next
  case (Cons rs rest)
  from Cons.prems obtain t where a: "for_each (add_repr i) rs s = Inr t"
    and b: "read_clauses t (Suc i) rest = Inr s'"
    by (auto split: sum.splits)
  note A = for_each_add_repr [OF a]
  note B = Cons.IH [OF b]
  have 1: "set (clause_lits (clauses s' ! (i + j)))
              = set (clause_lits (clauses s ! (i + j))) \<union> lit_codes ((rs # rest) ! j)"
    if "j < length (rs # rest)" for j
  proof (cases j)
    case 0
    have "clauses s' ! i = clauses t ! i" using B by simp
    then show ?thesis using A 0 by simp
  next
    case (Suc j')
    then have "j' < length rest" using that by simp
    with B have "set (clause_lits (clauses s' ! (Suc i + j')))
        = set (clause_lits (clauses t ! (Suc i + j'))) \<union> lit_codes (rest ! j')" by blast
    moreover have "clauses t ! (Suc i + j') = clauses s ! (Suc i + j')" using A by simp
    ultimately show ?thesis using Suc by simp
  qed
  have 2: "clauses s' ! k = clauses s ! k" if "k < i" for k
  proof -
    have "clauses s' ! k = clauses t ! k" using B that by simp
    also have "\<dots> = clauses s ! k" using A that by simp
    finally show ?thesis .
  qed
  from 1 2 A B show ?case by blast
qed

lemma load_problem_ok:
  assumes run: "load_problem num_vars cls = Inr s" and len: "length cls < 2 ^ 32"
  shows "load_inv s" and "length (clauses s) = length cls"
    and "j < length cls \<Longrightarrow> set (clause_lits (clauses s ! j)) = lit_codes (cls ! j)"
proof -
  from run obtain s0 where c: "create_solver num_vars (of_nat (length cls)) = Inr s0"
    and r: "read_clauses s0 0 cls = Inr s" and f: "load_frame s0 s"
    by (rule load_problem_created)
  note R = read_clauses_lits [OF r]
  show "load_inv s" using R create_solver_load_inv [OF c] by simp
  have "unat (of_nat (length cls) :: u32) = length cls"
    using len by (intro of_nat_inverse [OF refl]) simp
  then have l0: "length (clauses s0) = length cls"
    using c by (auto simp: create_solver_def split: if_splits)
  then show "length (clauses s) = length cls" using f by (simp add: load_frame_def)
  show "set (clause_lits (clauses s ! j)) = lit_codes (cls ! j)" if "j < length cls"
  proof -
    have "clause_lits (clauses s0 ! j) = []"
      using c that l0 by (auto simp: create_solver_def create_clause_state_def split: if_splits)
    then show ?thesis using R that by simp
  qed
qed

text \<open>
  Claim C1. A CNF formula (its clauses \<open>cls\<close>, as many as the 32-bit clause count of the
  header can tell) is loaded into a fresh solver; if \<^verbatim>\<open>search_assignments\<close> then returns
  \<^verbatim>\<open>SOLUTION_SATISFIABLE\<close>, every clause of the input holds an integer whose literal has
  \<^verbatim>\<open>fixed\<close> and \<^verbatim>\<open>assigned\<close> set in the final state.
\<close>

theorem satisfiable_assignment_satisfies:
  assumes load: "load_problem num_vars cls = Inr s0" and len: "length cls < 2 ^ 32"
    and run: "search_assignments fuel s0 = Inr (SOLUTION_SATISFIABLE, s')"
  shows "\<forall>c \<in> set cls. \<exists>r \<in> set c. \<exists>l. lit_from_int r = Inr l \<and>
           unat l < length (lits s') \<and> fixed (lits s' ! unat l) \<and> assigned (lits s' ! unat l)"
proof
  fix c assume "c \<in> set cls"
  then obtain j where j: "j < length cls" and c: "c = cls ! j"
    by (auto simp: in_set_conv_nth)
  note L = load_problem_ok [OF load len]
  have ok0: "counters_ok s0" by (rule load_inv_counters_ok [OF L(1)])
  have ok: "counters_ok s'" using search_try_counters_ok [of fuel s0] run ok0 by blast
  have sat: "all_satisfied s'" using search_try_all_satisfied [of fuel s0] run by blast
  have st: "static_part s' = static_part s0" using search_try_static [of fuel s0] run by blast
  have j0: "j < length (clauses s0)" using j L(2) by simp
  then have j': "j < length (clauses s')" using static_partD(8) [OF st] by simp
  from all_satisfied_true [OF ok sat j'] obtain l
    where l: "l \<in> set (clause_lits (clauses s' ! j))" and t: "lit_true (lits s') l"
    by blast
  have "l \<in> lit_codes c"
    using l static_part_nth(1) [OF st j0] L(3) [OF j] c by simp
  then obtain r where r: "r \<in> set c" "lit_from_int r = Inr l"
    by (auto simp: lit_codes_def)
  have "well_formed s'" using ok by (simp add: counters_ok_def)
  then have "unat l < length (lits s')" using j' l by (rule well_formedD(5))
  with r t show "\<exists>r \<in> set c. \<exists>l. lit_from_int r = Inr l \<and>
           unat l < length (lits s') \<and> fixed (lits s' ! unat l) \<and> assigned (lits s' ! unat l)"
    by (auto simp: lit_true_def)
qed

lemma chain_run:
  "search_assignments 4 chain_loaded = Inr (SOLUTION_SATISFIABLE, chain_final)"
  by code_simp

theorem satisfiable_assignment_satisfies_witness:
  "load_problem 3 [[- 1, 2], [- 2, 3], [- 3]] = Inr chain_loaded \<and>
   search_assignments 4 chain_loaded = Inr (SOLUTION_SATISFIABLE, chain_final) \<and>
   (\<exists>r \<in> set [- 1, 2]. \<exists>l. lit_from_int r = Inr l \<and> unat l < length (lits chain_final) \<and>
      fixed (lits chain_final ! unat l) \<and> assigned (lits chain_final ! unat l)) \<and>
   (\<exists>r \<in> set [- 2, 3]. \<exists>l. lit_from_int r = Inr l \<and> unat l < length (lits chain_final) \<and>
      fixed (lits chain_final ! unat l) \<and> assigned (lits chain_final ! unat l)) \<and>
   (\<exists>r \<in> set [- 3]. \<exists>l. lit_from_int r = Inr l \<and> unat l < length (lits chain_final) \<and>
      fixed (lits chain_final ! unat l) \<and> assigned (lits chain_final ! unat l))"
proof -
  have "length [[- 1, 2], [- 2, 3], [- 3 :: c_int]] < 2 ^ 32" by simp
  from satisfiable_assignment_satisfies [OF chain_loaded this chain_run]
  show ?thesis using chain_loaded chain_run by simp
qed

section \<open>The trail\<close>

text \<open>The first \<^verbatim>\<open>n_assigned\<close> cells of \<^verbatim>\<open>assigned\<close> hold, each once, exactly the
  literals that are fixed and assigned; a literal is fixed and not assigned exactly when
  its negation is on the trail.\<close>

definition trail :: "Solver \<Rightarrow> Literal list" where
  "trail s = take (unat (n_assigned s)) (assigned_trail s)"

definition trail_ok :: "Solver \<Rightarrow> bool" where
  "trail_ok s \<longleftrightarrow>
     length (assigned_trail s) = length (lits s) \<and> distinct (trail s) \<and>
     (\<forall>l. l \<in> set (trail s) \<longleftrightarrow> unat l < length (lits s) \<and> lit_true (lits s) l) \<and>
     (\<forall>l. unat l < length (lits s) \<longrightarrow>
        (lit_false (lits s) l \<longleftrightarrow> lit_true (lits s) (negate l)))"

lemma trail_okD:
  assumes "trail_ok s"
  shows "length (assigned_trail s) = length (lits s)" and "distinct (trail s)"
    and "l \<in> set (trail s) \<longleftrightarrow> unat l < length (lits s) \<and> lit_true (lits s) l"
    and "unat l < length (lits s) \<Longrightarrow> lit_false (lits s) l \<longleftrightarrow> lit_true (lits s) (negate l)"
  using assms unfolding trail_ok_def by blast+

lemma lits_length_less:
  assumes "well_formed s"
  shows "length (lits s) < 2 ^ 32"
  using well_formedD(2) [OF assms]
    unsigned_less [of "push_bit 1 (n_vars s) :: u32", where ?'a = nat] by simp

lemma trail_push:
  assumes n: "unat (n_assigned s) < length (assigned_trail s)"
    and lim: "length (assigned_trail s) < 2 ^ 32"
    and n': "n_assigned t = n_assigned s + 1"
    and tr: "assigned_trail t = (assigned_trail s)[unat (n_assigned s) := l]"
  shows "trail t = trail s @ [l]"
proof -
  have "unat (n_assigned s) + 1 \<le> unat (of_nat (length (assigned_trail s)) :: u32)"
    using n lim by (subst of_nat_inverse [OF refl]) simp_all
  then have u: "unat (n_assigned s + 1) = unat (n_assigned s) + 1"
    by (rule unat_plus_one)
  show ?thesis
    unfolding trail_def n' tr u using n by (simp add: take_Suc_conv_app_nth)
qed

lemma trail_pop:
  assumes pos: "prev < n_assigned s"
    and n: "unat (n_assigned s - 1) < length (assigned_trail s)"
    and n': "n_assigned t = n_assigned s - 1"
    and tr: "assigned_trail t = assigned_trail s"
  shows "trail s = trail t @ [assigned_trail s ! unat (n_assigned s - 1)]"
proof -
  have "0 < n_assigned s" using pos le_less_trans [of 0 prev "n_assigned s"] by simp
  then have "0 < unat (n_assigned s)" by (simp add: word_pos_unat)
  then have u: "unat (n_assigned s) = Suc (unat (n_assigned s - 1))"
    by (simp add: unat_minus_one_pos)
  show ?thesis
    unfolding trail_def n' tr using n by (subst u) (simp add: take_Suc_conv_app_nth)
qed

lemma trail_ok_assign:
  assumes ok: "trail_ok s" and ev: "even (length (lits s))"
    and fa: "flags_assign (lits s) (lits t) l"
    and tr: "trail t = trail s @ [l]"
    and len: "length (assigned_trail t) = length (assigned_trail s)"
  shows "trail_ok t"
proof -
  note d = trail_okD [OF ok]
  from fa have ll: "length (lits t) = length (lits s)" and rl: "unat l < length (lits s)"
    and rn: "unat (negate l) < length (lits s)"
    and f: "lit_free (lits s) l" "lit_free (lits s) (negate l)"
    and t: "lit_true (lits t) l" "lit_false (lits t) (negate l)"
    by (simp_all add: flags_assign_def)
  have nt: "\<not> lit_true (lits s) l" "\<not> lit_true (lits s) (negate l)"
    "\<not> lit_false (lits s) l" "\<not> lit_false (lits s) (negate l)"
    "\<not> lit_true (lits t) (negate l)" "\<not> lit_false (lits t) l"
    using f t by (simp_all add: lit_true_def lit_false_def lit_free_def)
  have "l \<notin> set (trail s)" using d(3) [of l] nt by simp
  then have 1: "distinct (trail t)" using d(2) by (simp add: tr)
  have 2: "x \<in> set (trail t) \<longleftrightarrow> unat x < length (lits t) \<and> lit_true (lits t) x" for x
  proof (cases "x = l \<or> x = negate l")
    case True
    then show ?thesis using d(3) [of x] nt t rl rn by (auto simp: tr ll)
  next
    case False
    then show ?thesis
      using d(3) [of x] flags_assign_other(1) [OF fa, of x] by (auto simp: tr ll)
  qed
  have 3: "lit_false (lits t) x \<longleftrightarrow> lit_true (lits t) (negate x)"
    if x: "unat x < length (lits t)" for x
  proof (cases "x = l \<or> x = negate l")
    case True
    then show ?thesis using nt t by auto
  next
    case False
    then have o: "negate x \<noteq> l" "negate x \<noteq> negate l" "x \<noteq> l" "x \<noteq> negate l"
      by (auto simp: negate_eq_iff)
    have xs: "unat x < length (lits s)" using x by (simp add: ll)
    then have nx: "unat (negate x) < length (lits s)" by (simp add: negate_in_range [OF ev])
    show ?thesis
      using flags_assign_other(2) [OF fa xs o(3,4)] flags_assign_other(1) [OF fa nx o(1,2)]
        d(4) [OF xs] by simp
  qed
  show ?thesis unfolding trail_ok_def using 1 2 3 len d(1) ll by simp
qed

lemma trail_ok_undo:
  assumes ok: "trail_ok s" and ev: "even (length (lits s))"
    and fa: "flags_assign (lits t) (lits s) l"
    and tr: "trail s = trail t @ [l]"
    and len: "length (assigned_trail t) = length (assigned_trail s)"
  shows "trail_ok t"
proof -
  note d = trail_okD [OF ok]
  from fa have ll: "length (lits s) = length (lits t)" and rl: "unat l < length (lits t)"
    and rn: "unat (negate l) < length (lits t)"
    and f: "lit_free (lits t) l" "lit_free (lits t) (negate l)"
    and t: "lit_true (lits s) l" "lit_false (lits s) (negate l)"
    by (simp_all add: flags_assign_def)
  have nt: "\<not> lit_true (lits t) l" "\<not> lit_true (lits t) (negate l)"
    "\<not> lit_false (lits t) l" "\<not> lit_false (lits t) (negate l)"
    "\<not> lit_true (lits s) (negate l)" "\<not> lit_false (lits s) l"
    using f t by (simp_all add: lit_true_def lit_false_def lit_free_def)
  from d(2) have 1: "distinct (trail t)" and nl: "l \<notin> set (trail t)" by (simp_all add: tr)
  have 2: "x \<in> set (trail t) \<longleftrightarrow> unat x < length (lits t) \<and> lit_true (lits t) x" for x
  proof (cases "x = l \<or> x = negate l")
    case True
    then show ?thesis using d(3) [of x] nt nl by (auto simp: tr ll)
  next
    case False
    then show ?thesis
      using d(3) [of x] flags_assign_other(1) [OF fa, of x] by (auto simp: tr ll)
  qed
  have 3: "lit_false (lits t) x \<longleftrightarrow> lit_true (lits t) (negate x)"
    if x: "unat x < length (lits t)" for x
  proof (cases "x = l \<or> x = negate l")
    case True
    then show ?thesis using nt by auto
  next
    case False
    then have o: "negate x \<noteq> l" "negate x \<noteq> negate l" "x \<noteq> l" "x \<noteq> negate l"
      by (auto simp: negate_eq_iff)
    have xs: "unat x < length (lits s)" using x by (simp add: ll)
    then have nx: "unat (negate x) < length (lits t)"
      by (simp add: negate_in_range [OF ev] ll [symmetric])
    show ?thesis
      using flags_assign_other(2) [OF fa x o(3,4)] flags_assign_other(1) [OF fa nx o(1,2)]
        d(4) [OF xs] by simp
  qed
  show ?thesis unfolding trail_ok_def using 1 2 3 len d(1) ll by simp
qed

text \<open>The solver invariants: the shape of the problem (C1, L2), the counters (C0, S1, S2),
  and the trail with the pairing of the flags of a variable (S3, L1).\<close>

definition solver_inv :: "Solver \<Rightarrow> bool" where
  "solver_inv s \<longleftrightarrow> counters_ok s \<and> trail_ok s"

lemma solver_inv_even:
  assumes "solver_inv s"
  shows "even (length (lits s))" and "length (assigned_trail s) < 2 ^ 32"
    and "length (assigned_trail s) = length (lits s)"
proof -
  from assms have wf: "well_formed s" and t: "trail_ok s"
    by (simp_all add: solver_inv_def counters_ok_def)
  show "even (length (lits s))" by (rule well_formedD(3) [OF wf])
  show "length (assigned_trail s) = length (lits s)" by (rule trail_okD(1) [OF t])
  then show "length (assigned_trail s) < 2 ^ 32" using lits_length_less [OF wf] by simp
qed

lemma push_make_inv:
  assumes inv: "solver_inv s" and n: "unat (n_assigned s) < length (assigned_trail s)"
    and u: "counters_ok u" "lits u = lits s" "n_assigned u = n_assigned s + 1"
      "assigned_trail u = (assigned_trail s)[unat (n_assigned s) := l]"
    and run: "make_assignment u l = Inr s2"
  shows "solver_inv s2 \<and> trail s2 = trail s @ [l] \<and> flags_assign (lits s) (lits s2) l"
proof -
  note e = solver_inv_even [OF inv]
  from make_assignment_counters [OF u(1) run, of undefined]
  have ok: "counters_ok s2" and fa: "flags_assign (lits s) (lits s2) l"
    and n2: "n_assigned s2 = n_assigned s + 1"
    and t2: "assigned_trail s2 = (assigned_trail s)[unat (n_assigned s) := l]"
    by (simp_all add: u)
  have tr: "trail s2 = trail s @ [l]" by (rule trail_push [OF n e(2) n2 t2])
  have "trail_ok s2"
    using inv by (intro trail_ok_assign [OF _ e(1) fa tr]) (simp_all add: solver_inv_def t2)
  with ok tr fa show ?thesis by (simp add: solver_inv_def)
qed

lemma pop_undo_inv:
  assumes inv: "solver_inv s" and pos: "prev < n_assigned s"
    and n: "unat (n_assigned s - 1) < length (assigned_trail s)"
    and run: "undo_assignment (s\<lparr>n_assigned := n_assigned s - 1\<rparr>)
                (assigned_trail s ! unat (n_assigned s - 1)) = Inr s2"
  shows "solver_inv s2 \<and> trail s = trail s2 @ [assigned_trail s ! unat (n_assigned s - 1)]"
proof -
  let ?l = "assigned_trail s ! unat (n_assigned s - 1)"
  note e = solver_inv_even [OF inv]
  have c: "counters_ok (s\<lparr>n_assigned := n_assigned s - 1\<rparr>)"
    using inv by (simp add: solver_inv_def)
  from undo_assignment_counters [OF c run]
  have ok: "counters_ok s2" and fa: "flags_assign (lits s2) (lits s) ?l" by simp_all
  have n2: "n_assigned s2 = n_assigned s - 1"
    using undo_assignment_n_assigned [OF run] by simp
  have t2: "assigned_trail s2 = assigned_trail s"
    using undo_frameD(3) [OF undo_assignment_frame [OF run]] by simp
  have tr: "trail s = trail s2 @ [?l]" by (rule trail_pop [OF pos n n2 t2])
  have "trail_ok s2"
    using inv by (intro trail_ok_undo [OF _ e(1) fa tr]) (simp_all add: solver_inv_def t2)
  with ok tr show ?thesis by (simp add: solver_inv_def)
qed

lemma only_scores_inv:
  assumes os: "only_scores s s'" and inv: "solver_inv s"
  shows "solver_inv s'" and "trail s' = trail s"
proof -
  note d = only_scoresD [OF os]
  show tr: "trail s' = trail s" by (simp add: trail_def d)
  from inv have ok: "counters_ok s" and t: "trail_ok s" by (simp_all add: solver_inv_def)
  note e = solver_inv_even [OF inv]
  have "trail_ok s'"
    unfolding trail_ok_def tr d(13)
    using trail_okD [OF t] only_scores_flags [OF os]
    by (auto simp: d negate_in_range [OF e(1)])
  with only_scores_counters_ok [OF os ok] show "solver_inv s'" by (simp add: solver_inv_def)
qed

lemma solver_inv_update [simp]:
  "solver_inv (s\<lparr>n_units := a\<rparr>) = solver_inv s"
  "solver_inv (s\<lparr>unit_stack := b\<rparr>) = solver_inv s"
  "solver_inv (s\<lparr>t_branches := e\<rparr>) = solver_inv s"
  "solver_inv (s\<lparr>t_unit_props := f\<rparr>) = solver_inv s"
  by (simp_all add: solver_inv_def trail_ok_def trail_def)

lemma trail_update [simp]:
  "trail (s\<lparr>n_units := a\<rparr>) = trail s"
  "trail (s\<lparr>unit_stack := b\<rparr>) = trail s"
  "trail (s\<lparr>t_branches := e\<rparr>) = trail s"
  "trail (s\<lparr>t_unit_props := f\<rparr>) = trail s"
  by (simp_all add: trail_def)

lemma propagate_inv:
  assumes "propagate s = Inr (c, s')" and "solver_inv s"
  shows "solver_inv s' \<and> (\<exists>ys. trail s' = trail s @ ys)"
  using assms
proof (induction rule: propagate_induct)
  case (finished s)
  then show ?case by simp
next
  case (assign s s2 c s')
  let ?u = "push_assigned (pop_unit s\<lparr>t_unit_props := t_unit_props s + 1\<rparr>) (top_unit s)"
  have "solver_inv s2 \<and> trail s2 = trail s @ [top_unit s] \<and>
      flags_assign (lits s) (lits s2) (top_unit s)"
    using assign.prems
    by (intro push_make_inv [OF assign.prems assign.hyps(5) _ _ _ _ assign.hyps(6)])
       (simp_all add: push_assigned_def pop_unit_def solver_inv_def)
  with assign.IH show ?case by auto
next
  case (conflict s)
  then show ?case by simp
next
  case (skip s c s')
  then show ?case by (simp add: pop_unit_def)
qed

lemma backtrack_inv:
  assumes "backtrack s prev = Inr s'" and "solver_inv s"
  shows "solver_inv s' \<and> (\<exists>ys. trail s = trail s' @ ys)"
  using assms
proof (induction rule: backtrack_induct)
  case (finished s)
  then show ?case by simp
next
  case (undo s s2 s')
  from pop_undo_inv [OF undo.prems undo.hyps(1,2,3)] undo.IH show ?case by auto
qed

lemma try_start_inv:
  assumes inv: "solver_inv s" and n: "unat (n_assigned s) < length (assigned_trail s)"
    and run: "make_assignment (push_assigned (s\<lparr>t_branches := t_branches s + 1\<rparr>) b) b
                = Inr s2"
  shows "solver_inv s2 \<and> trail s2 = trail s @ [b] \<and> flags_assign (lits s) (lits s2) b"
  using inv
  by (intro push_make_inv [OF inv n _ _ _ _ run])
     (simp_all add: push_assigned_def solver_inv_def)

lemma trail_length:
  assumes "solver_inv s" and "solver_inv s'" and "static_part s' = static_part s"
    and "n_assigned s' = n_assigned s"
  shows "length (trail s') = length (trail s)"
  using assms(4) static_partD(7) [OF assms(3)] by (simp add: trail_def)

lemma try_unwound:
  assumes inv: "solver_inv s" and inv': "solver_inv s'"
    and st: "static_part s' = static_part s" and n: "n_assigned s' = n_assigned s"
    and a: "trail t = trail s @ xs" and b: "trail t = trail s' @ ys"
  shows "trail s' = trail s"
proof -
  have "length (trail s') = length (trail s)" by (rule trail_length [OF inv inv' st n])
  with a b show ?thesis by (metis append_eq_append_conv)
qed

lemma search_try_inv:
  "(search_assignments fuel s = Inr (sol, s') \<longrightarrow> solver_inv s \<longrightarrow>
      solver_inv s' \<and> (\<exists>ys. trail s' = trail s @ ys) \<and>
      (sol = SOLUTION_UNSATISFIABLE \<longrightarrow> trail s' = trail s)) \<and>
   (try_assignment fuel s b = Inr (sol, s') \<longrightarrow> solver_inv s \<longrightarrow>
      solver_inv s' \<and> (sol = SOLUTION_UNSATISFIABLE \<longrightarrow> trail s' = trail s) \<and>
      (sol \<noteq> SOLUTION_UNSATISFIABLE \<longrightarrow> (\<exists>ys. trail s' = trail s @ b # ys)))"
proof (induction rule: search_try_induct)
  case (contradiction s)
  then show ?case by simp
next
  case (satisfied s)
  then show ?case by simp
next
  case (first n s b s1 sol s')
  show ?case
  proof
    assume inv: "solver_inv s"
    note o = only_scores_inv [OF choose_branch_only_scores [OF first(3)] inv]
    from \<open>solver_inv s1 \<longrightarrow> _\<close> \<open>sol \<noteq> SOLUTION_UNSATISFIABLE\<close> o show "solver_inv s' \<and> (\<exists>ys. trail s' = trail s @ ys) \<and>
      (sol = SOLUTION_UNSATISFIABLE \<longrightarrow> trail s' = trail s)" by auto
  qed
next
  case (second n s b s1 s2 sol s')
  show ?case
  proof
    assume inv: "solver_inv s"
    note o = only_scores_inv [OF choose_branch_only_scores [OF second(3)] inv]
    from \<open>solver_inv s1 \<longrightarrow> _\<close> o have 2: "solver_inv s2" "trail s2 = trail s" by simp_all
    with \<open>solver_inv s2 \<longrightarrow> _\<close> have "solver_inv s'"
      "sol = SOLUTION_UNSATISFIABLE \<longrightarrow> trail s' = trail s"
      "sol \<noteq> SOLUTION_UNSATISFIABLE \<longrightarrow> (\<exists>ys. trail s' = trail s @ negate b # ys)"
      by simp_all
    then show "solver_inv s' \<and> (\<exists>ys. trail s' = trail s @ ys) \<and>
      (sol = SOLUTION_UNSATISFIABLE \<longrightarrow> trail s' = trail s)"
      by (cases "sol = SOLUTION_UNSATISFIABLE") auto
  qed
next
  case (conflict s b s2 s3 s')
  show ?case
  proof
    assume inv: "solver_inv s"
    note A = try_start_inv [OF inv conflict(1,2)]
    from A have i2: "solver_inv s2" by simp
    note B = propagate_inv [OF conflict(3) i2]
    from B have i3: "solver_inv s3" by simp
    note C = backtrack_inv [OF conflict(4) i3]
    from C have i': "solver_inv s'" by simp
    from A B obtain xs where xs: "trail s3 = trail s @ xs" by auto
    from C obtain ys where ys: "trail s3 = trail s' @ ys" by auto
    have st: "static_part s' = static_part s"
      using make_assignment_static [OF conflict(2)] propagate_static [OF conflict(3)]
        backtrack_static [OF conflict(4)] by (simp add: static_part_def push_assigned_def)
    have "trail s' = trail s"
      by (rule try_unwound [OF inv i' st backtrack_n_assigned [OF conflict(4)] xs ys])
    with i' show "solver_inv s' \<and>
      (SOLUTION_UNSATISFIABLE = SOLUTION_UNSATISFIABLE \<longrightarrow> trail s' = trail s) \<and>
      (SOLUTION_UNSATISFIABLE \<noteq> SOLUTION_UNSATISFIABLE \<longrightarrow>
         (\<exists>ys. trail s' = trail s @ b # ys))" by simp
  qed
next
  case (failed n s b s2 s3 s4 s')
  show ?case
  proof
    assume inv: "solver_inv s"
    note A = try_start_inv [OF inv failed(1,2)]
    from A have i2: "solver_inv s2" by simp
    note B = propagate_inv [OF failed(3) i2]
    from B have i3: "solver_inv s3" by simp
    from \<open>solver_inv s3 \<longrightarrow> solver_inv s4 \<and> (\<exists>ys. trail s4 = trail s3 @ ys) \<and>
      (SOLUTION_UNSATISFIABLE = SOLUTION_UNSATISFIABLE \<longrightarrow> trail s4 = trail s3)\<close> i3
    have i4: "solver_inv s4" and t4: "trail s4 = trail s3" by simp_all
    note C = backtrack_inv [OF \<open>backtrack s4 (n_assigned s) = Inr s'\<close> i4]
    from C have i': "solver_inv s'" by simp
    from A B t4 obtain xs where xs: "trail s4 = trail s @ xs" by auto
    from C obtain ys where ys: "trail s4 = trail s' @ ys" by auto
    have "static_part s4 = static_part s3"
      using search_try_static [of n s3 SOLUTION_UNSATISFIABLE s4] failed(4) by blast
    then have st: "static_part s' = static_part s"
      using make_assignment_static [OF failed(2)] propagate_static [OF failed(3)]
        backtrack_static [OF \<open>backtrack s4 (n_assigned s) = Inr s'\<close>]
      by (simp add: static_part_def push_assigned_def)
    have "trail s' = trail s"
      by (rule try_unwound [OF inv i' st
            backtrack_n_assigned [OF \<open>backtrack s4 (n_assigned s) = Inr s'\<close>] xs ys])
    with i' show "solver_inv s' \<and>
      (SOLUTION_UNSATISFIABLE = SOLUTION_UNSATISFIABLE \<longrightarrow> trail s' = trail s) \<and>
      (SOLUTION_UNSATISFIABLE \<noteq> SOLUTION_UNSATISFIABLE \<longrightarrow>
         (\<exists>ys. trail s' = trail s @ b # ys))" by simp
  qed
next
  case (found n s b s2 s3 sol s')
  show ?case
  proof
    assume inv: "solver_inv s"
    note A = try_start_inv [OF inv found(1,2)]
    from A have i2: "solver_inv s2" by simp
    note B = propagate_inv [OF found(3) i2]
    from B have i3: "solver_inv s3" by simp
    from \<open>solver_inv s3 \<longrightarrow> solver_inv s' \<and> (\<exists>ys. trail s' = trail s3 @ ys) \<and>
      (sol = SOLUTION_UNSATISFIABLE \<longrightarrow> trail s' = trail s3)\<close> i3
    have i': "solver_inv s'" and t': "\<exists>ys. trail s' = trail s3 @ ys" by simp_all
    from A B t' have "\<exists>ys. trail s' = trail s @ b # ys" by auto
    with i' \<open>sol \<noteq> SOLUTION_UNSATISFIABLE\<close> show "solver_inv s' \<and>
      (sol = SOLUTION_UNSATISFIABLE \<longrightarrow> trail s' = trail s) \<and>
      (sol \<noteq> SOLUTION_UNSATISFIABLE \<longrightarrow> (\<exists>ys. trail s' = trail s @ b # ys))" by simp
  qed
qed




subsection \<open>What a failed branch restores\<close>

lemma trail_flags:
  assumes inv: "solver_inv s" and inv': "solver_inv s'" and tr: "trail s' = trail s"
    and len: "length (lits s') = length (lits s)" and l: "unat l < length (lits s)"
  shows "lit_true (lits s') l = lit_true (lits s) l"
    and "lit_false (lits s') l = lit_false (lits s) l"
    and "lit_free (lits s') l = lit_free (lits s) l"
proof -
  from inv inv' have t: "trail_ok s" and t': "trail_ok s'" by (simp_all add: solver_inv_def)
  have nl: "unat (negate l) < length (lits s)"
    using l by (simp add: negate_in_range [OF solver_inv_even(1) [OF inv]])
  have T: "lit_true (lits s') x = lit_true (lits s) x" if "unat x < length (lits s)" for x
    using trail_okD(3) [OF t, of x] trail_okD(3) [OF t', of x] that by (simp add: tr len)
  show 1: "lit_true (lits s') l = lit_true (lits s) l" by (rule T [OF l])
  show 2: "lit_false (lits s') l = lit_false (lits s) l"
    using trail_okD(4) [OF t l] trail_okD(4) [OF t', of l] l T [OF nl] by (simp add: len)
  show "lit_free (lits s') l = lit_free (lits s) l"
    using 1 2 by (auto simp: lit_true_def lit_false_def lit_free_def)
qed



lemma load_inv_solver_inv:
  assumes "load_inv s"
  shows "solver_inv s"
proof -
  from assms have l: "\<And>x. x \<in> set (lits s) \<Longrightarrow> \<not> fixed x" and n: "n_assigned s = 0"
    and len: "length (assigned_trail s) = length (lits s)" and wf: "well_formed s"
    by (simp_all add: load_inv_def)
  have f: "\<not> fixed (lits s ! unat x)" if "unat x < length (lits s)" for x :: Literal
    using l [of "lits s ! unat x"] that by simp
  have "trail_ok s"
    unfolding trail_ok_def trail_def n
    using len f negate_in_range [OF well_formedD(3) [OF wf]]
    by (auto simp: lit_true_def lit_false_def)
  with load_inv_counters_ok [OF assms] show ?thesis by (simp add: solver_inv_def)
qed












section \<open>Soundness of the verdict UNSATISFIABLE\<close>

lemma sat_all_update [simp]:
  "sat_all \<alpha> (s\<lparr>n_units := a\<rparr>) = sat_all \<alpha> s"
  "sat_all \<alpha> (s\<lparr>unit_stack := b\<rparr>) = sat_all \<alpha> s"
  "sat_all \<alpha> (s\<lparr>n_assigned := c\<rparr>) = sat_all \<alpha> s"
  "sat_all \<alpha> (s\<lparr>assigned_trail := d\<rparr>) = sat_all \<alpha> s"
  "sat_all \<alpha> (s\<lparr>t_branches := e\<rparr>) = sat_all \<alpha> s"
  "sat_all \<alpha> (s\<lparr>t_unit_props := f\<rparr>) = sat_all \<alpha> s"
  by (simp_all add: sat_all_def)

lemma units_hold_update [simp]:
  "units_hold \<alpha> (s\<lparr>n_assigned := c\<rparr>) = units_hold \<alpha> s"
  "units_hold \<alpha> (s\<lparr>assigned_trail := d\<rparr>) = units_hold \<alpha> s"
  "units_hold \<alpha> (s\<lparr>t_branches := e\<rparr>) = units_hold \<alpha> s"
  "units_hold \<alpha> (s\<lparr>t_unit_props := f\<rparr>) = units_hold \<alpha> s"
  by (simp_all add: units_hold_def)

lemma units_hold_pop:
  assumes "units_hold \<alpha> s" and "n_units s \<noteq> 0"
  shows "units_hold \<alpha> (pop_unit s)" and "holds \<alpha> (top_unit s)"
proof -
  have "0 < unat (n_units s)" using assms(2) by (simp add: unat_gt_0)
  then have u: "unat (n_units s - 1) = unat (n_units s) - 1" "unat (n_units s - 1) < unat (n_units s)"
    by (simp_all add: unat_minus_one_pos)
  show "units_hold \<alpha> (pop_unit s)"
    using assms(1) u by (simp add: units_hold_def pop_unit_def)
  show "holds \<alpha> (top_unit s)"
    using assms(1) u(2) by (simp add: units_hold_def top_unit_def)
qed

lemma assign_sound:
  assumes ok: "counters_ok u" and run: "make_assignment u l = Inr s2"
    and sat: "sat_all \<alpha> u" and ag: "agrees \<alpha> (lits u)" and uh: "units_hold \<alpha> u"
    and h: "holds \<alpha> l"
  shows "sat_all \<alpha> s2 \<and> agrees \<alpha> (lits s2) \<and> units_hold \<alpha> s2"
proof -
  note M = make_assignment_counters [OF ok run, of \<alpha>]
  from M have fa: "flags_assign (lits u) (lits s2) l"
    and st: "static_part s2 = static_part u" by simp_all
  have a: "agrees \<alpha> (lits s2)" by (rule agrees_flags_assign [OF fa ag h])
  moreover have "sat_all \<alpha> s2" using sat sat_all_static [OF st] by simp
  moreover have "units_hold \<alpha> s2" using M sat a uh by blast
  ultimately show ?thesis by simp
qed

lemma propagate_sound:
  assumes "propagate s = Inr (c, s')" and "counters_ok s" and "sat_all \<alpha> s"
    and "agrees \<alpha> (lits s)" and "units_hold \<alpha> s"
  shows "agrees \<alpha> (lits s') \<and> \<not> c"
  using assms
proof (induction rule: propagate_induct)
  case (finished s)
  then show ?case by simp
next
  case (assign s s2 c s')
  let ?u = "push_assigned (pop_unit s\<lparr>t_unit_props := t_unit_props s + 1\<rparr>) (top_unit s)"
  note p = units_hold_pop [OF \<open>units_hold \<alpha> s\<close> \<open>n_units s \<noteq> 0\<close>]
  have ok: "counters_ok ?u"
    using \<open>counters_ok s\<close> by (simp add: push_assigned_def pop_unit_def)
  have "sat_all \<alpha> s2 \<and> agrees \<alpha> (lits s2) \<and> units_hold \<alpha> s2"
  proof (rule assign_sound [OF ok assign.hyps(6) _ _ _ p(2)])
    show "sat_all \<alpha> ?u" using \<open>sat_all \<alpha> s\<close> by (simp add: push_assigned_def pop_unit_def)
    show "agrees \<alpha> (lits ?u)"
      using \<open>agrees \<alpha> (lits s)\<close> by (simp add: push_assigned_def pop_unit_def)
    show "units_hold \<alpha> ?u"
      using p(1) by (simp add: push_assigned_def pop_unit_def units_hold_def)
  qed
  moreover have "counters_ok s2"
    using make_assignment_counters [OF ok assign.hyps(6), of \<alpha>] by simp
  ultimately show ?case using assign.IH by simp
next
  case (conflict s)
  note p = units_hold_pop [OF \<open>units_hold \<alpha> s\<close> \<open>n_units s \<noteq> 0\<close>]
  have "lit_false (lits s) (top_unit s)"
    using conflict.hyps by (simp add: lit_false_def)
  with \<open>agrees \<alpha> (lits s)\<close> conflict.hyps(3) have "\<not> holds \<alpha> (top_unit s)"
    by (simp add: agrees_def)
  with p(2) show ?case by simp
next
  case (skip s c s')
  note p = units_hold_pop [OF \<open>units_hold \<alpha> s\<close> \<open>n_units s \<noteq> 0\<close>]
  from skip.prems p(1) have "counters_ok (pop_unit s)" "sat_all \<alpha> (pop_unit s)"
    "agrees \<alpha> (lits (pop_unit s))" by (simp_all add: pop_unit_def)
  with p(1) show ?case by (intro skip.IH)
qed

lemma filter_nonempty_ex: "0 < length (filter P xs) \<Longrightarrow> \<exists>i < length xs. P (xs ! i)"
  by (metis filter_False in_set_conv_nth length_greater_0_conv)

lemma contradiction_falsified:
  assumes ok: "counters_ok s" and c: "any_contradiction s" and ag: "agrees \<alpha> (lits s)"
  shows "\<not> sat_all \<alpha> s"
proof
  assume sat: "sat_all \<alpha> s"
  from ok have wf: "well_formed s" and lag: "counters_lag s {} {}" and g: "globals_ok s"
    by (simp_all add: counters_ok_def)
  have "0 < unsat_count (clauses s)"
    using c g by (simp add: any_contradiction_def globals_ok_def word_pos_unat)
  then have "\<exists>i < length (clauses s). n_assigned_true (clauses s ! i) = 0 \<and>
      n_free_lits (clauses s ! i) = 0 \<and> n_lits (clauses s ! i) \<noteq> 0"
    unfolding unsat_count_def by (rule filter_nonempty_ex)
  then obtain i where i: "i < length (clauses s)"
    and z: "n_assigned_true (clauses s ! i) = 0" "n_free_lits (clauses s ! i) = 0"
    by blast
  let ?xs = "clause_lits (clauses s ! i)"
  from sat i obtain x where x: "x \<in> set ?xs" "holds \<alpha> x" by (auto simp: sat_all_def)
  have r: "unat x < length (lits s)" by (rule well_formedD(5) [OF wf i x(1)])
  have "count_true (lits s) ?xs = 0" "count_free (lits s) ?xs = 0"
    using counters_lagD [OF lag i] z by simp_all
  then have "\<not> lit_true (lits s) x" "\<not> lit_free (lits s) x"
    using x(1) by (auto simp: count_true_def count_free_def filter_empty_conv)
  then have "lit_false (lits s) x"
    by (auto simp: lit_true_def lit_false_def lit_free_def)
  with ag r x(2) show False by (simp add: agrees_def)
qed

lemma try_start_sound:
  assumes inv: "solver_inv s"
    and run: "make_assignment (push_assigned (s\<lparr>t_branches := t_branches s + 1\<rparr>) b) b
                = Inr s2"
    and nu: "n_units s = 0" and sat: "sat_all \<alpha> s" and ag: "agrees \<alpha> (lits s)"
    and h: "holds \<alpha> b"
  shows "sat_all \<alpha> s2 \<and> agrees \<alpha> (lits s2) \<and> units_hold \<alpha> s2"
proof (rule assign_sound [OF _ run _ _ _ h])
  let ?u = "push_assigned (s\<lparr>t_branches := t_branches s + 1\<rparr>) b"
  show "counters_ok ?u" using inv by (simp add: push_assigned_def solver_inv_def)
  show "sat_all \<alpha> ?u" using sat by (simp add: push_assigned_def)
  show "agrees \<alpha> (lits ?u)" using ag by (simp add: push_assigned_def)
  show "units_hold \<alpha> ?u" using nu by (simp add: push_assigned_def units_hold_def)
qed

lemma agrees_same_trail:
  assumes inv: "solver_inv s" and inv': "solver_inv s'" and tr: "trail s' = trail s"
    and st: "static_part s' = static_part s" and ag: "agrees \<alpha> (lits s)"
  shows "agrees \<alpha> (lits s')"
  using ag trail_flags [OF inv inv' tr static_partD(9) [OF st]]
  by (simp add: agrees_def static_partD(9) [OF st])

lemma search_try_sound:
  "(search_assignments fuel s = Inr (sol, s') \<longrightarrow> solver_inv s \<longrightarrow> n_units s = 0 \<longrightarrow>
      sat_all \<alpha> s \<longrightarrow> agrees \<alpha> (lits s) \<longrightarrow> sol \<noteq> SOLUTION_UNSATISFIABLE) \<and>
   (try_assignment fuel s b = Inr (sol, s') \<longrightarrow> solver_inv s \<longrightarrow> n_units s = 0 \<longrightarrow>
      sat_all \<alpha> s \<longrightarrow> agrees \<alpha> (lits s) \<longrightarrow> holds \<alpha> b \<longrightarrow>
      sol \<noteq> SOLUTION_UNSATISFIABLE)"
proof (induction rule: search_try_induct)
  case (contradiction s)
  then show ?case
    using contradiction_falsified [of s \<alpha>] by (auto simp: solver_inv_def)
next
  case (satisfied s)
  then show ?case by simp
next
  case (first n s b s1 sol s')
  then show ?case by simp
next
  case (second n s b s1 s2 sol s')
  show ?case
  proof (intro impI)
    assume inv: "solver_inv s" and nu: "n_units s = 0" and sat: "sat_all \<alpha> s"
      and ag: "agrees \<alpha> (lits s)"
    note os = choose_branch_only_scores [OF second(3)]
    note o = only_scores_inv [OF os inv]
    note d = only_scoresD [OF os]
    have st1: "static_part s1 = static_part s" by (rule only_scores_static [OF os])
    have sat1: "sat_all \<alpha> s1" using sat sat_all_static [OF st1] by simp
    have ag1: "agrees \<alpha> (lits s1)"
      using ag only_scores_flags [OF os] by (simp add: agrees_def d(13))
    have nu1: "n_units s1 = 0" using nu by (simp add: d)
    from \<open>solver_inv s1 \<longrightarrow> _\<close> o(1) nu1 sat1 ag1 have nb: "\<not> holds \<alpha> b" by auto
    note T = search_try_inv [of n s1 SOLUTION_UNSATISFIABLE s2 b]
    from T second(4) o(1) have inv2: "solver_inv s2" and tr2: "trail s2 = trail s1"
      by simp_all
    have st2: "static_part s2 = static_part s1"
      using search_try_static [of n s1 SOLUTION_UNSATISFIABLE s2 b] second(4) by blast
    have nu2: "n_units s2 = 0"
      using search_try_n_units [of n s1 SOLUTION_UNSATISFIABLE s2 b] second(4) by blast
    have sat2: "sat_all \<alpha> s2" using sat1 sat_all_static [OF st2] by simp
    have ag2: "agrees \<alpha> (lits s2)"
      by (rule agrees_same_trail [OF o(1) inv2 tr2 st2 ag1])
    from \<open>solver_inv s2 \<longrightarrow> _\<close> inv2 nu2 sat2 ag2 nb
    show "sol \<noteq> SOLUTION_UNSATISFIABLE" by simp
  qed
next
  case (conflict s b s2 s3 s')
  show ?case
  proof (intro impI)
    assume inv: "solver_inv s" and nu: "n_units s = 0" and sat: "sat_all \<alpha> s"
      and ag: "agrees \<alpha> (lits s)" and h: "holds \<alpha> b"
    note A = try_start_sound [OF inv conflict(2) nu sat ag h]
    have "solver_inv s2" using try_start_inv [OF inv conflict(1,2)] by simp
    then have "counters_ok s2" by (simp add: solver_inv_def)
    from propagate_sound [OF conflict(3) this, of \<alpha>] A
    show "SOLUTION_UNSATISFIABLE \<noteq> SOLUTION_UNSATISFIABLE" by simp
  qed
next
  case (failed n s b s2 s3 s4 s')
  show ?case
  proof (intro impI)
    assume inv: "solver_inv s" and nu: "n_units s = 0" and sat: "sat_all \<alpha> s"
      and ag: "agrees \<alpha> (lits s)" and h: "holds \<alpha> b"
    note A = try_start_sound [OF inv failed(2) nu sat ag h]
    have inv2: "solver_inv s2" using try_start_inv [OF inv failed(1,2)] by simp
    then have ok2: "counters_ok s2" by (simp add: solver_inv_def)
    have inv3: "solver_inv s3" using propagate_inv [OF failed(3) inv2] by simp
    have ag3: "agrees \<alpha> (lits s3)" using propagate_sound [OF failed(3) ok2, of \<alpha>] A by simp
    have sat3: "sat_all \<alpha> s3"
      using A sat_all_static [OF propagate_static [OF failed(3)]] by simp
    have nu3: "n_units s3 = 0" by (rule propagate_n_units [OF failed(3)])
    from \<open>solver_inv s3 \<longrightarrow> _\<close> inv3 nu3 sat3 ag3
    show "SOLUTION_UNSATISFIABLE \<noteq> SOLUTION_UNSATISFIABLE" by simp
  qed
next
  case (found n s b s2 s3 sol s')
  then show ?case by simp
qed

text \<open>The truth of an integer of the input, \<open>k\<close> for the variable \<open>x\<^sub>k\<close> and \<open>-k\<close> for its
  negation, under an assignment to the variables (indexed from 0).\<close>

definition true_under :: "(nat \<Rightarrow> bool) \<Rightarrow> c_int \<Rightarrow> bool" where
  "true_under \<alpha> r \<longleftrightarrow> (if 0 <s r then \<alpha> (unat (r - 1)) else \<not> \<alpha> (unat (- r - 1)))"

lemma holds_lit_from_int:
  assumes "lit_from_int r = Inr l"
  shows "holds \<alpha> l \<longleftrightarrow> true_under \<alpha> r"
proof (cases "0 <s r")
  case True
  with assms have l: "l = push_bit 1 (r - 1)" and r: "r \<noteq> 0"
    by (auto simp: lit_from_int_def split: if_splits)
  have "drop_bit 1 l = r - 1" unfolding l by (rule drop_bit_double(1) [OF unat_pred_pos [OF True]])
  moreover have "\<not> bit l 0" unfolding l by (simp add: bit_0)
  ultimately show ?thesis using True by (simp add: holds_def true_under_def)
next
  case False
  with assms have l: "l = push_bit 1 (- r - 1) OR 1" and r: "r \<noteq> 0"
    by (auto simp: lit_from_int_def split: if_splits)
  have "drop_bit 1 l = - r - 1"
    unfolding l by (rule drop_bit_double(2) [OF unat_pred_neg [OF False r]])
  moreover have "bit l 0" unfolding l by (simp add: bit_0 even_or_iff)
  ultimately show ?thesis using False by (simp add: holds_def true_under_def)
qed

lemma for_each_add_repr_defined:
  assumes "for_each (add_repr i) rs s = Inr s'" and "r \<in> set rs"
  shows "\<exists>l. lit_from_int r = Inr l"
  using assms
proof (induction rs arbitrary: s)
  case Nil
  then show ?case by simp
next
  case (Cons a rs)
  from Cons.prems(1) obtain t where a: "add_repr i s a = Inr t"
    and b: "for_each (add_repr i) rs t = Inr s'"
    by (auto split: sum.splits)
  from a have "\<exists>l. lit_from_int a = Inr l" by (auto simp: add_repr_def split: sum.splits)
  with Cons.IH [OF b] Cons.prems(2) show ?case by auto
qed

lemma read_clauses_defined:
  assumes "read_clauses s i cls = Inr s'" and "c \<in> set cls" and "r \<in> set c"
  shows "\<exists>l. lit_from_int r = Inr l"
  using assms
proof (induction cls arbitrary: s i)
  case Nil
  then show ?case by simp
next
  case (Cons rs rest)
  from Cons.prems(1) obtain t where a: "for_each (add_repr i) rs s = Inr t"
    and b: "read_clauses t (Suc i) rest = Inr s'"
    by (auto split: sum.splits)
  from Cons.prems(2) show ?case
  proof (cases "c = rs")
    case True
    with for_each_add_repr_defined [OF a] Cons.prems(3) show ?thesis by simp
  next
    case False
    with Cons.prems(2) have "c \<in> set rest" by simp
    from Cons.IH [OF b this Cons.prems(3)] show ?thesis .
  qed
qed

lemma load_problem_sat_all:
  assumes load: "load_problem num_vars cls = Inr s" and len: "length cls < 2 ^ 32"
    and sat: "\<forall>c \<in> set cls. \<exists>r \<in> set c. true_under \<alpha> r"
  shows "sat_all \<alpha> s"
  unfolding sat_all_def
proof (intro allI impI)
  fix i assume "i < length (clauses s)"
  then have i: "i < length cls" using load_problem_ok(2) [OF load len] by simp
  then have "cls ! i \<in> set cls" by simp
  with sat obtain r where r: "r \<in> set (cls ! i)" "true_under \<alpha> r" by blast
  from load obtain s0 where "read_clauses s0 0 cls = Inr s" by (rule load_problem_created)
  from read_clauses_defined [OF this \<open>cls ! i \<in> set cls\<close> r(1)]
  obtain l where l: "lit_from_int r = Inr l" by blast
  then have "l \<in> lit_codes (cls ! i)" using r(1) by (auto simp: lit_codes_def)
  then have "l \<in> set (clause_lits (clauses s ! i))"
    using load_problem_ok(3) [OF load len i] by simp
  moreover have "holds \<alpha> l" using holds_lit_from_int [OF l] r(2) by simp
  ultimately show "\<exists>x \<in> set (clause_lits (clauses s ! i)). holds \<alpha> x" by blast
qed

lemma load_inv_agrees:
  assumes "load_inv s"
  shows "agrees \<alpha> (lits s)"
proof -
  from assms have l: "\<And>x. x \<in> set (lits s) \<Longrightarrow> \<not> fixed x" by (simp add: load_inv_def)
  have "\<not> fixed (lits s ! unat x)" if "unat x < length (lits s)" for x :: Literal
    using l [of "lits s ! unat x"] that by simp
  then show ?thesis by (simp add: agrees_def lit_true_def lit_false_def)
qed

text \<open>
  Claim C2. A CNF formula (its clauses \<open>cls\<close>, as many as the 32-bit clause count of the
  header can tell) is loaded into a fresh solver; if \<^verbatim>\<open>search_assignments\<close> then returns
  \<^verbatim>\<open>SOLUTION_UNSATISFIABLE\<close>, no assignment of truth values to the variables makes every
  clause of the input true.
\<close>

theorem unsatisfiable_verdict_sound:
  assumes load: "load_problem num_vars cls = Inr s0" and len: "length cls < 2 ^ 32"
    and run: "search_assignments fuel s0 = Inr (SOLUTION_UNSATISFIABLE, s')"
  shows "\<not> (\<exists>\<alpha>. \<forall>c \<in> set cls. \<exists>r \<in> set c. true_under \<alpha> r)"
proof
  assume "\<exists>\<alpha>. \<forall>c \<in> set cls. \<exists>r \<in> set c. true_under \<alpha> r"
  then obtain \<alpha> where a: "\<forall>c \<in> set cls. \<exists>r \<in> set c. true_under \<alpha> r" ..
  note L = load_problem_ok(1) [OF load len]
  have "solver_inv s0" by (rule load_inv_solver_inv [OF L])
  moreover have "n_units s0 = 0" by (rule load_problem_n_units [OF load])
  moreover have "sat_all \<alpha> s0" by (rule load_problem_sat_all [OF load len a])
  moreover have "agrees \<alpha> (lits s0)" by (rule load_inv_agrees [OF L])
  ultimately show False
    using search_try_sound [of fuel s0 SOLUTION_UNSATISFIABLE s' \<alpha>] run by blast
qed

lemma both_ways_run:
  "(case load_problem 2 [[1, 2], [- 1, 2], [1, - 2], [- 1, - 2]] of
      Inl e \<Rightarrow> False
    | Inr s \<Rightarrow>
        (case search_assignments 3 s of
           Inl e \<Rightarrow> False
         | Inr (sol, s') \<Rightarrow> sol = SOLUTION_UNSATISFIABLE \<and> t_unit_props s' = 2))"
  by code_simp

theorem unsatisfiable_verdict_sound_witness:
  "(case load_problem 2 [[1, 2], [- 1, 2], [1, - 2], [- 1, - 2]] of
      Inl e \<Rightarrow> False
    | Inr s \<Rightarrow>
        (case search_assignments 3 s of
           Inl e \<Rightarrow> False
         | Inr (sol, s') \<Rightarrow> sol = SOLUTION_UNSATISFIABLE \<and> t_unit_props s' = 2)) \<and>
   \<not> (\<exists>\<alpha>. (\<exists>r \<in> set [1, 2]. true_under \<alpha> r) \<and> (\<exists>r \<in> set [- 1, 2]. true_under \<alpha> r) \<and>
          (\<exists>r \<in> set [1, - 2]. true_under \<alpha> r) \<and> (\<exists>r \<in> set [- 1, - 2]. true_under \<alpha> r))"
proof -
  from both_ways_run obtain s0 s'
    where load: "load_problem 2 [[1, 2], [- 1, 2], [1, - 2], [- 1, - 2]] = Inr s0"
      and run: "search_assignments 3 s0 = Inr (SOLUTION_UNSATISFIABLE, s')"
    by (auto split: sum.splits prod.splits)
  have "length [[1, 2], [- 1, 2], [1, - 2], [- 1, - 2 :: c_int]] < 2 ^ 32" by simp
  from unsatisfiable_verdict_sound [OF load this run]
  have "\<not> (\<exists>\<alpha>. (\<exists>r \<in> set [1, 2]. true_under \<alpha> r) \<and> (\<exists>r \<in> set [- 1, 2]. true_under \<alpha> r) \<and>
          (\<exists>r \<in> set [1, - 2]. true_under \<alpha> r) \<and> (\<exists>r \<in> set [- 1, - 2]. true_under \<alpha> r))"
    by simp
  with both_ways_run show ?thesis by blast
qed

section \<open>The end of the input\<close>

text \<open>\<^verbatim>\<open>isspace\<close> in the C locale: space, and the control characters from tab to carriage
  return.\<close>

definition isspace :: "char \<Rightarrow> bool" where
  "isspace c \<longleftrightarrow> c = CHR 0x20 \<or> (9 \<le> (of_char c :: nat) \<and> (of_char c :: nat) \<le> 13)"

text \<open>The last loop of \<^verbatim>\<open>read_problem\<close>, which runs once all \<^verbatim>\<open>n_clauses\<close> clauses are
  read, on the characters that are left in the stream; the stream ends where the list
  does. The state of the loop is the local variable \<^verbatim>\<open>err\<close>, which nothing has
  assigned when the loop is reached (\<open>None\<close>). The result of \<^verbatim>\<open>fgetc\<close> is stored in a
  \<^verbatim>\<open>char\<close>, so the byte \<^verbatim>\<open>0xFF\<close> compares equal to \<^verbatim>\<open>EOF\<close> where plain \<^verbatim>\<open>char\<close> is
  signed, and ends the loop as the end of the stream does; the other bytes above \<^verbatim>\<open>0x7F\<close>
  are not white space.\<close>

fun expect_end :: "Error option \<Rightarrow> char list \<Rightarrow> Error option" where
  "expect_end err [] = err"
| "expect_end err (c # rest) =
     (if c = CHR 0xFF then err
      else if \<not> isspace c then expect_end (Some ERROR_INVALID_FORMAT) rest
      else expect_end err rest)"

text \<open>\<^verbatim>\<open>read_problem\<close> from that loop to its \<^verbatim>\<open>return\<close>: the statement after the loop is
  \<^verbatim>\<open>return ERROR_OK;\<close>, whatever \<^verbatim>\<open>err\<close> holds.\<close>

definition read_problem_end :: "char list \<Rightarrow> Error" where
  "read_problem_end rest = (let err = expect_end None rest in ERROR_OK)"

text \<open>
  Claim C4 fails on the code. The input is \<^verbatim>\<open>p cnf 1 1\<close>, the clause \<^verbatim>\<open>1 0\<close> and a line
  that holds \<^verbatim>\<open>x\<close>: once the clause is read, a newline, \<^verbatim>\<open>x\<close> and a newline are left in
  the stream. The loop finds the \<^verbatim>\<open>x\<close> and sets \<^verbatim>\<open>err\<close> to \<^verbatim>\<open>ERROR_INVALID_FORMAT\<close>,
  and \<^verbatim>\<open>read_problem\<close> returns \<^verbatim>\<open>ERROR_OK\<close>.
\<close>

theorem junk_after_last_clause_accepted:
  "expect_end None [CHR 0x0A, CHR ''x'', CHR 0x0A] = Some ERROR_INVALID_FORMAT \<and>
   read_problem_end [CHR 0x0A, CHR ''x'', CHR 0x0A] = ERROR_OK"
  by (simp add: read_problem_end_def isspace_def)

section \<open>What \<^verbatim>\<open>update_scores\<close> computes\<close>

lemma for_each_append:
  "for_each body (xs @ ys) s =
     (case for_each body xs s of Inl e \<Rightarrow> Inl e | Inr t \<Rightarrow> for_each body ys t)"
  by (induction xs arbitrary: s) (auto split: sum.splits)

text \<open>The weight of a clause in the score of its literals, and the score that the
  inner loop of \<^verbatim>\<open>update_scores\<close> adds up over the clauses of a literal.\<close>

definition clause_weight :: "ClauseState \<Rightarrow> u32" where
  "clause_weight c =
     (if n_assigned_true c \<noteq> 0 then 0
      else if n_free_lits c = 2 then 4 else if n_free_lits c = 3 then 2 else 1)"

definition total_weight :: "ClauseState list \<Rightarrow> nat list \<Rightarrow> u32" where
  "total_weight cs xs = sum_list (map (\<lambda>i. clause_weight (cs ! i)) xs)"

definition rescore :: "ClauseState list \<Rightarrow> LitState \<Rightarrow> LitState" where
  "rescore cs l =
     (if fixed l then l\<lparr>score := 0\<rparr> else l\<lparr>score := total_weight cs (cont_clauses l)\<rparr>)"

lemma score_clauses_total:
  assumes "\<forall>i \<in> set xs. i < length cs"
  shows "for_each (score_clause cs) xs l = Inr (l\<lparr>score := score l + total_weight cs xs\<rparr>)"
  using assms
proof (induction xs arbitrary: l)
  case Nil
  then show ?case by (simp add: total_weight_def)
next
  case (Cons i xs)
  then have i: "i < length cs" and r: "\<forall>i \<in> set xs. i < length cs" by simp_all
  have "score_clause cs l i = Inr (l\<lparr>score := score l + clause_weight (cs ! i)\<rparr>)"
    using i by (simp add: score_clause_def clause_weight_def Let_def)
  then show ?case
    using Cons.IH [OF r] by (simp add: total_weight_def add.assoc)
qed

lemma zero_scores_upto:
  assumes "n \<le> length (lits s)"
  shows "for_each zero_score [0 ..< n] s =
           Inr (s\<lparr>lits := map (\<lambda>l. l\<lparr>score := 0\<rparr>) (take n (lits s)) @ drop n (lits s)\<rparr>)"
  using assms
proof (induction n)
  case 0
  then show ?case by simp
next
  case (Suc n)
  let ?z = "\<lambda>l. l\<lparr>score := 0 :: u32\<rparr>"
  let ?t = "s\<lparr>lits := map ?z (take n (lits s)) @ drop n (lits s)\<rparr>"
  from Suc.prems have n: "n < length (lits s)" by simp
  have "zero_score ?t n
      = Inr (?t\<lparr>lits := (lits ?t)[n := ?z (lits ?t ! n)]\<rparr>)"
    using n by (simp add: zero_score_def)
  moreover have "(lits ?t)[n := ?z (lits ?t ! n)]
      = map ?z (take (Suc n) (lits s)) @ drop (Suc n) (lits s)"
    using n by (simp add: list_update_append nth_append take_Suc_conv_app_nth
        Cons_nth_drop_Suc [symmetric] min_def)
  ultimately show ?case
    using Suc.IH n by (simp add: for_each_append)
qed

lemma score_lits_upto:
  assumes "n \<le> length (lits s)"
    and "\<forall>k < n. \<forall>i \<in> set (cont_clauses (lits s ! k)). i < length (clauses s)"
    and "\<forall>k < n. score (lits s ! k) = 0"
  shows "for_each score_lit [0 ..< n] s =
           Inr (s\<lparr>lits := map (rescore (clauses s)) (take n (lits s)) @ drop n (lits s)\<rparr>)"
  using assms
proof (induction n)
  case 0
  then show ?case by simp
next
  case (Suc n)
  let ?r = "rescore (clauses s)"
  let ?t = "s\<lparr>lits := map ?r (take n (lits s)) @ drop n (lits s)\<rparr>"
  from Suc.prems have n: "n < length (lits s)"
    and c: "\<forall>i \<in> set (cont_clauses (lits s ! n)). i < length (clauses s)"
    and z: "score (lits s ! n) = 0" by (auto simp: less_Suc_eq)
  have tn: "lits ?t ! n = lits s ! n" using n by (simp add: nth_append min_def)
  have "score_lit ?t n = Inr (?t\<lparr>lits := (lits ?t)[n := ?r (lits s ! n)]\<rparr>)"
  proof (cases "fixed (lits s ! n)")
    case True
    then have "?r (lits s ! n) = lits s ! n" using z by (simp add: rescore_def)
    moreover have "(lits ?t)[n := lits s ! n] = lits ?t"
      by (subst tn [symmetric]) (rule list_update_id)
    ultimately show ?thesis
      using n True tn by (simp add: score_lit_def Let_def del: nth_append_length)
  next
    case False
    then show ?thesis
      using n tn z score_clauses_total [OF c, of "lits s ! n"]
      by (simp add: score_lit_def Let_def rescore_def del: nth_append_length)
  qed
  moreover have "(lits ?t)[n := ?r (lits s ! n)]
      = map ?r (take (Suc n) (lits s)) @ drop (Suc n) (lits s)"
    using n by (simp add: list_update_append nth_append take_Suc_conv_app_nth
        Cons_nth_drop_Suc [symmetric] min_def)
  moreover have "for_each score_lit [0 ..< n] s = Inr ?t"
    by (rule Suc.IH) (use Suc.prems in \<open>auto simp: less_Suc_eq\<close>)
  ultimately show ?case
    by (simp add: for_each_append)
qed

lemma update_scores_rescore:
  assumes len: "length (lits s) = unat (push_bit 1 (n_vars s) :: u32)"
    and r: "\<forall>l \<in> set (lits s). \<forall>i \<in> set (cont_clauses l). i < length (clauses s)"
  shows "update_scores s = Inr (s\<lparr>lits := map (rescore (clauses s)) (lits s)\<rparr>)"
proof -
  let ?z = "\<lambda>l. l\<lparr>score := 0 :: u32\<rparr>"
  let ?t = "s\<lparr>lits := map ?z (lits s)\<rparr>"
  have 1: "for_each zero_score [0 ..< unat (push_bit 1 (n_vars s) :: u32)] s = Inr ?t"
    using zero_scores_upto [of "length (lits s)" s] len by simp
  have 2: "for_each score_lit [0 ..< length (lits ?t)] ?t
      = Inr (?t\<lparr>lits := map (rescore (clauses ?t)) (take (length (lits ?t)) (lits ?t))
            @ drop (length (lits ?t)) (lits ?t)\<rparr>)"
    using r by (intro score_lits_upto) auto
  have 3: "map (rescore (clauses s)) (map ?z (lits s)) = map (rescore (clauses s)) (lits s)"
    by (simp add: rescore_def)
  show ?thesis
    unfolding update_scores_def using 1 2 3 len by simp
qed

lemma total_weight_const:
  assumes "\<forall>i \<in> set xs. clause_weight (cs ! i) = w"
  shows "total_weight cs xs = of_nat (length xs) * w"
  using assms by (induction xs) (simp_all add: total_weight_def algebra_simps)

text \<open>The loop of \<^verbatim>\<open>choose_branch\<close> keeps its candidate when no variable that is left
  scores above it.\<close>

lemma choose_loop_rest:
  assumes "even (unat lit)"
    and "\<And>k. unat lit \<le> k \<Longrightarrow> k < unat (push_bit 1 (n_vars s) :: u32) \<Longrightarrow> even k \<Longrightarrow>
           Suc k < length (lits s) \<and>
           (fixed (lits s ! k) \<or>
            (score (lits s ! k) + 1) * (score (lits s ! Suc k) + 1) \<le> best_score)"
  shows "choose_loop s lit best_lit best_score = Inr best_lit"
  using assms
proof (induction "unat (push_bit 1 (n_vars s) :: u32) - unat lit" arbitrary: lit
    rule: less_induct)
  case less
  show ?case
  proof (cases "lit < push_bit 1 (n_vars s)")
    case False
    then show ?thesis by (subst choose_loop.simps) simp
  next
    case True
    then have lt: "unat lit < unat (push_bit 1 (n_vars s) :: u32)"
      by (simp add: word_less_nat_alt)
    note h = less.prems(2) [OF le_refl lt less.prems(1)]
    have st: "unat (lit + 2) = unat lit + 2" by (rule loop_step_no_wrap [OF True])
    have ng: "unat (negate lit) = Suc (unat lit)"
      using less.prems(1) by (simp add: unat_negate)
    have rec: "choose_loop s (lit + 2) best_lit best_score = Inr best_lit"
    proof (rule less.hyps)
      show "unat (push_bit 1 (n_vars s) :: u32) - unat (lit + 2)
          < unat (push_bit 1 (n_vars s) :: u32) - unat lit"
        using lt st by simp
      show "even (unat (lit + 2))" using less.prems(1) st by simp
      fix k assume "unat (lit + 2) \<le> k" "k < unat (push_bit 1 (n_vars s) :: u32)" "even k"
      then show "Suc k < length (lits s) \<and>
           (fixed (lits s ! k) \<or>
            (score (lits s ! k) + 1) * (score (lits s ! Suc k) + 1) \<le> best_score)"
        using less.prems(2) [of k] st by simp
    qed
    show ?thesis
      using True h rec ng
      by (subst choose_loop.simps) (auto simp: Let_def not_less [symmetric])
  qed
qed

section \<open>A score that wraps around\<close>

text \<open>The problem \<^verbatim>\<open>p cnf 2 131070\<close> whose clauses are 65535 times \<^verbatim>\<open>2 0\<close> and then 65535
  times \<^verbatim>\<open>-2 0\<close>: its clause states, and the solver when \<^verbatim>\<open>search_assignments\<close> has
  branched on \<open>x1\<close> and searches on.\<close>

definition unit_clause :: "Literal \<Rightarrow> ClauseState" where
  "unit_clause l =
     \<lparr>n_lits = 1, clause_lits = [l], n_assigned_true = 0, n_assigned_false = 0,
      n_free_lits = 1\<rparr>"

definition product_clauses :: "ClauseState list" where
  "product_clauses = replicate 65535 (unit_clause 2) @ replicate 65535 (unit_clause 3)"

definition product_branched :: Solver where
  "product_branched =
     \<lparr>n_vars = 2, n_clauses = 131070,
      lits =
        [\<lparr>fixed = True, assigned = True, score = 0, cont_clauses = []\<rparr>,
         \<lparr>fixed = True, assigned = False, score = 0, cont_clauses = []\<rparr>,
         \<lparr>fixed = False, assigned = False, score = 65535, cont_clauses = [0 ..< 65535]\<rparr>,
         \<lparr>fixed = False, assigned = False, score = 65535,
          cont_clauses = [65535 ..< 131070]\<rparr>],
      clauses = product_clauses,
      n_sat_clauses = 0, n_unsat_clauses = 0, n_units = 0, n_assigned = 1,
      unit_stack = replicate 131074 0, assigned_trail = [0, 0, 0, 0], t_branches = 1,
      t_unit_props = 0\<rparr>"

lemma product_clauses_nth:
  "i < 65535 \<Longrightarrow> product_clauses ! i = unit_clause 2"
  "65535 \<le> i \<Longrightarrow> i < 131070 \<Longrightarrow> product_clauses ! i = unit_clause 3"
  by (simp_all add: product_clauses_def nth_append)

lemma product_clauses_length: "length product_clauses = 131070"
  by (simp add: product_clauses_def)


lemma product_weights:
  "total_weight product_clauses [0 ..< 65535] = 65535"
  "total_weight product_clauses [65535 ..< 131070] = 65535"
proof -
  have "total_weight product_clauses [0 ..< 65535] = of_nat (length [0 ..< 65535 :: nat]) * 1"
    by (rule total_weight_const)
       (simp add: product_clauses_nth unit_clause_def clause_weight_def del: upt_rec_numeral)
  then show "total_weight product_clauses [0 ..< 65535] = 65535"
    by (simp del: upt_rec_numeral)
  have "total_weight product_clauses [65535 ..< 131070]
      = of_nat (length [65535 ..< 131070 :: nat]) * 1"
    by (rule total_weight_const)
       (simp add: product_clauses_nth unit_clause_def clause_weight_def del: upt_rec_numeral)
  then show "total_weight product_clauses [65535 ..< 131070] = 65535"
    by (simp del: upt_rec_numeral)
qed

lemma product_update_scores: "update_scores product_branched = Inr product_branched"
proof -
  have "update_scores product_branched
      = Inr (product_branched\<lparr>lits :=
          map (rescore (clauses product_branched)) (lits product_branched)\<rparr>)"
    by (rule update_scores_rescore)
       (simp_all add: product_branched_def product_clauses_length del: upt_rec_numeral)
  moreover have "map (rescore (clauses product_branched)) (lits product_branched)
      = lits product_branched"
    by (simp add: product_branched_def rescore_def product_weights del: upt_rec_numeral)
  ultimately show ?thesis by simp
qed

lemma product_fields:
  "n_vars product_branched = 2" "n_assigned product_branched = 1"
  "n_sat_clauses product_branched = 0" "n_clauses product_branched = 131070"
  "length (lits product_branched) = 4"
  "fixed (lits product_branched ! 0)" "\<not> fixed (lits product_branched ! 2)"
  "score (lits product_branched ! 2) = 65535" "score (lits product_branched ! 3) = 65535"
  by (simp_all add: product_branched_def del: upt_rec_numeral)

lemma product_wraps: "((65535 :: u32) + 1) * (65535 + 1) = 0"
  by simp

lemma product_choose_loop: "choose_loop product_branched 0 0 0 = Inr 0"
proof (rule choose_loop_rest)
  show "even (unat (0 :: Literal))" by simp
  fix k :: nat
  assume "k < unat (push_bit 1 (n_vars product_branched) :: u32)" and e: "even k"
  then have "k < 4" by (simp add: product_fields)
  then have "k = 0 \<or> k = 1 \<or> k = 2 \<or> k = 3" by auto
  with e have "k = 0 \<or> k = 2" by auto
  then show "Suc k < length (lits product_branched) \<and>
           (fixed (lits product_branched ! k) \<or>
            (score (lits product_branched ! k) + 1) * (score (lits product_branched ! Suc k) + 1)
              \<le> 0)"
  proof
    assume "k = 0"
    then show ?thesis by (simp add: product_fields)
  next
    assume "k = 2"
    then show ?thesis
      by (simp add: product_fields product_wraps eval_nat_numeral(3) [symmetric]
          del: upt_rec_numeral)
  qed
qed

lemma product_second_choice:
  "\<not> fixed (lits product_branched ! 2) \<and> fixed (lits product_branched ! unat (0 :: Literal)) \<and>
   n_assigned product_branched \<noteq> n_vars product_branched \<and>
   n_sat_clauses product_branched \<noteq> n_clauses product_branched \<and>
   (score (lits product_branched ! 2) + 1) * (score (lits product_branched ! 3) + 1) = 0 \<and>
   choose_branch product_branched = Inr (0, product_branched)"
  using product_update_scores product_choose_loop
  by (simp add: choose_branch_def product_fields product_wraps)

subsection \<open>Reading a run of equal unit clauses\<close>

lemma read_clauses_append:
  "read_clauses s i (xs @ ys) =
     (case read_clauses s i xs of
        Inl e \<Rightarrow> Inl e
      | Inr t \<Rightarrow> read_clauses t (i + length xs) ys)"
  by (induction xs arbitrary: s i) (auto split: sum.splits)

lemma add_literal_unit [simp]: "add_literal create_clause_state l = unit_clause l"
  by (simp add: add_literal_def create_clause_state_def unit_clause_def)

lemma create_clause_state_lits [simp]: "clause_lits create_clause_state = []"
  by (simp add: create_clause_state_def)

lemma read_unit_clauses:
  assumes l: "lit_from_int r = Inr l" and rl: "unat l < length (lits s)"
    and len: "i + n \<le> length (clauses s)"
    and fresh: "\<forall>j. i \<le> j \<and> j < i + n \<longrightarrow> clauses s ! j = create_clause_state"
  shows "read_clauses s i (replicate n [r]) =
           Inr (s\<lparr>clauses := take i (clauses s) @ replicate n (unit_clause l)
                              @ drop (i + n) (clauses s),
                  lits := (lits s)[unat l := (lits s ! unat l)
                            \<lparr>cont_clauses := cont_clauses (lits s ! unat l) @ [i ..< i + n]\<rparr>]\<rparr>)"
  using len fresh
proof (induction n)
  case 0
  then show ?case by simp
next
  case (Suc n)
  let ?cs = "take i (clauses s) @ replicate n (unit_clause l) @ drop (i + n) (clauses s)"
  let ?ls = "(lits s)[unat l := (lits s ! unat l)
                \<lparr>cont_clauses := cont_clauses (lits s ! unat l) @ [i ..< i + n]\<rparr>]"
  let ?t = "s\<lparr>clauses := ?cs, lits := ?ls\<rparr>"
  from Suc.prems have n: "i + n < length (clauses s)"
    and c: "clauses s ! (i + n) = create_clause_state" by simp_all
  have ih: "read_clauses s i (replicate n [r]) = Inr ?t"
    by (rule Suc.IH) (use Suc.prems in auto)
  have cn: "?cs ! (i + n) = create_clause_state"
    using n c by (simp add: nth_append)
  have lc: "length ?cs = length (clauses s)" using n by simp
  have step: "add_literal_to_clause ?t (i + n) l
      = Inr (?t\<lparr>clauses := ?cs[i + n := unit_clause l],
               lits := ?ls[unat l := add_cont_clause (?ls ! unat l) (i + n)]\<rparr>)"
    using n rl cn lc by (simp add: add_literal_to_clause_def)
  have 1: "?cs[i + n := unit_clause l]
      = take i (clauses s) @ replicate (Suc n) (unit_clause l) @ drop (i + Suc n) (clauses s)"
  proof -
    have "?cs[i + n := unit_clause l]
        = take i (clauses s) @ replicate n (unit_clause l)
          @ (drop (i + n) (clauses s))[0 := unit_clause l]"
      using n by (simp add: list_update_append)
    also have "(drop (i + n) (clauses s))[0 := unit_clause l]
        = unit_clause l # drop (i + Suc n) (clauses s)"
      using n by (simp add: Cons_nth_drop_Suc [symmetric])
    finally show ?thesis by (simp add: replicate_append_same)
  qed
  have 2: "?ls[unat l := add_cont_clause (?ls ! unat l) (i + n)]
      = (lits s)[unat l := (lits s ! unat l)
           \<lparr>cont_clauses := cont_clauses (lits s ! unat l) @ [i ..< i + Suc n]\<rparr>]"
    using rl by (simp add: add_cont_clause_def)
  have "replicate (Suc n) [r] = replicate n [r] @ [[r]]"
    by (simp add: replicate_append_same)
  then show ?case
    using ih step l 1 2 by (simp add: read_clauses_append add_repr_def del: replicate_Suc)
qed

definition product_loaded :: Solver where
  "product_loaded =
     \<lparr>n_vars = 2, n_clauses = 131070,
      lits =
        [\<lparr>fixed = False, assigned = False, score = 0, cont_clauses = []\<rparr>,
         \<lparr>fixed = False, assigned = False, score = 0, cont_clauses = []\<rparr>,
         \<lparr>fixed = False, assigned = False, score = 0, cont_clauses = [0 ..< 65535]\<rparr>,
         \<lparr>fixed = False, assigned = False, score = 0, cont_clauses = [65535 ..< 131070]\<rparr>],
      clauses = product_clauses,
      n_sat_clauses = 0, n_unsat_clauses = 0, n_units = 0, n_assigned = 0,
      unit_stack = replicate 131074 0, assigned_trail = [0, 0, 0, 0], t_branches = 0,
      t_unit_props = 0\<rparr>"

lemma replicate_4: "replicate 4 x = [x, x, x, x]"
  by (simp add: numeral_eq_Suc)

lemma lit_from_int_2: "lit_from_int 2 = Inr 2" "lit_from_int (- 2) = Inr 3"
  by code_simp+

lemma product_created:
  "create_solver 2 (of_nat (length (replicate 65535 [2 :: c_int] @ replicate 65535 [- 2])))
     = Inr \<lparr>n_vars = 2, n_clauses = 131070,
            lits = replicate 4 create_lit_state,
            clauses = replicate 131070 create_clause_state,
            n_sat_clauses = 0, n_unsat_clauses = 0, n_units = 0, n_assigned = 0,
            unit_stack = replicate 131074 0, assigned_trail = replicate 4 0, t_branches = 0,
            t_unit_props = 0\<rparr>"
  by (simp add: create_solver_def)

definition product_empty :: Solver where
  "product_empty =
     \<lparr>n_vars = 2, n_clauses = 131070,
      lits = replicate 4 create_lit_state,
      clauses = replicate 131070 create_clause_state,
      n_sat_clauses = 0, n_unsat_clauses = 0, n_units = 0, n_assigned = 0,
      unit_stack = replicate 131074 0, assigned_trail = replicate 4 0, t_branches = 0,
      t_unit_props = 0\<rparr>"

lemma product_empty_fields:
  "lits product_empty = replicate 4 create_lit_state"
  "clauses product_empty = replicate 131070 create_clause_state"
  by (simp_all add: product_empty_def)

lemma product_read_first:
  "read_clauses product_empty 0 (replicate 65535 [2]) =
     Inr (product_empty\<lparr>clauses := take 0 (clauses product_empty)
                @ replicate 65535 (unit_clause 2) @ drop (0 + 65535) (clauses product_empty),
           lits := (lits product_empty)[unat (2 :: Literal) :=
                     (lits product_empty ! unat (2 :: Literal))
                       \<lparr>cont_clauses := cont_clauses (lits product_empty ! unat (2 :: Literal))
                          @ [0 ..< 0 + 65535]\<rparr>]\<rparr>)"
proof (rule read_unit_clauses [OF lit_from_int_2(1)])
  show "unat (2 :: Literal) < length (lits product_empty)"
    by (simp add: product_empty_fields)
  show "0 + 65535 \<le> length (clauses product_empty)"
    by (simp add: product_empty_fields)
  show "\<forall>j. 0 \<le> j \<and> j < 0 + 65535 \<longrightarrow> clauses product_empty ! j = create_clause_state"
    by (simp add: product_empty_fields)
qed

declare upt_rec_numeral [simp del]

definition product_half :: Solver where
  "product_half =
     \<lparr>n_vars = 2, n_clauses = 131070,
      lits =
        [\<lparr>fixed = False, assigned = False, score = 0, cont_clauses = []\<rparr>,
         \<lparr>fixed = False, assigned = False, score = 0, cont_clauses = []\<rparr>,
         \<lparr>fixed = False, assigned = False, score = 0, cont_clauses = [0 ..< 65535]\<rparr>,
         \<lparr>fixed = False, assigned = False, score = 0, cont_clauses = []\<rparr>],
      clauses = replicate 65535 (unit_clause 2) @ replicate 65535 create_clause_state,
      n_sat_clauses = 0, n_unsat_clauses = 0, n_units = 0, n_assigned = 0,
      unit_stack = replicate 131074 0, assigned_trail = [0, 0, 0, 0], t_branches = 0,
      t_unit_props = 0\<rparr>"

lemma product_half_fields:
  "lits product_half =
        [\<lparr>fixed = False, assigned = False, score = 0, cont_clauses = []\<rparr>,
         \<lparr>fixed = False, assigned = False, score = 0, cont_clauses = []\<rparr>,
         \<lparr>fixed = False, assigned = False, score = 0, cont_clauses = [0 ..< 65535]\<rparr>,
         \<lparr>fixed = False, assigned = False, score = 0, cont_clauses = []\<rparr>]"
  "clauses product_half = replicate 65535 (unit_clause 2) @ replicate 65535 create_clause_state"
  by (simp_all add: product_half_def)

lemma product_read_first':
  "read_clauses product_empty 0 (replicate 65535 [2]) = Inr product_half"
  unfolding product_read_first
  by (simp add: product_empty_def product_half_def replicate_4 create_lit_state_def)

lemma product_read_second:
  "read_clauses product_half 65535 (replicate 65535 [- 2]) =
     Inr (product_half\<lparr>clauses := take 65535 (clauses product_half)
                @ replicate 65535 (unit_clause 3) @ drop (65535 + 65535) (clauses product_half),
           lits := (lits product_half)[unat (3 :: Literal) :=
                     (lits product_half ! unat (3 :: Literal))
                       \<lparr>cont_clauses := cont_clauses (lits product_half ! unat (3 :: Literal))
                          @ [65535 ..< 65535 + 65535]\<rparr>]\<rparr>)"
proof (rule read_unit_clauses [OF lit_from_int_2(2)])
  show "unat (3 :: Literal) < length (lits product_half)"
    by (simp add: product_half_fields)
  show "65535 + 65535 \<le> length (clauses product_half)"
    by (simp add: product_half_fields)
  show "\<forall>j. 65535 \<le> j \<and> j < 65535 + 65535 \<longrightarrow>
      clauses product_half ! j = create_clause_state"
  proof (intro allI impI)
    fix j :: nat assume j: "65535 \<le> j \<and> j < 65535 + 65535"
    then have "j - 65535 < 65535" by arith
    with j show "clauses product_half ! j = create_clause_state"
      by (simp add: product_half_fields nth_append)
  qed
qed

lemma product_read_second':
  "read_clauses product_half 65535 (replicate 65535 [- 2]) = Inr product_loaded"
  unfolding product_read_second
  by (simp add: product_half_def product_loaded_def product_clauses_def)

lemma product_load:
  "load_problem 2 (replicate 65535 [2] @ replicate 65535 [- 2]) = Inr product_loaded"
  unfolding load_problem_def product_created product_empty_def [symmetric]
  by (simp add: read_clauses_append product_read_first' product_read_second')

declare upt_rec_numeral [simp]

declare upt_rec_numeral [simp del]

definition product_scored :: Solver where
  "product_scored =
     \<lparr>n_vars = 2, n_clauses = 131070,
      lits =
        [\<lparr>fixed = False, assigned = False, score = 0, cont_clauses = []\<rparr>,
         \<lparr>fixed = False, assigned = False, score = 0, cont_clauses = []\<rparr>,
         \<lparr>fixed = False, assigned = False, score = 65535, cont_clauses = [0 ..< 65535]\<rparr>,
         \<lparr>fixed = False, assigned = False, score = 65535,
          cont_clauses = [65535 ..< 131070]\<rparr>],
      clauses = product_clauses,
      n_sat_clauses = 0, n_unsat_clauses = 0, n_units = 0, n_assigned = 0,
      unit_stack = replicate 131074 0, assigned_trail = [0, 0, 0, 0], t_branches = 0,
      t_unit_props = 0\<rparr>"

lemma total_weight_nil [simp]: "total_weight cs [] = 0"
  by (simp add: total_weight_def)

lemma product_wraps': "(4294967296 :: u32) = 0"
  by simp

lemma product_first_scores: "update_scores product_loaded = Inr product_scored"
proof -
  have "update_scores product_loaded
      = Inr (product_loaded\<lparr>lits :=
          map (rescore (clauses product_loaded)) (lits product_loaded)\<rparr>)"
    by (rule update_scores_rescore)
       (simp_all add: product_loaded_def product_clauses_length)
  moreover have "product_loaded\<lparr>lits :=
          map (rescore (clauses product_loaded)) (lits product_loaded)\<rparr> = product_scored"
    by (simp add: product_loaded_def product_scored_def rescore_def product_weights)
  ultimately show ?thesis by simp
qed

lemma product_scored_fields:
  "n_vars product_scored = 2" "length (lits product_scored) = 4"
  "\<not> fixed (lits product_scored ! 0)" "\<not> fixed (lits product_scored ! 2)"
  "score (lits product_scored ! 0) = 0" "score (lits product_scored ! Suc 0) = 0"
  "score (lits product_scored ! 2) = 65535" "score (lits product_scored ! 3) = 65535"
  by (simp_all add: product_scored_def)

lemma product_first_loop: "choose_loop product_scored 0 0 0 = Inr 0"
proof -
  have rest: "choose_loop product_scored 2 0 1 = Inr 0"
  proof (rule choose_loop_rest)
    show "even (unat (2 :: Literal))" by simp
    fix k :: nat
    assume "unat (2 :: Literal) \<le> k"
      and "k < unat (push_bit 1 (n_vars product_scored) :: u32)" and e: "even k"
    then have "2 \<le> k" "k < 4" by (simp_all add: product_scored_fields)
    then have "k = 2 \<or> k = 3" by auto
    with e have "k = 2" by auto
    then show "Suc k < length (lits product_scored) \<and>
           (fixed (lits product_scored ! k) \<or>
            (score (lits product_scored ! k) + 1) * (score (lits product_scored ! Suc k) + 1)
              \<le> 1)"
      by (simp add: product_scored_fields product_wraps' eval_nat_numeral(3) [symmetric])
  qed
  have n: "unat (negate 0) = Suc 0" by (simp add: unat_negate)
  show ?thesis
    by (subst choose_loop.simps) (simp add: product_scored_fields n rest Let_def)
qed

lemma product_first_choice: "choose_branch product_loaded = Inr (0, product_scored)"
  using product_first_scores product_first_loop
  by (simp add: choose_branch_def) (simp add: product_loaded_def)

lemma product_first_assignment:
  "make_assignment
     (product_scored\<lparr>t_branches := t_branches product_scored + 1,
        assigned_trail := (assigned_trail product_scored)[unat (n_assigned product_scored) := 0],
        n_assigned := n_assigned product_scored + 1\<rparr>) 0 = Inr product_branched"
proof -
  have n: "unat (negate 0) = Suc 0" by (simp add: unat_negate)
  show ?thesis
    by (simp add: make_assignment_def n Let_def product_scored_def product_branched_def)
qed

lemma product_propagate: "propagate product_branched = Inr (False, product_branched)"
  by (subst propagate_unfold) (simp add: product_branched_def)

lemma product_enters: "search_enters 1 product_loaded product_branched"
proof -
  have 1: "\<not> any_contradiction product_loaded"
    by (simp add: any_contradiction_def product_loaded_def)
  have 2: "\<not> all_satisfied product_loaded"
    by (simp add: all_satisfied_def product_loaded_def)
  have 4: "unat (n_assigned product_scored) < length (assigned_trail product_scored)"
    by (simp add: product_scored_def)
  have "try_enters 0 product_scored 0 product_branched"
    by (rule recurse [OF 4 product_first_assignment product_propagate enter])
  then have "search_enters (Suc 0) product_loaded product_branched"
    by (rule first [OF 1 2 product_first_choice])
  then show ?thesis by simp
qed

lemma product_second_try: "try_assignment fuel product_branched 0 = Inl Assertion_Failed"
  by (subst try_assignment_unfold)
     (simp add: make_assignment_def push_assigned_def Let_def product_branched_def, simp add: unat_negate)

lemma product_second_search:
  "search_assignments (Suc fuel) product_branched = Inl Assertion_Failed"
  using product_second_choice product_second_try [of fuel]
  by (simp add: any_contradiction_def all_satisfied_def product_fields)
     (simp add: product_branched_def)

lemma product_first_try:
  "try_assignment (Suc fuel) product_scored 0 = Inl Assertion_Failed"
  using product_first_assignment product_propagate product_second_search [of fuel]
  by (subst try_assignment.simps) (simp add: Let_def, simp add: product_scored_def)

lemma product_search:
  "search_assignments (Suc (Suc fuel)) product_loaded = Inl Assertion_Failed"
  using product_first_choice product_first_try [of fuel]
  by (simp add: any_contradiction_def all_satisfied_def) (simp add: product_loaded_def)

text \<open>
  Claim C10 fails on the code. The input is \<^verbatim>\<open>p cnf 2 131070\<close> with the clause \<^verbatim>\<open>2 0\<close>
  65535 times and then the clause \<^verbatim>\<open>-2 0\<close> 65535 times. \<^verbatim>\<open>search_assignments\<close> branches
  on \<open>x1\<close> and is entered again in a state where \<open>x2\<close> is unassigned and each of its two
  literals is in 65535 clauses that are not satisfied, so both score 65535; the product
  \<^verbatim>\<open>(a + 1) * (b + 1)\<close> is \<open>2 ^ 32\<close>, which is 0 in an \<^verbatim>\<open>unsigned int\<close> and not above the
  initial \<^verbatim>\<open>best_score\<close>. \<^verbatim>\<open>choose_branch\<close> returns its placeholder, the literal 0 of
  the assigned variable \<open>x1\<close>, and the assertion of \<^verbatim>\<open>make_assignment\<close> that the literal
  is not fixed fails.
\<close>

theorem choose_branch_returns_assigned:
  "load_problem 2 (replicate 65535 [2] @ replicate 65535 [- 2]) = Inr product_loaded \<and>
   search_enters 1 product_loaded product_branched \<and>
   n_assigned product_branched \<noteq> n_vars product_branched \<and>
   n_sat_clauses product_branched \<noteq> n_clauses product_branched \<and>
   \<not> fixed (lits product_branched ! 2) \<and>
   (score (lits product_branched ! 2) + 1) * (score (lits product_branched ! 3) + 1) = 0 \<and>
   choose_branch product_branched = Inr (0, product_branched) \<and>
   fixed (lits product_branched ! unat (0 :: Literal)) \<and>
   (\<forall>fuel. search_assignments (Suc (Suc fuel)) product_loaded = Inl Assertion_Failed)"
  using product_load product_enters product_second_choice product_search by simp

section \<open>A capacity that wraps around\<close>

text \<open>The problem \<^verbatim>\<open>p cnf 2147483647 2\<close> with the clauses \<^verbatim>\<open>-1 2 0\<close> and \<^verbatim>\<open>1 3 0\<close>: the
  literal states once the clauses are read and once they are scored, and the loaded
  solver. \<^verbatim>\<open>create_solver\<close> computes the capacity of the unit stack as
  \<^verbatim>\<open>(n_vars << 1) + n_clauses\<close>, which is \<open>4294967294 + 2\<close> and wraps around to 0.\<close>

definition wrap_lits :: "u32 \<Rightarrow> LitState list" where
  "wrap_lits w =
     (replicate 4294967294 create_lit_state)
       [1 := \<lparr>fixed = False, assigned = False, score = w, cont_clauses = [0]\<rparr>,
        2 := \<lparr>fixed = False, assigned = False, score = w, cont_clauses = [0]\<rparr>,
        0 := \<lparr>fixed = False, assigned = False, score = w, cont_clauses = [1]\<rparr>,
        4 := \<lparr>fixed = False, assigned = False, score = w, cont_clauses = [1]\<rparr>]"

definition wrap_clauses :: "ClauseState list" where
  "wrap_clauses =
     [\<lparr>n_lits = 2, clause_lits = [1, 2], n_assigned_true = 0, n_assigned_false = 0,
       n_free_lits = 2\<rparr>,
      \<lparr>n_lits = 2, clause_lits = [0, 4], n_assigned_true = 0, n_assigned_false = 0,
       n_free_lits = 2\<rparr>]"

definition wrap_solver :: "u32 \<Rightarrow> Solver" where
  "wrap_solver w =
     \<lparr>n_vars = 2147483647, n_clauses = 2, lits = wrap_lits w, clauses = wrap_clauses,
      n_sat_clauses = 0, n_unsat_clauses = 0, n_units = 0, n_assigned = 0,
      unit_stack = [], assigned_trail = replicate 4294967294 0, t_branches = 0,
      t_unit_props = 0\<rparr>"

definition wrap_loaded :: Solver where
  "wrap_loaded = wrap_solver 0"

lemma wrap_codes:
  "lit_from_int (- 1) = Inr 1" "lit_from_int 2 = Inr 2" "lit_from_int 1 = Inr 0"
  "lit_from_int 3 = Inr 4"
  by code_simp+

lemma replicate_2: "replicate 2 x = [x, x]"
  by (simp add: numeral_2_eq_2)

lemma wrap_sizes:
  "unat (push_bit 1 (2147483647 :: u32) :: u32) = 4294967294"
  "unat (push_bit 1 (2147483647 :: u32) + 2 :: u32) = 0"
  "(0 :: u32) < 2147483647"
  by simp_all

lemma wrap_created:
  "create_solver 2147483647 (of_nat (length [[- 1, 2], [1, 3 :: c_int]]))
     = Inr \<lparr>n_vars = 2147483647, n_clauses = 2,
            lits = replicate 4294967294 create_lit_state,
            clauses = [create_clause_state, create_clause_state],
            n_sat_clauses = 0, n_unsat_clauses = 0, n_units = 0, n_assigned = 0,
            unit_stack = [], assigned_trail = replicate 4294967294 0, t_branches = 0,
            t_unit_props = 0\<rparr>"
  by (simp add: create_solver_def wrap_sizes replicate_2 del: push_bit_numeral)

lemma wrap_load: "load_problem 2147483647 [[- 1, 2], [1, 3]] = Inr wrap_loaded"
  unfolding load_problem_def wrap_created
  by (simp add: add_repr_def wrap_codes add_literal_to_clause_def add_literal_def
      add_cont_clause_def create_clause_state_def create_lit_state_def
      wrap_loaded_def wrap_solver_def wrap_lits_def wrap_clauses_def)

lemma wrap_lits_length [simp]: "length (wrap_lits w) = 4294967294"
  by (simp add: wrap_lits_def)

lemma wrap_lits_nth:
  "wrap_lits w ! 0 = \<lparr>fixed = False, assigned = False, score = w, cont_clauses = [1]\<rparr>"
  "wrap_lits w ! Suc 0 = \<lparr>fixed = False, assigned = False, score = w, cont_clauses = [0]\<rparr>"
  "wrap_lits w ! 2 = \<lparr>fixed = False, assigned = False, score = w, cont_clauses = [0]\<rparr>"
  "wrap_lits w ! 4 = \<lparr>fixed = False, assigned = False, score = w, cont_clauses = [1]\<rparr>"
  by (simp_all add: wrap_lits_def)

lemma wrap_lits_other:
  assumes "k < 4294967294" and "k \<noteq> 0" and "k \<noteq> 1" and "k \<noteq> 2" and "k \<noteq> 4"
  shows "wrap_lits w ! k = create_lit_state"
  using assms by (simp add: wrap_lits_def)

lemma wrap_lits_cont:
  assumes "l \<in> set (wrap_lits w)"
  shows "\<forall>i \<in> set (cont_clauses l). i < length wrap_clauses"
proof -
  from assms obtain k where k: "k < 4294967294" and l: "l = wrap_lits w ! k"
    by (auto simp: in_set_conv_nth)
  show ?thesis
  proof (cases "k = 0 \<or> k = 1 \<or> k = 2 \<or> k = 4")
    case True
    then show ?thesis using l wrap_lits_nth [of w] by (auto simp: wrap_clauses_def)
  next
    case False
    then show ?thesis using l wrap_lits_other [OF k, of w] by (simp add: create_lit_state_def)
  qed
qed

lemma wrap_rescore: "map (rescore wrap_clauses) (wrap_lits 0) = wrap_lits 4"
  by (simp add: wrap_lits_def map_update rescore_def total_weight_def clause_weight_def
      wrap_clauses_def create_lit_state_def)

lemma wrap_scores: "update_scores wrap_loaded = Inr (wrap_solver 4)"
proof -
  have "update_scores wrap_loaded
      = Inr (wrap_loaded\<lparr>lits := map (rescore (clauses wrap_loaded)) (lits wrap_loaded)\<rparr>)"
  proof (rule update_scores_rescore)
    show "length (lits wrap_loaded) = unat (push_bit 1 (n_vars wrap_loaded) :: u32)"
      by (simp add: wrap_loaded_def wrap_solver_def wrap_sizes del: push_bit_numeral)
    show "\<forall>l \<in> set (lits wrap_loaded). \<forall>i \<in> set (cont_clauses l).
        i < length (clauses wrap_loaded)"
      using wrap_lits_cont [of _ 0] by (simp add: wrap_loaded_def wrap_solver_def)
  qed
  then show ?thesis
    by (simp add: wrap_loaded_def wrap_solver_def wrap_rescore)
qed

lemma wrap_fields:
  "n_vars (wrap_solver w) = 2147483647" "lits (wrap_solver w) = wrap_lits w"
  "clauses (wrap_solver w) = wrap_clauses" "n_assigned (wrap_solver w) = 0"
  "n_sat_clauses (wrap_solver w) = 0" "n_unsat_clauses (wrap_solver w) = 0"
  "n_clauses (wrap_solver w) = 2" "unit_stack (wrap_solver w) = []"
  "n_units (wrap_solver w) = 0" "assigned_trail (wrap_solver w) = replicate 4294967294 0"
  by (simp_all add: wrap_solver_def)

lemma wrap_choose_loop: "choose_loop (wrap_solver 4) 0 0 0 = Inr 0"
proof -
  have rest: "choose_loop (wrap_solver 4) 2 0 25 = Inr 0"
  proof (rule choose_loop_rest)
    show "even (unat (2 :: Literal))" by simp
    fix k :: nat
    assume "unat (2 :: Literal) \<le> k"
      and "k < unat (push_bit 1 (n_vars (wrap_solver 4)) :: u32)" and e: "even k"
    then have k: "2 \<le> k" "k < 4294967294"
      by (simp_all add: wrap_fields wrap_sizes del: push_bit_numeral)
    have s: "Suc k < 4294967294"
    proof -
      have "Suc k \<noteq> 4294967294" using e by auto
      with k show ?thesis by simp
    qed
    have sk: "Suc k \<noteq> 0" "Suc k \<noteq> 1" "Suc k \<noteq> 2" "Suc k \<noteq> 4"
      using k e by auto
    have o: "wrap_lits 4 ! Suc k = create_lit_state"
      by (rule wrap_lits_other [OF s sk])
    consider "k = 2" | "k = 4" | "k \<noteq> 0" "k \<noteq> 1" "k \<noteq> 2" "k \<noteq> 4"
      using k by auto
    then have "(score (wrap_lits 4 ! k) + 1) * (score (wrap_lits 4 ! Suc k) + 1) \<le> 25"
    proof cases
      case 1
      then show ?thesis using o by (simp add: wrap_lits_nth create_lit_state_def)
    next
      case 2
      then show ?thesis using o by (simp add: wrap_lits_nth create_lit_state_def)
    next
      case 3
      then show ?thesis
        using o wrap_lits_other [OF k(2) 3, of 4] by (simp add: create_lit_state_def)
    qed
    with s show "Suc k < length (lits (wrap_solver 4)) \<and>
           (fixed (lits (wrap_solver 4) ! k) \<or>
            (score (lits (wrap_solver 4) ! k) + 1) * (score (lits (wrap_solver 4) ! Suc k) + 1)
              \<le> 25)"
      by (simp add: wrap_fields)
  qed
  have n: "unat (negate 0) = Suc 0" by (simp add: unat_negate)
  have lt: "(0 :: u32) < push_bit 1 2147483647" by simp
  show ?thesis
    using lt
    by (subst choose_loop.simps)
       (simp add: wrap_fields wrap_lits_nth n rest Let_def del: push_bit_numeral)
qed

lemma wrap_choice: "choose_branch wrap_loaded = Inr (0, wrap_solver 4)"
  using wrap_scores wrap_choose_loop
  by (simp add: choose_branch_def) (simp add: wrap_loaded_def wrap_fields)

lemma wrap_assignment:
  "make_assignment
     (wrap_solver 4\<lparr>t_branches := t_branches (wrap_solver 4) + 1,
        assigned_trail := (assigned_trail (wrap_solver 4))[unat (n_assigned (wrap_solver 4)) := 0],
        n_assigned := n_assigned (wrap_solver 4) + 1\<rparr>) 0 = Inl Unit_Stack_Overflow"
proof -
  have n: "unat (negate 0) = Suc 0" by (simp add: unat_negate)
  show ?thesis
    by (simp add: make_assignment_def n Let_def wrap_solver_def wrap_lits_def wrap_clauses_def
        add_true_assignment_def add_false_assignment_def get_unit_def)
qed

lemma wrap_try: "try_assignment fuel (wrap_solver 4) 0 = Inl Unit_Stack_Overflow"
  using wrap_assignment
  by (subst try_assignment.simps) (simp add: Let_def, simp add: wrap_fields)

lemma wrap_search: "search_assignments (Suc fuel) wrap_loaded = Inl Unit_Stack_Overflow"
  using wrap_choice wrap_try [of fuel]
  by (simp add: any_contradiction_def all_satisfied_def)
     (simp add: wrap_loaded_def wrap_fields)

text \<open>
  Claim C8 fails on the code. The input is \<^verbatim>\<open>p cnf 2147483647 2\<close> with the clauses
  \<^verbatim>\<open>-1 2 0\<close> and \<^verbatim>\<open>1 3 0\<close>. The capacity \<^verbatim>\<open>(n_vars << 1) + n_clauses\<close> of
  \<^verbatim>\<open>create_solver\<close> is \<open>4294967294 + 2\<close> in an \<^verbatim>\<open>unsigned int\<close>, which is 0, so the unit
  stack has no cell, although \<open>2 * n_vars + n_clauses\<close> is \<open>4294967296\<close>.
  \<^verbatim>\<open>search_assignments\<close> branches on \<open>x1\<close>; \<^verbatim>\<open>make_assignment\<close> takes the clause
  \<^verbatim>\<open>-1 2\<close> from two free literals to one, and \<^verbatim>\<open>add_false_assignment\<close> writes
  \<^verbatim>\<open>unit_stack[0]\<close>, outside the array: the search ends in the fault
  \<open>Unit_Stack_Overflow\<close>.
\<close>

theorem unit_stack_capacity_wraps:
  "load_problem 2147483647 [[- 1, 2], [1, 3]] = Inr wrap_loaded \<and>
   length (unit_stack wrap_loaded) = 0 \<and>
   2 * unat (n_vars wrap_loaded) + unat (n_clauses wrap_loaded) = 4294967296 \<and>
   (\<forall>fuel. search_assignments (Suc fuel) wrap_loaded = Inl Unit_Stack_Overflow)"
  using wrap_load wrap_search by (simp add: wrap_loaded_def wrap_fields)

end
